(* ===== verification/Lyth_Prelude.thy ===== *)
theory Lyth_Prelude
  imports Main "HOL-Library.Word"
begin

text \<open>
  Shared vocabulary of the development: the machine integer types of the C sources,
  the loop schemes the sources use over and over (the first matching slot of a table,
  a counted loop over an array), and the arithmetic and bit lemmas the components share.
\<close>

unbundle bit_operations_syntax

section \<open>Machine integers\<close>

type_synonym u8 = "8 word"
type_synonym u16 = "16 word"
type_synonym u32 = "32 word"
type_synonym u64 = "64 word"

text \<open>
  A C pointer to bytes is the function that reads the byte at a given distance from it:
  reads past the end of the object are reads of whatever follows it in memory, as in the
  flat address space of the kernel.
\<close>

type_synonym bytes_at = "nat \<Rightarrow> u8"

text \<open>Facts of the form "operation \<open>f\<close> leaves field \<open>g\<close> alone", used as simp rules.\<close>

named_theorems frame_simps \<open>fields an operation does not write\<close>

section \<open>Tables of slots\<close>

text \<open>
  The loop \<^verbatim>\<open>for (i = 0; i < MAX; i++) if (test(table[i])) { ... break; }\<close>: the index of
  the first entry that passes the test.
\<close>

fun first_idx :: "('a \<Rightarrow> bool) \<Rightarrow> 'a list \<Rightarrow> nat option" where
  "first_idx P [] = None"
| "first_idx P (x # xs) = (if P x then Some 0 else map_option Suc (first_idx P xs))"

lemma first_idx_Some_iff:
  "first_idx P xs = Some i \<longleftrightarrow> i < length xs \<and> P (xs ! i) \<and> (\<forall>j < i. \<not> P (xs ! j))"
proof (induction xs arbitrary: i)
  case (Cons x xs)
  show ?case
  proof (cases i)
    case 0
    then show ?thesis by auto
  next
    case (Suc k)
    have "(\<forall>j < Suc k. \<not> P ((x # xs) ! j)) \<longleftrightarrow> \<not> P x \<and> (\<forall>j < k. \<not> P (xs ! j))"
      by (auto simp: less_Suc_eq_0_disj)
    with Suc Cons.IH [of k] show ?thesis by auto
  qed
qed simp

lemma first_idx_SomeD:
  assumes "first_idx P xs = Some i"
  shows "i < length xs" "P (xs ! i)" "j < i \<Longrightarrow> \<not> P (xs ! j)"
  using assms by (auto simp: first_idx_Some_iff)

lemma first_idx_None_iff: "first_idx P xs = None \<longleftrightarrow> (\<forall>x \<in> set xs. \<not> P x)"
  by (induction xs) auto

lemma first_idx_exists: "x \<in> set xs \<Longrightarrow> P x \<Longrightarrow> \<exists>i. first_idx P xs = Some i"
  using first_idx_None_iff [of P xs] by (cases "first_idx P xs") auto

lemma first_idx_cong:
  "(\<And>x. x \<in> set xs \<Longrightarrow> P x = Q x) \<Longrightarrow> first_idx P xs = first_idx Q xs"
  by (induction xs) auto

section \<open>Alignment of word values\<close>

text \<open>
  The sources round with \<^verbatim>\<open>(v + a - 1) & ~(a - 1)\<close> for a power of two \<open>a\<close>; clearing the
  low bits of a word is division by the power followed by multiplication.
\<close>

lemma and_not_mask_eq:
  fixes v :: "'a::len word"
  shows "v AND NOT (2 ^ n - 1) = push_bit n (drop_bit n v)"
proof -
  have "(2 ^ n - 1 :: 'a word) = mask n" by (simp add: mask_eq_exp_minus_1)
  moreover have "v AND NOT (mask n) = push_bit n (drop_bit n v)"
    by (rule bit_eqI) (auto simp: bit_simps)
  ultimately show ?thesis by simp
qed

lemma unat_and_not_mask:
  fixes v :: "'a::len word"
  assumes "n < LENGTH('a)"
  shows "unat (v AND NOT (2 ^ n - 1)) = unat v div 2 ^ n * 2 ^ n"
proof -
  have "v AND NOT (2 ^ n - 1) = drop_bit n v * 2 ^ n"
    by (simp add: and_not_mask_eq push_bit_eq_mult)
  moreover have "unat (drop_bit n v) = unat v div 2 ^ n"
    unfolding unat_drop_bit_eq by (simp add: drop_bit_eq_div)
  moreover have "unat v div 2 ^ n * 2 ^ n < 2 ^ LENGTH('a)"
    by (rule le_less_trans [OF _ unsigned_less [of v]]) simp
  moreover have "unat (2 ^ n :: 'a word) = 2 ^ n"
  proof -
    have "unat (of_nat (2 ^ n) :: 'a word) = 2 ^ n"
      using assms by (simp only: unat_of_nat) simp
    then show ?thesis by simp
  qed
  ultimately show ?thesis
    by (simp only: unat_word_ariths(2) mod_less)
qed

lemma unat_u8_less: "unat (b :: u8) < 256"
  using unsigned_less [of b, where 'a = nat] by simp

lemma unat_u16_less: "unat (b :: u16) < 65536"
  using unsigned_less [of b, where 'a = nat] by simp

lemma unat_u32_less: "unat (b :: u32) < 4294967296"
  using unsigned_less [of b, where 'a = nat] by simp

lemma unat_u64_less: "unat (b :: u64) < 18446744073709551616"
  using unsigned_less [of b] by simp

lemma sint_u32_small: "unat (w :: u32) < 2147483648 \<Longrightarrow> sint w = int (unat w)"
proof -
  assume lt: "unat w < 2147483648"
  have u: "uint w = int (unat w)" by simp
  have "sint w = signed_take_bit 31 (uint w)" by (simp add: sint_uint)
  also have "\<dots> = uint w"
  proof (rule signed_take_bit_int_eq_self)
    have "- (2 ^ 31) \<le> (0 :: int)" by simp
    also have "0 \<le> uint w" by simp
    finally show "- (2 ^ 31) \<le> uint w" .
    have "int (unat w) < int 2147483648" using lt by (simp only: of_nat_less_iff)
    then show "uint w < 2 ^ 31" unfolding u by simp
  qed
  finally show ?thesis by (simp only: u)
qed

lemma of_nat_unat_id: "of_nat (unat (w :: 'a :: len word)) = w"
  by simp

lemma unat_of_nat_small: "n < 2 ^ 64 \<Longrightarrow> unat (of_nat n :: u64) = n"
  by (simp add: unat_of_nat take_bit_nat_eq_self)

section \<open>Runs of bytes in memory\<close>

lemma fold_write_bytes:
  assumes "n \<le> 2 ^ 32"
  shows "fold (\<lambda>i m. m(p + of_nat i := f i)) [0..<n] m a =
    (if unat (a - p :: u64) < n then f (unat (a - p)) else m a)"
  using assms
proof (induction n)
  case (Suc n)
  have "a = p + of_nat n \<longleftrightarrow> unat (a - p) = n"
  proof
    assume "a = p + of_nat n"
    then show "unat (a - p) = n" using Suc.prems by (simp add: unat_of_nat take_bit_nat_eq_self)
  next
    assume "unat (a - p) = n"
    then have "of_nat n = a - p" by (metis of_nat_unat_id)
    then show "a = p + of_nat n" by simp
  qed
  with Suc show ?case by (auto simp: less_Suc_eq)
qed simp

end
