(* ===== verification/Allocator.thy ===== *)
theory Allocator
  imports Lyth_Prelude
begin

text \<open>
  What the kernel expects of a memory allocator, as an interface: \<open>holds s L\<close> says that in
  state \<open>s\<close> exactly the blocks of \<open>L\<close> (start and size in bytes) are handed out. The frame
  allocator and the slab allocator provide it; the lemmas on clients hold for both.
\<close>

datatype ('n, 'p) command = Alloc 'n | Free 'p

text \<open>A client keeps the pointers it was given and frees only those.\<close>

fun client :: "('n \<Rightarrow> 's \<Rightarrow> 'p \<times> 's) \<Rightarrow> ('p \<Rightarrow> 's \<Rightarrow> 's option) \<Rightarrow> 'p \<Rightarrow>
    ('n, 'p) command list \<Rightarrow> 's \<Rightarrow> 'p set \<Rightarrow> ('s \<times> 'p set) option" where
  "client al fr nul [] s H = Some (s, H)"
| "client al fr nul (Alloc n # cs) s H =
     (let (p, s') = al n s in client al fr nul cs s' (if p = nul then H else insert p H))"
| "client al fr nul (Free p # cs) s H =
     (if p \<in> H then Option.bind (fr p s) (\<lambda>s'. client al fr nul cs s' (H - {p}))
      else client al fr nul cs s H)"

locale allocator =
  fixes alloc :: "'n \<Rightarrow> 's \<Rightarrow> 'p \<times> 's"
    and free :: "'p \<Rightarrow> 's \<Rightarrow> 's option"
    and null :: 'p
    and need :: "'n \<Rightarrow> nat"
    and addr :: "'p \<Rightarrow> nat"
    and holds :: "'s \<Rightarrow> ('p \<times> nat) set \<Rightarrow> bool"
  assumes alloc_none: "holds s L \<Longrightarrow> alloc n s = (null, s') \<Longrightarrow> holds s' L"
    and alloc_some: "holds s L \<Longrightarrow> alloc n s = (p, s') \<Longrightarrow> p \<noteq> null \<Longrightarrow>
          \<exists>m. need n \<le> m \<and> p \<notin> fst ` L \<and> holds s' (insert (p, m) L)"
    and free_ok: "holds s L \<Longrightarrow> (p, m) \<in> L \<Longrightarrow> \<exists>s'. free p s = Some s' \<and> holds s' (L - {(p, m)})"
    and apart: "holds s L \<Longrightarrow> (p, m) \<in> L \<Longrightarrow> (q, k) \<in> L \<Longrightarrow> (p, m) \<noteq> (q, k) \<Longrightarrow>
          addr p + m \<le> addr q \<or> addr q + k \<le> addr p"
begin

lemma client_runs:
  assumes "holds s L" "fst ` L = H" "inj_on fst L"
  shows "\<exists>s' H' L'. client alloc free null cs s H = Some (s', H') \<and> holds s' L' \<and> fst ` L' = H' \<and> inj_on fst L'"
  using assms
proof (induction cs arbitrary: s H L)
  case (Cons c cs)
  show ?case
  proof (cases c)
    case (Alloc n)
    obtain p s1 where a: "alloc n s = (p, s1)" by fastforce
    show ?thesis
    proof (cases "p = null")
      case True
      then have "holds s1 L" using alloc_none Cons.prems(1) a by blast
      with Cons.IH Cons.prems Alloc a True show ?thesis by simp
    next
      case False
      then obtain m where m: "p \<notin> fst ` L" "holds s1 (insert (p, m) L)"
        using alloc_some Cons.prems(1) a by blast
      have "inj_on fst (insert (p, m) L)" "fst ` insert (p, m) L = insert p H"
        using m(1) Cons.prems(2,3) by auto
      with Cons.IH [OF m(2)] Alloc a False show ?thesis by simp
    qed
  next
    case (Free p)
    show ?thesis
    proof (cases "p \<in> H")
      case True
      then obtain m where pm: "(p, m) \<in> L" using Cons.prems(2) by auto
      then obtain s1 where s1: "free p s = Some s1" "holds s1 (L - {(p, m)})"
        using free_ok Cons.prems(1) by blast
      have "fst ` (L - {(p, m)}) = H - {p}"
        using inj_on_image_set_diff [OF Cons.prems(3), of L "{(p, m)}"] Cons.prems(2) pm by simp
      moreover have "inj_on fst (L - {(p, m)})" using Cons.prems(3) by (rule inj_on_subset) auto
      ultimately show ?thesis using Cons.IH [OF s1(2)] Free True s1(1) by simp
    next
      case False
      with Cons Free show ?thesis by simp
    qed
  qed
qed auto

lemma client_disjoint:
  assumes "holds s {}"
  shows "\<exists>s' H' L'. client alloc free null cs s {} = Some (s', H') \<and> holds s' L' \<and> fst ` L' = H' \<and>
     (\<forall>(p, m) \<in> L'. \<forall>(q, k) \<in> L'. p \<noteq> q \<longrightarrow> addr p + m \<le> addr q \<or> addr q + k \<le> addr p)"
proof -
  obtain s' H' L' where r: "client alloc free null cs s {} = Some (s', H')" "holds s' L'" "fst ` L' = H'"
    using client_runs [OF assms, of "{}" cs] by auto
  then have "\<forall>(p, m) \<in> L'. \<forall>(q, k) \<in> L'. p \<noteq> q \<longrightarrow> addr p + m \<le> addr q \<or> addr q + k \<le> addr p"
    using apart [OF r(2)] by fast
  with r show ?thesis by blast
qed

end

end
