(* ===== verification/Physmem.thy ===== *)
theory Physmem
  imports Allocator
begin

text \<open>
  The physical frame allocator, \<^verbatim>\<open>kernel/mem/physmem.c\<close>: a bitmap of 4 KiB frames (a set bit
  is a frame in use), a reference count per frame and three counters. The arrays are
  functions from frame (or byte) numbers, addresses are 32-bit words and wrap as
  \<^verbatim>\<open>uint32_t\<close> does; frame numbers are below \<open>2 ^ 20\<close> and stay \<open>nat\<close>.
\<close>

section \<open>State and helpers\<close>

definition PHYSMEM_MAX_FRAMES :: nat where
  "PHYSMEM_MAX_FRAMES = 1048576"

definition PHYSMEM_FRAME_SIZE :: u32 where
  "PHYSMEM_FRAME_SIZE = 4096"

record physmem =
  frame_bitmap :: "nat \<Rightarrow> u8"
  frame_refcount :: "nat \<Rightarrow> u8"
  total_frames :: nat
  free_frames :: nat
  highest_address :: u32

definition align_down :: "u32 \<Rightarrow> u32 \<Rightarrow> u32" where
  "align_down value alignment = value AND NOT (alignment - 1)"

definition align_up :: "u32 \<Rightarrow> u32 \<Rightarrow> u32" where
  "align_up value alignment = (value + alignment - 1) AND NOT (alignment - 1)"

definition bitmap_fill :: "u8 \<Rightarrow> 'a physmem_scheme \<Rightarrow> 'a physmem_scheme" where
  "bitmap_fill v s = s\<lparr>frame_bitmap :=
     fold (\<lambda>i bm. bm(i := v)) [0..<PHYSMEM_MAX_FRAMES div 8] (frame_bitmap s)\<rparr>"

definition frame_is_marked :: "'a physmem_scheme \<Rightarrow> nat \<Rightarrow> bool" where
  "frame_is_marked s frame \<longleftrightarrow>
     frame_bitmap s (frame div 8) AND push_bit (frame mod 8) 1 \<noteq> 0"

definition mark_frame :: "nat \<Rightarrow> bool \<Rightarrow> 'a physmem_scheme \<Rightarrow> 'a physmem_scheme" where
  "mark_frame frame used s =
     (if frame \<ge> PHYSMEM_MAX_FRAMES \<or> frame \<ge> total_frames s then s
      else
        let i = frame div 8; bm = frame_bitmap s; msk = push_bit (frame mod 8) 1 in
        if used then
          (if \<not> frame_is_marked s frame
           then s\<lparr>frame_bitmap := bm(i := bm i OR msk),
                  free_frames := (if free_frames s > 0 then free_frames s - 1 else free_frames s)\<rparr>
           else s)
        else
          (if frame_is_marked s frame
           then s\<lparr>frame_bitmap := bm(i := bm i AND NOT msk), free_frames := free_frames s + 1\<rparr>
           else s))"

definition mark_range :: "u32 \<Rightarrow> u32 \<Rightarrow> bool \<Rightarrow> 'a physmem_scheme \<Rightarrow> 'a physmem_scheme" where
  "mark_range start len used s =
     (if len = 0 then s
      else
        let frame_start = unat (align_down start PHYSMEM_FRAME_SIZE) div 4096;
            frame_end = unat (align_up (start + len) PHYSMEM_FRAME_SIZE) div 4096;
            frame_end = (if frame_end > total_frames s then total_frames s else frame_end)
        in fold (\<lambda>frame. mark_frame frame used) [frame_start..<frame_end] s)"

section \<open>Initialisation from the boot loader's memory map\<close>

record mmap_entry =
  me_size :: u32
  me_addr :: u64
  me_len :: u64
  me_type :: u32

record multiboot_info =
  mbi_addr :: u32
  mbi_flags :: u32
  mem_upper :: u32
  mmap_length :: u32
  mmap_addr :: u32
  framebuffer_addr :: u64
  framebuffer_pitch :: u32
  framebuffer_height :: u32

definition region_end_32 :: "u64 \<Rightarrow> u64 \<Rightarrow> u32" where
  "region_end_32 addr len =
     (let e = addr + len; e = (if e > 0xFFFFFFFF then 0xFFFFFFFF else e) in ucast e)"

definition register_highest :: "u32 \<Rightarrow> 'a physmem_scheme \<Rightarrow> 'a physmem_scheme" where
  "register_highest e s = (if e > highest_address s then s\<lparr>highest_address := e\<rparr> else s)"

definition add_available_range :: "u32 \<Rightarrow> u32 \<Rightarrow> 'a physmem_scheme \<Rightarrow> 'a physmem_scheme" where
  "add_available_range start e s =
     (if e \<le> start then s
      else let len = e - start in mark_range start len False (register_highest e s))"

text \<open>One entry of the map, and the walk over the entries; the walk is a loop on a wrapping
  32-bit cursor, so it may not return.\<close>

definition mmap_entry_step :: "mmap_entry \<Rightarrow> 'a physmem_scheme \<Rightarrow> 'a physmem_scheme" where
  "mmap_entry_step e s =
     (if me_type e = 1 \<and> me_len e \<noteq> 0 \<and> me_addr e < 0x100000000
      then add_available_range (ucast (me_addr e)) (region_end_32 (me_addr e) (me_len e)) s
      else s)"

partial_function (option) mmap_walk ::
  "(u32 \<Rightarrow> mmap_entry) \<Rightarrow> u32 \<Rightarrow> u32 \<Rightarrow> 'a physmem_scheme \<Rightarrow> 'a physmem_scheme option" where
  "mmap_walk entry_at cursor e s =
     (if cursor < e
      then mmap_walk entry_at (cursor + (me_size (entry_at cursor) + 4)) e
             (mmap_entry_step (entry_at cursor) s)
      else Some s)"

definition has_mmap :: "multiboot_info \<Rightarrow> bool" where
  "has_mmap mbi \<longleftrightarrow> mbi_flags mbi AND push_bit 6 1 \<noteq> 0 \<and> mmap_length mbi \<noteq> 0 \<and> mmap_addr mbi \<noteq> 0"

definition init_from_multiboot_map ::
  "(u32 \<Rightarrow> mmap_entry) \<Rightarrow> multiboot_info \<Rightarrow> 'a physmem_scheme \<Rightarrow> 'a physmem_scheme option" where
  "init_from_multiboot_map entry_at mbi s =
     (if has_mmap mbi
      then mmap_walk entry_at (mmap_addr mbi) (mmap_addr mbi + mmap_length mbi) s
      else Some (add_available_range 0x100000 (0x100000 + mem_upper mbi * 1024) s))"

text \<open>The part of \<^verbatim>\<open>physmem_init\<close> before and after the map is read.\<close>

definition physmem_reset :: "'a physmem_scheme \<Rightarrow> 'a physmem_scheme" where
  "physmem_reset s =
     (bitmap_fill 0xFF s)\<lparr>
       frame_refcount := fold (\<lambda>i rc. rc(i := 0)) [0..<PHYSMEM_MAX_FRAMES] (frame_refcount s),
       total_frames := PHYSMEM_MAX_FRAMES, free_frames := 0, highest_address := 0\<rparr>"

definition physmem_fix_total :: "'a physmem_scheme \<Rightarrow> 'a physmem_scheme" where
  "physmem_fix_total s0 =
     (let s1 = (if highest_address s0 = 0
                then add_available_range 0x100000 0x1000000 (s0\<lparr>highest_address := 0x1000000\<rparr>)
                else s0);
          n = unat (align_up (highest_address s1) PHYSMEM_FRAME_SIZE) div 4096
      in if n > PHYSMEM_MAX_FRAMES
         then s1\<lparr>total_frames := PHYSMEM_MAX_FRAMES,
                 highest_address := of_nat (PHYSMEM_MAX_FRAMES * 4096)\<rparr>
         else s1\<lparr>total_frames := n\<rparr>)"

definition physmem_reserve_boot ::
  "u32 \<Rightarrow> u32 \<Rightarrow> multiboot_info option \<Rightarrow> 'a physmem_scheme \<Rightarrow> 'a physmem_scheme" where
  "physmem_reserve_boot kernel_start kernel_end mbi s0 =
     (let s1 = mark_range 0 0x100000 True s0;
          s2 = mark_range kernel_start (kernel_end - kernel_start) True s1
      in case mbi of
           None \<Rightarrow> s2
         | Some m \<Rightarrow>
             (let s3 = mark_range (mbi_addr m) 120 True s2;
                  s4 = (if has_mmap m then mark_range (mmap_addr m) (mmap_length m) True s3 else s3)
              in if mbi_flags m AND push_bit 12 1 \<noteq> 0 \<and> framebuffer_addr m \<noteq> 0 \<and>
                    framebuffer_pitch m \<noteq> 0 \<and> framebuffer_height m \<noteq> 0
                 then (let fb_start = ucast (framebuffer_addr m);
                           fb_bytes = framebuffer_pitch m * framebuffer_height m
                       in register_highest (fb_start + fb_bytes)
                            (mark_range fb_start fb_bytes True s4))
                 else s4))"

definition physmem_init ::
  "u32 \<Rightarrow> u32 \<Rightarrow> (u32 \<Rightarrow> mmap_entry) \<Rightarrow> multiboot_info option \<Rightarrow> 'a physmem_scheme \<Rightarrow>
   'a physmem_scheme option" where
  "physmem_init kernel_start kernel_end entry_at mbi s =
     map_option (physmem_reserve_boot kernel_start kernel_end mbi \<circ> physmem_fix_total)
       (case mbi of None \<Rightarrow> Some (physmem_reset s)
        | Some m \<Rightarrow> init_from_multiboot_map entry_at m (physmem_reset s))"

section \<open>Allocation and reference counting\<close>

definition physmem_alloc_frame :: "'a physmem_scheme \<Rightarrow> u32 \<times> 'a physmem_scheme" where
  "physmem_alloc_frame s =
     (case find (\<lambda>frame. \<not> frame_is_marked s frame) [0..<total_frames s] of
        None \<Rightarrow> (0, s)
      | Some frame \<Rightarrow>
          (let s1 = mark_frame frame True s
           in (of_nat (frame * 4096),
               s1\<lparr>frame_refcount := (frame_refcount s1)(frame := 1)\<rparr>)))"

definition physmem_free_frame :: "u32 \<Rightarrow> 'a physmem_scheme \<Rightarrow> 'a physmem_scheme" where
  "physmem_free_frame a s =
     (let frame = unat a div 4096 in
      if a = 0 \<or> unat a mod 4096 \<noteq> 0 then s
      else if frame < 0x100000 div 4096 then s
      else mark_frame frame False (s\<lparr>frame_refcount := (frame_refcount s)(frame := 0)\<rparr>))"

text \<open>The search loop of \<^verbatim>\<open>physmem_alloc_region\<close>. When the run is blocked by a frame in use,
  the loop variable jumps to that frame, and the loop's own increment moves past it.\<close>

function region_search :: "'a physmem_scheme \<Rightarrow> nat \<Rightarrow> u32 \<Rightarrow> nat \<Rightarrow> nat option" where
  "region_search s frame_count alignment start_frame =
     (if start_frame + frame_count \<le> total_frames s then
        (let start = (of_nat (start_frame * 4096) :: u32) in
         if align_up start alignment \<noteq> start
         then region_search s frame_count alignment (Suc start_frame)
         else if start < 0x100000
         then region_search s frame_count alignment (Suc start_frame)
         else case find (frame_is_marked s) [start_frame..<start_frame + frame_count] of
                Some frame \<Rightarrow> region_search s frame_count alignment (Suc frame)
              | None \<Rightarrow> Some start_frame)
      else None)"
  by pat_completeness auto

lemma find_upt_SomeD: "find P [a..<b] = Some x \<Longrightarrow> a \<le> x \<and> x < b \<and> P x"
  by (auto simp: find_Some_iff nth_append)

lemma find_upt_NoneD: "find P [a..<b] = None \<Longrightarrow> a \<le> x \<Longrightarrow> x < b \<Longrightarrow> \<not> P x"
  by (auto simp: find_None_iff)

termination region_search
  by (relation "measure (\<lambda>(s, frame_count, alignment, sf). Suc (total_frames s) - sf)")
     (auto dest: find_upt_SomeD)

declare region_search.simps [simp del]

definition physmem_alloc_region ::
  "u32 \<Rightarrow> u32 \<Rightarrow> 'a physmem_scheme \<Rightarrow> u32 \<times> 'a physmem_scheme" where
  "physmem_alloc_region sz alignment s =
     (if sz = 0 then (0, s)
      else
        let alignment = (if alignment < PHYSMEM_FRAME_SIZE then PHYSMEM_FRAME_SIZE else alignment);
            aligned_size = align_up sz PHYSMEM_FRAME_SIZE;
            frame_count = unat aligned_size div 4096
        in case region_search s frame_count alignment 0 of
             None \<Rightarrow> (0, s)
           | Some start_frame \<Rightarrow>
               (let start = of_nat (start_frame * 4096);
                    s1 = mark_range start aligned_size True s
                in (start,
                    s1\<lparr>frame_refcount := fold (\<lambda>frame rc. rc(frame := 1))
                         [start_frame..<start_frame + frame_count] (frame_refcount s1)\<rparr>)))"

definition physmem_ref_frame :: "u32 \<Rightarrow> 'a physmem_scheme \<Rightarrow> 'a physmem_scheme" where
  "physmem_ref_frame a s =
     (let frame = unat a div 4096 in
      if a = 0 \<or> unat a mod 4096 \<noteq> 0 then s
      else if frame \<ge> total_frames s then s
      else if frame_refcount s frame < 255
      then s\<lparr>frame_refcount := (frame_refcount s)(frame := frame_refcount s frame + 1)\<rparr>
      else s)"

definition physmem_unref_frame :: "u32 \<Rightarrow> 'a physmem_scheme \<Rightarrow> 'a physmem_scheme" where
  "physmem_unref_frame a s =
     (let frame = unat a div 4096 in
      if a = 0 \<or> unat a mod 4096 \<noteq> 0 then s
      else if frame \<ge> total_frames s \<or> frame < 0x100000 div 4096 then s
      else if frame_refcount s frame = 0 then s
      else
        let s1 = s\<lparr>frame_refcount := (frame_refcount s)(frame := frame_refcount s frame - 1)\<rparr>
        in if frame_refcount s1 frame = 0 then mark_frame frame False s1 else s1)"

definition physmem_free_region :: "u32 \<Rightarrow> u32 \<Rightarrow> 'a physmem_scheme \<Rightarrow> 'a physmem_scheme" where
  "physmem_free_region start len s =
     (if len = 0 then s
      else
        let frame_start = unat (align_down start PHYSMEM_FRAME_SIZE) div 4096;
            frame_end = unat (align_up (start + len) PHYSMEM_FRAME_SIZE) div 4096;
            frame_end = (if frame_end > total_frames s then total_frames s else frame_end)
        in fold (\<lambda>frame. physmem_unref_frame (of_nat (frame * 4096))) [frame_start..<frame_end] s)"

definition physmem_reserve_region :: "u32 \<Rightarrow> u32 \<Rightarrow> 'a physmem_scheme \<Rightarrow> 'a physmem_scheme" where
  "physmem_reserve_region start len s = mark_range start len True s"

definition physmem_frame_refcount :: "u32 \<Rightarrow> 'a physmem_scheme \<Rightarrow> u32" where
  "physmem_frame_refcount a s =
     (let frame = unat a div 4096 in
      if a = 0 \<or> unat a mod 4096 \<noteq> 0 then 0
      else if frame \<ge> total_frames s then 0
      else ucast (frame_refcount s frame))"

definition physmem_total_bytes :: "'a physmem_scheme \<Rightarrow> u32" where
  "physmem_total_bytes s = of_nat (total_frames s) * PHYSMEM_FRAME_SIZE"

definition physmem_free_bytes :: "'a physmem_scheme \<Rightarrow> u32" where
  "physmem_free_bytes s = of_nat (free_frames s) * PHYSMEM_FRAME_SIZE"

definition physmem_used_bytes :: "'a physmem_scheme \<Rightarrow> u32" where
  "physmem_used_bytes s = physmem_total_bytes s - physmem_free_bytes s"

definition physmem_frame_count :: "'a physmem_scheme \<Rightarrow> u32" where
  "physmem_frame_count s = of_nat (total_frames s)"

definition physmem_highest_address :: "'a physmem_scheme \<Rightarrow> u32" where
  "physmem_highest_address s = highest_address s"


section \<open>The bitmap as a set of frames\<close>

lemma frame_is_marked_bit:
  "frame_is_marked s f \<longleftrightarrow> bit (frame_bitmap s (f div 8)) (f mod 8)"
  by (simp add: frame_is_marked_def bit_iff_and_push_bit_not_eq_0)

lemma mark_frame_fields [frame_simps, simp]:
  "total_frames (mark_frame f u s) = total_frames s"
  "highest_address (mark_frame f u s) = highest_address s"
  "frame_refcount (mark_frame f u s) = frame_refcount s"
  "physmem.more (mark_frame f u s) = physmem.more s"
  by (simp_all add: mark_frame_def Let_def)

lemma div_mod_8_eq_iff: "f div 8 = g div 8 \<and> f mod 8 = g mod 8 \<longleftrightarrow> f = (g::nat)"
  by (metis div_mult_mod_eq)

lemma frame_is_marked_mark_frame [simp]:
  "frame_is_marked (mark_frame f u s) g =
     (if g = f \<and> f < PHYSMEM_MAX_FRAMES \<and> f < total_frames s then u else frame_is_marked s g)"
proof -
  have lt: "f mod 8 < 8" "g mod 8 < 8" by simp_all
  consider (eq) "g = f" | (other) "g div 8 \<noteq> f div 8" | (byte) "g div 8 = f div 8" "g mod 8 \<noteq> f mod 8"
    using div_mod_8_eq_iff [of g f] by blast
  then show ?thesis
  proof cases
    case eq
    then show ?thesis
      using lt by (auto simp: mark_frame_def Let_def frame_is_marked_bit bit_simps)
  next
    case other
    then show ?thesis
      by (auto simp: mark_frame_def Let_def frame_is_marked_bit)
  next
    case byte
    then have "g \<noteq> f" by auto
    with byte lt show ?thesis
      by (auto simp: mark_frame_def Let_def frame_is_marked_bit bit_simps)
  qed
qed

definition free_set :: "'a physmem_scheme \<Rightarrow> nat set" where
  "free_set s = {f. f < total_frames s \<and> \<not> frame_is_marked s f}"

lemma finite_free_set [simp]: "finite (free_set s)"
  by (simp add: free_set_def)

lemma free_set_mark_frame:
  assumes "total_frames s \<le> PHYSMEM_MAX_FRAMES"
  shows "free_set (mark_frame f u s) =
    (if f < total_frames s then (if u then free_set s - {f} else insert f (free_set s)) else free_set s)"
  using assms by (auto simp: free_set_def)

lemma mem_free_set: "f \<in> free_set s \<longleftrightarrow> f < total_frames s \<and> \<not> frame_is_marked s f"
  by (simp add: free_set_def)

definition count_ok :: "'a physmem_scheme \<Rightarrow> bool" where
  "count_ok s \<longleftrightarrow> total_frames s \<le> PHYSMEM_MAX_FRAMES \<and> free_frames s = card (free_set s)"

lemma free_frames_mark_frame:
  "free_frames (mark_frame f u s) =
    (if f < PHYSMEM_MAX_FRAMES \<and> f < total_frames s then
       (if u then (if frame_is_marked s f then free_frames s else free_frames s - 1)
        else (if frame_is_marked s f then free_frames s + 1 else free_frames s))
     else free_frames s)"
  by (simp add: mark_frame_def Let_def)

lemma count_ok_mark_frame: "count_ok s \<Longrightarrow> count_ok (mark_frame f u s)"
  by (auto simp: count_ok_def free_set_mark_frame free_frames_mark_frame mem_free_set
      card_Diff_singleton_if card_insert_if)

lemma fold_mark_frame_fields [frame_simps, simp]:
  "total_frames (fold (\<lambda>f. mark_frame f u) fs s) = total_frames s"
  "highest_address (fold (\<lambda>f. mark_frame f u) fs s) = highest_address s"
  "frame_refcount (fold (\<lambda>f. mark_frame f u) fs s) = frame_refcount s"
  "physmem.more (fold (\<lambda>f. mark_frame f u) fs s) = physmem.more s"
  by (induction fs arbitrary: s) simp_all

lemma count_ok_fold_mark_frame: "count_ok s \<Longrightarrow> count_ok (fold (\<lambda>f. mark_frame f u) fs s)"
  by (induction fs arbitrary: s) (simp_all add: count_ok_mark_frame)

lemma frame_is_marked_fold_mark_frame:
  "frame_is_marked (fold (\<lambda>f. mark_frame f u) fs s) g =
     (if g \<in> set fs \<and> g < PHYSMEM_MAX_FRAMES \<and> g < total_frames s then u
      else frame_is_marked s g)"
  by (induction fs arbitrary: s) auto

lemma mark_range_fields [frame_simps, simp]:
  "total_frames (mark_range a n u s) = total_frames s"
  "highest_address (mark_range a n u s) = highest_address s"
  "frame_refcount (mark_range a n u s) = frame_refcount s"
  "physmem.more (mark_range a n u s) = physmem.more s"
  by (simp_all add: mark_range_def Let_def)

lemma count_ok_mark_range: "count_ok s \<Longrightarrow> count_ok (mark_range a n u s)"
  by (simp add: mark_range_def Let_def count_ok_fold_mark_frame)

text \<open>The frames a byte range touches, with the rounding and the wrap-around of the code.\<close>

definition range_frames :: "u32 \<Rightarrow> u32 \<Rightarrow> nat set" where
  "range_frames a n =
     (if n = 0 then {}
      else {unat (align_down a PHYSMEM_FRAME_SIZE) div 4096
            ..< unat (align_up (a + n) PHYSMEM_FRAME_SIZE) div 4096})"

lemma frame_is_marked_mark_range:
  "total_frames s \<le> PHYSMEM_MAX_FRAMES \<Longrightarrow>
   frame_is_marked (mark_range a n u s) g =
     (if g \<in> range_frames a n \<and> g < total_frames s then u else frame_is_marked s g)"
  by (auto simp: mark_range_def range_frames_def Let_def frame_is_marked_fold_mark_frame)


section \<open>Rounding to frames\<close>

lemma unat_align_down [simp]:
  "unat (align_down a PHYSMEM_FRAME_SIZE) = unat a div 4096 * 4096"
  using unat_and_not_mask [of 12 a] by (simp add: align_down_def PHYSMEM_FRAME_SIZE_def)

lemma unat_align_up:
  "unat (align_up a PHYSMEM_FRAME_SIZE) = (unat a + 4095) mod 2 ^ 32 div 4096 * 4096"
proof -
  have "unat (a + 4095) = (unat a + 4095) mod 2 ^ 32"
    by (simp add: unat_word_ariths)
  with unat_and_not_mask [of 12 "a + 4095"] show ?thesis
    by (simp add: align_up_def PHYSMEM_FRAME_SIZE_def add.commute)
qed

lemma unat_align_up_small:
  "unat a \<le> 0xFFFFF000 \<Longrightarrow> unat (align_up a PHYSMEM_FRAME_SIZE) = (unat a + 4095) div 4096 * 4096"
  by (simp add: unat_align_up)

lemma align_up_4096_lt: "unat (align_up a PHYSMEM_FRAME_SIZE) div 4096 < PHYSMEM_MAX_FRAMES"
proof -
  have "(unat a + 4095) mod 2 ^ 32 < 2 ^ 32" by (rule mod_less_divisor) simp
  then show ?thesis by (simp add: unat_align_up PHYSMEM_MAX_FRAMES_def)
qed

lemma unat_frame_addr: "f < PHYSMEM_MAX_FRAMES \<Longrightarrow> unat (of_nat (f * 4096) :: u32) = f * 4096"
  by (simp only: unat_of_nat PHYSMEM_MAX_FRAMES_def) simp

lemma frame_addr_eq_0: "f < PHYSMEM_MAX_FRAMES \<Longrightarrow> (of_nat (f * 4096) :: u32) = 0 \<longleftrightarrow> f = 0"
  using unat_frame_addr [of f] by (auto simp: unat_eq_0)

lemma range_frames_region:
  assumes n: "unat n = k * 4096" "0 < k" and fk: "f + k < PHYSMEM_MAX_FRAMES"
  shows "range_frames (of_nat (f * 4096)) n = {f..<f + k}"
proof -
  define a where "a = (of_nat (f * 4096) :: u32)"
  have a: "unat a = f * 4096"
    unfolding a_def using fk by (intro unat_frame_addr) simp
  have lt: "f * 4096 + k * 4096 < 2 ^ 32"
    using fk by (simp add: PHYSMEM_MAX_FRAMES_def)
  have an: "unat (a + n) = (f + k) * 4096"
    unfolding unat_word_ariths(1) a n(1) using lt by simp
  then have "unat (a + n) \<le> 0xFFFFF000"
    using fk by (simp add: PHYSMEM_MAX_FRAMES_def)
  then have "unat (align_up (a + n) PHYSMEM_FRAME_SIZE) div 4096 = f + k"
    by (simp only: unat_align_up_small an) simp
  moreover have "n \<noteq> 0" using n by auto
  ultimately show ?thesis
    unfolding a_def [symmetric] by (simp add: range_frames_def a)
qed

section \<open>The region search is the naive first fit\<close>

definition region_fits :: "'a physmem_scheme \<Rightarrow> nat \<Rightarrow> u32 \<Rightarrow> nat \<Rightarrow> bool" where
  "region_fits s frame_count alignment sf \<longleftrightarrow>
     sf + frame_count \<le> total_frames s \<and>
     align_up (of_nat (sf * 4096)) alignment = of_nat (sf * 4096) \<and>
     \<not> (of_nat (sf * 4096) :: u32) < 0x100000 \<and>
     (\<forall>f \<in> {sf..<sf + frame_count}. \<not> frame_is_marked s f)"

lemma find_upt_skip:
  "a \<le> b \<Longrightarrow> (\<And>x. a \<le> x \<Longrightarrow> x < b \<Longrightarrow> \<not> P x) \<Longrightarrow> find P [a..<c] = find P [b..<c]"
proof (induction "b - a" arbitrary: a)
  case (Suc d)
  then have step: "find P [Suc a..<c] = find P [b..<c]" and "a < b" "\<not> P a"
    by auto
  then show ?case
    by (cases "a < c") (simp_all add: upt_conv_Cons)
qed simp

lemma region_search_first_fit:
  "region_search s n al sf = find (region_fits s n al) [sf..<Suc (total_frames s)]"
proof (induction s n al sf rule: region_search.induct)
  case (1 s n al sf)
  let ?start = "of_nat (sf * 4096) :: u32"
  show ?case
  proof (cases "sf + n \<le> total_frames s")
    case False
    then have "find (region_fits s n al) [sf..<Suc (total_frames s)] = None"
      by (auto simp: find_None_iff region_fits_def)
    with False show ?thesis by (simp add: region_search.simps)
  next
    case inside: True
    then have unfold: "find (region_fits s n al) [sf..<Suc (total_frames s)] =
        (if region_fits s n al sf then Some sf
         else find (region_fits s n al) [Suc sf..<Suc (total_frames s)])"
      by (simp add: upt_conv_Cons del: upt_Suc)
    show ?thesis
    proof (cases "align_up ?start al \<noteq> ?start \<or> ?start < 0x100000")
      case True
      then have "region_search s n al sf = region_search s n al (Suc sf)"
        unfolding region_search.simps [of s n al sf] Let_def using inside by argo
      also have "\<dots> = find (region_fits s n al) [Suc sf..<Suc (total_frames s)]"
        using True "1.IH"(1) [OF inside refl] "1.IH"(2) [OF inside refl] by blast
      also have "\<dots> = find (region_fits s n al) [sf..<Suc (total_frames s)]"
        unfolding unfold region_fits_def using True by argo
      finally show ?thesis .
    next
      case False
      show ?thesis
      proof (cases "find (frame_is_marked s) [sf..<sf + n]")
        case None
        then have "\<forall>f \<in> {sf..<sf + n}. \<not> frame_is_marked s f"
          by (auto dest: find_upt_NoneD)
        with False inside have "region_fits s n al sf"
          unfolding region_fits_def by blast
        moreover have "region_search s n al sf = Some sf"
          unfolding region_search.simps [of s n al sf] Let_def None using False inside by auto
        ultimately show ?thesis using unfold by presburger
      next
        case (Some f)
        then have f: "sf \<le> f" "f < sf + n" "frame_is_marked s f"
          using find_upt_SomeD by auto
        then have skip: "\<not> region_fits s n al x" if "sf \<le> x" "x < Suc f" for x
        proof -
          from that f have "f \<in> {x..<x + n}" by simp
          with f(3) show ?thesis unfolding region_fits_def by blast
        qed
        have "region_search s n al sf = region_search s n al (Suc f)"
          unfolding region_search.simps [of s n al sf] Let_def Some using False inside by auto
        also have "\<dots> = find (region_fits s n al) [Suc f..<Suc (total_frames s)]"
          using "1.IH"(3) [OF inside refl _ _ Some] False by blast
        also have "\<dots> = find (region_fits s n al) [sf..<Suc (total_frames s)]"
          by (rule find_upt_skip [symmetric]) (use f skip in auto)
        finally show ?thesis .
      qed
    qed
  qed
qed

lemma region_search_SomeD:
  "region_search s n al 0 = Some sf \<Longrightarrow> region_fits s n al sf \<and> (\<forall>x < sf. \<not> region_fits s n al x)"
  unfolding region_search_first_fit by (auto simp: find_Some_iff nth_append split: if_splits)

lemma region_search_None_iff: "region_search s n al 0 = None \<longleftrightarrow> (\<forall>x. \<not> region_fits s n al x)"
  unfolding region_search_first_fit by (auto simp: find_None_iff region_fits_def)


section \<open>The allocator's invariant\<close>

text \<open>
  The counter of free frames is the number of clear bits, the first megabyte stays in use
  and a frame with references is in use.
\<close>

definition physmem_inv :: "'a physmem_scheme \<Rightarrow> bool" where
  "physmem_inv s \<longleftrightarrow>
     total_frames s < PHYSMEM_MAX_FRAMES \<and>
     free_frames s = card (free_set s) \<and>
     (\<forall>f < 256. f < total_frames s \<longrightarrow> frame_is_marked s f) \<and>
     (\<forall>f < total_frames s. frame_refcount s f \<noteq> 0 \<longrightarrow> frame_is_marked s f)"

lemma physmem_inv_count_ok: "physmem_inv s \<Longrightarrow> count_ok s"
  by (simp add: physmem_inv_def count_ok_def)

lemma free_frame_ge_256: "physmem_inv s \<Longrightarrow> f < total_frames s \<Longrightarrow> \<not> frame_is_marked s f \<Longrightarrow> 256 \<le> f"
  by (auto simp: physmem_inv_def not_le)

text \<open>A write of the reference counts does not touch the bitmap.\<close>

lemma refcount_update_fields [frame_simps, simp]:
  "frame_is_marked (s\<lparr>frame_refcount := r\<rparr>) f = frame_is_marked s f"
  "free_set (s\<lparr>frame_refcount := r\<rparr>) = free_set s"
  "count_ok (s\<lparr>frame_refcount := r\<rparr>) = count_ok s"
  "mark_frame f u (s\<lparr>frame_refcount := r\<rparr>) = (mark_frame f u s)\<lparr>frame_refcount := r\<rparr>"
  by (simp_all add: frame_is_marked_def free_set_def count_ok_def mark_frame_def Let_def)

lemma physmem_invI:
  assumes "count_ok s" "total_frames s < PHYSMEM_MAX_FRAMES"
    and "\<And>f. f < 256 \<Longrightarrow> f < total_frames s \<Longrightarrow> frame_is_marked s f"
    and "\<And>f. f < total_frames s \<Longrightarrow> frame_refcount s f \<noteq> 0 \<Longrightarrow> frame_is_marked s f"
  shows "physmem_inv s"
  using assms by (simp add: physmem_inv_def count_ok_def)

lemma physmem_inv_mark_used:
  assumes "physmem_inv s"
  shows "physmem_inv (mark_frame f True s)"
proof (rule physmem_invI)
  show "count_ok (mark_frame f True s)"
    using assms by (simp add: count_ok_mark_frame physmem_inv_count_ok)
qed (use assms in \<open>auto simp: physmem_inv_def\<close>)

lemma physmem_inv_mark_range_used:
  assumes "physmem_inv s"
  shows "physmem_inv (mark_range a n True s)"
proof (rule physmem_invI)
  show "count_ok (mark_range a n True s)"
    using assms by (simp add: count_ok_mark_range physmem_inv_count_ok)
qed (use assms in \<open>auto simp: physmem_inv_def frame_is_marked_mark_range\<close>)

lemma physmem_inv_release:
  assumes "physmem_inv s" "256 \<le> f"
  shows "physmem_inv (mark_frame f False (s\<lparr>frame_refcount := (frame_refcount s)(f := 0)\<rparr>))"
proof (rule physmem_invI)
  show "count_ok (mark_frame f False (s\<lparr>frame_refcount := (frame_refcount s)(f := 0)\<rparr>))"
    using assms by (simp add: count_ok_mark_frame physmem_inv_count_ok)
qed (use assms in \<open>auto simp: physmem_inv_def split: if_splits\<close>)

lemma physmem_inv_refcount_marked:
  assumes "physmem_inv s" "frame_is_marked s f"
  shows "physmem_inv (s\<lparr>frame_refcount := (frame_refcount s)(f := v)\<rparr>)"
  using assms by (auto simp: physmem_inv_def)

section \<open>Allocating one frame\<close>

lemma alloc_frame_cases:
  assumes inv: "physmem_inv s" and alloc: "physmem_alloc_frame s = (a, s')"
  obtains
    (full) "free_set s = {}" "a = 0" "s' = s"
  | (frame) f where "f \<in> free_set s" "\<forall>g \<in> free_set s. f \<le> g" "256 \<le> f"
      "a = of_nat (f * 4096)"
      "s' = (mark_frame f True s)\<lparr>frame_refcount := (frame_refcount s)(f := 1)\<rparr>"
proof (cases "find (\<lambda>frame. \<not> frame_is_marked s frame) [0..<total_frames s]")
  case None
  then have "free_set s = {}" by (auto simp: find_None_iff free_set_def)
  moreover from None alloc have "a = 0" "s' = s" by (simp_all add: physmem_alloc_frame_def)
  ultimately show thesis by (rule full)
next
  case (Some f)
  then have f: "f < total_frames s" "\<not> frame_is_marked s f"
    using find_upt_SomeD [of _ 0 "total_frames s" f] by auto
  from Some have "frame_is_marked s g" if "g < f" for g
    using that by (auto simp: find_Some_iff)
  then have "\<forall>g \<in> free_set s. f \<le> g"
    by (meson mem_free_set not_le)
  moreover have "a = of_nat (f * 4096)"
    "s' = (mark_frame f True s)\<lparr>frame_refcount := (frame_refcount s)(f := 1)\<rparr>"
    using Some alloc by (auto simp: physmem_alloc_frame_def Let_def)
  ultimately show thesis
    using f frame [of f] free_frame_ge_256 [OF inv f] by (auto simp: mem_free_set)
qed

lemma physmem_inv_alloc_frame:
  assumes "physmem_inv s" "physmem_alloc_frame s = (a, s')"
  shows "physmem_inv s'"
  using assms
proof (cases rule: alloc_frame_cases)
  case (frame f)
  from assms(1) have "physmem_inv (mark_frame f True s)" by (rule physmem_inv_mark_used)
  moreover have "frame_is_marked (mark_frame f True s) f"
    using frame(1) assms(1) by (auto simp: mem_free_set physmem_inv_def)
  ultimately have "physmem_inv ((mark_frame f True s)\<lparr>frame_refcount :=
      (frame_refcount (mark_frame f True s))(f := 1)\<rparr>)"
    by (rule physmem_inv_refcount_marked)
  with frame show ?thesis by simp
qed (use assms in simp)


section \<open>Freeing, referencing and unreferencing\<close>

lemma physmem_inv_free_frame: "physmem_inv s \<Longrightarrow> physmem_inv (physmem_free_frame a s)"
  by (simp add: physmem_free_frame_def Let_def physmem_inv_release [simplified] not_less)

lemma physmem_inv_ref_frame:
  "physmem_inv s \<Longrightarrow> frame_is_marked s (unat a div 4096) \<Longrightarrow> physmem_inv (physmem_ref_frame a s)"
  by (simp add: physmem_ref_frame_def Let_def physmem_inv_refcount_marked)

lemma physmem_unref_frame_cases:
  fixes a s
  defines "f \<equiv> unat a div 4096"
  shows "physmem_unref_frame a s = s \<or>
    (256 \<le> f \<and> f < total_frames s \<and> frame_refcount s f \<noteq> 0 \<and> frame_refcount s f \<noteq> 1 \<and>
     physmem_unref_frame a s = s\<lparr>frame_refcount := (frame_refcount s)(f := frame_refcount s f - 1)\<rparr>) \<or>
    (256 \<le> f \<and> f < total_frames s \<and> frame_refcount s f = 1 \<and>
     physmem_unref_frame a s = mark_frame f False (s\<lparr>frame_refcount := (frame_refcount s)(f := 0)\<rparr>))"
  unfolding f_def physmem_unref_frame_def Let_def by auto

lemma physmem_inv_unref_frame:
  assumes "physmem_inv s"
  shows "physmem_inv (physmem_unref_frame a s)"
  using physmem_unref_frame_cases [of a s]
proof (elim disjE conjE)
  assume "frame_refcount s (unat a div 4096) \<noteq> 0" "unat a div 4096 < total_frames s"
    and eq: "physmem_unref_frame a s = s\<lparr>frame_refcount := (frame_refcount s)
               (unat a div 4096 := frame_refcount s (unat a div 4096) - 1)\<rparr>"
  then have "frame_is_marked s (unat a div 4096)"
    using assms by (simp add: physmem_inv_def)
  with assms show ?thesis unfolding eq by (rule physmem_inv_refcount_marked)
next
  assume "256 \<le> unat a div 4096"
    and eq: "physmem_unref_frame a s = mark_frame (unat a div 4096) False
               (s\<lparr>frame_refcount := (frame_refcount s)(unat a div 4096 := 0)\<rparr>)"
  then show ?thesis unfolding eq using assms by (intro physmem_inv_release)
qed (use assms in simp)

lemma physmem_inv_free_region: "physmem_inv s \<Longrightarrow> physmem_inv (physmem_free_region a n s)"
proof -
  have "physmem_inv s \<Longrightarrow> physmem_inv (fold (\<lambda>f. physmem_unref_frame (of_nat (f * 4096))) fs s)" for fs
    by (induction fs arbitrary: s) (simp_all add: physmem_inv_unref_frame)
  then show "physmem_inv s \<Longrightarrow> ?thesis"
    by (simp add: physmem_free_region_def Let_def)
qed

section \<open>Allocating a region\<close>

lemma fold_upd_const: "fold (\<lambda>f rc. rc(f := v)) fs rc = (\<lambda>g. if g \<in> set fs then v else rc g)"
  by (induction fs arbitrary: rc) auto

lemma aligned_size_frames:
  "unat sz \<le> 0xFFFFF000 \<Longrightarrow>
   unat (align_up sz PHYSMEM_FRAME_SIZE) = (unat sz + 4095) div 4096 * 4096"
  by (rule unat_align_up_small)

lemma align_up_wraps: "0xFFFFF000 < unat sz \<Longrightarrow> align_up sz PHYSMEM_FRAME_SIZE = 0"
proof -
  assume "0xFFFFF000 < unat sz"
  moreover have "unat sz < 2 ^ 32" using unsigned_less [of sz] by simp
  ultimately have "unat (align_up sz PHYSMEM_FRAME_SIZE) = 0"
    by (simp add: unat_align_up mod_if)
  then show ?thesis by (simp add: unat_eq_0)
qed

lemma alloc_region_cases:
  fixes sz al :: u32
  defines "k \<equiv> (unat sz + 4095) div 4096"
    and "al' \<equiv> (if al < PHYSMEM_FRAME_SIZE then PHYSMEM_FRAME_SIZE else al)"
  assumes inv: "physmem_inv s" and sz: "sz \<noteq> 0" "unat sz \<le> 0xFFFFF000"
    and alloc: "physmem_alloc_region sz al s = (a, s')"
  obtains
    (none) "\<forall>x. \<not> region_fits s k al' x" "a = 0" "s' = s"
  | (region) sf where "region_fits s k al' sf" "\<forall>x < sf. \<not> region_fits s k al' x"
      "a = of_nat (sf * 4096)" "sf + k < PHYSMEM_MAX_FRAMES" "256 \<le> sf"
      "range_frames a (align_up sz PHYSMEM_FRAME_SIZE) = {sf..<sf + k}"
      "s' = (mark_range a (align_up sz PHYSMEM_FRAME_SIZE) True s)\<lparr>frame_refcount :=
              (\<lambda>g. if sf \<le> g \<and> g < sf + k then 1 else frame_refcount s g)\<rparr>"
proof -
  have n: "unat (align_up sz PHYSMEM_FRAME_SIZE) = k * 4096" unfolding k_def
    using sz(2) by (rule aligned_size_frames)
  then have fc: "unat (align_up sz PHYSMEM_FRAME_SIZE) div 4096 = k" by simp
  have "0 < unat sz" using sz(1) by (simp add: unat_gt_0)
  then have "0 < k" by (simp add: k_def)
  show thesis
  proof (cases "region_search s k al' 0")
    case None
    with alloc sz(1) have "a = 0" "s' = s"
      by (simp_all add: physmem_alloc_region_def Let_def fc al'_def)
    with None show thesis by (intro none) (simp_all add: region_search_None_iff)
  next
    case (Some sf)
    then have fits: "region_fits s k al' sf" "\<forall>x < sf. \<not> region_fits s k al' x"
      using region_search_SomeD by blast+
    then have lt: "sf + k < PHYSMEM_MAX_FRAMES"
      using inv by (simp add: region_fits_def physmem_inv_def)
    have a: "a = of_nat (sf * 4096)"
      and s': "s' = (mark_range (of_nat (sf * 4096)) (align_up sz PHYSMEM_FRAME_SIZE) True s)
                  \<lparr>frame_refcount := (\<lambda>g. if sf \<le> g \<and> g < sf + k then 1 else frame_refcount s g)\<rparr>"
      using alloc sz(1) Some by (auto simp: physmem_alloc_region_def Let_def fc al'_def fold_upd_const cong: if_cong)
    have "unat (of_nat (sf * 4096) :: u32) = sf * 4096"
      using lt by (intro unat_frame_addr) simp
    moreover have "0x100000 \<le> unat (of_nat (sf * 4096) :: u32)"
      using fits(1) unfolding region_fits_def by (simp only: word_less_nat_alt not_less) simp
    ultimately have "256 \<le> sf" by linarith
    moreover have "range_frames (of_nat (sf * 4096)) (align_up sz PHYSMEM_FRAME_SIZE) = {sf..<sf + k}"
      using n \<open>0 < k\<close> lt by (rule range_frames_region)
    ultimately show thesis using region [OF fits a lt] s' a by simp
  qed
qed

lemma physmem_inv_alloc_region:
  assumes "physmem_inv s" "physmem_alloc_region sz al s = (a, s')"
  shows "physmem_inv s'"
proof (cases "sz = 0 \<or> 0xFFFFF000 < unat sz")
  case True
  then have "s' = s"
    using assms(2)
    by (auto simp: physmem_alloc_region_def Let_def align_up_wraps mark_range_def
        split: option.splits if_splits)
  with assms show ?thesis by simp
next
  case False
  then have sz: "sz \<noteq> 0" "unat sz \<le> 0xFFFFF000" by auto
  show ?thesis using assms(1) sz assms(2)
  proof (cases rule: alloc_region_cases)
    case (region sf)
    let ?s1 = "mark_range a (align_up sz PHYSMEM_FRAME_SIZE) True s"
    have "physmem_inv ?s1" using assms(1) by (rule physmem_inv_mark_range_used)
    moreover have "frame_is_marked ?s1 g" if "sf \<le> g" "g < sf + (unat sz + 4095) div 4096" for g
      using that region(1,6) assms(1)
      by (simp add: frame_is_marked_mark_range physmem_inv_def region_fits_def)
    ultimately show ?thesis
      unfolding region(7) by (auto simp: physmem_inv_def)
  qed (use assms in simp)
qed


section \<open>Initialisation\<close>

text \<open>While the map is read, the state is well formed for the full table of frames, no frame
  is referenced, and a frame is free only below the highest address seen.\<close>

definition ceil_frames :: "u32 \<Rightarrow> nat" where
  "ceil_frames a = (unat a + 4095) div 4096"

definition init_inv :: "'a physmem_scheme \<Rightarrow> bool" where
  "init_inv s \<longleftrightarrow>
     count_ok s \<and> total_frames s = PHYSMEM_MAX_FRAMES \<and>
     (\<forall>f < PHYSMEM_MAX_FRAMES. frame_refcount s f = 0) \<and>
     (\<forall>f < PHYSMEM_MAX_FRAMES. \<not> frame_is_marked s f \<longrightarrow> f < ceil_frames (highest_address s)) \<and>
     unat (highest_address s) \<le> 0xFFFFF000"

lemma init_inv_reset: "init_inv (physmem_reset s)"
proof -
  have "frame_is_marked (physmem_reset s) f" if "f < PHYSMEM_MAX_FRAMES" for f
  proof -
    have "f div 8 < 131072"
      using that by (intro less_mult_imp_div_less) (simp add: PHYSMEM_MAX_FRAMES_def)
    then have "frame_bitmap (physmem_reset s) (f div 8) = - 1"
      by (simp add: physmem_reset_def bitmap_fill_def PHYSMEM_MAX_FRAMES_def fold_upd_const)
    then show ?thesis by (simp add: frame_is_marked_bit)
  qed
  then show ?thesis
    by (auto simp: init_inv_def count_ok_def free_set_def physmem_reset_def fold_upd_const)
qed

lemma register_highest_fields [frame_simps, simp]:
  "frame_is_marked (register_highest e s) f = frame_is_marked s f"
  "total_frames (register_highest e s) = total_frames s"
  "free_frames (register_highest e s) = free_frames s"
  "frame_refcount (register_highest e s) = frame_refcount s"
  "free_set (register_highest e s) = free_set s"
  "count_ok (register_highest e s) = count_ok s"
  "highest_address (register_highest e s) = max e (highest_address s)"
  by (auto simp: register_highest_def frame_is_marked_def free_set_def count_ok_def max_def)

lemma ceil_frames_mono: "a \<le> b \<Longrightarrow> ceil_frames a \<le> ceil_frames b"
  by (simp add: ceil_frames_def word_le_nat_alt div_le_mono)

lemma range_frames_below_ceil: "f \<in> range_frames a n \<Longrightarrow> f < ceil_frames (a + n)"
proof -
  assume "f \<in> range_frames a n"
  then have "f < (unat (a + n) + 4095) mod 2 ^ 32 div 4096"
    by (simp add: range_frames_def unat_align_up split: if_splits)
  also have "\<dots> \<le> ceil_frames (a + n)"
    unfolding ceil_frames_def by (rule div_le_mono) (rule mod_less_eq_dividend)
  finally show ?thesis .
qed

lemma init_inv_add_available_range:
  assumes "init_inv s" "unat e \<le> 0xFFFFF000"
  shows "init_inv (add_available_range a e s)"
proof (cases "e \<le> a")
  case False
  let ?s = "register_highest e s"
  have top: "unat (max e (highest_address s)) \<le> 0xFFFFF000"
    using assms by (simp add: init_inv_def max_def)
  have "f < ceil_frames (max e (highest_address s))"
    if "f < PHYSMEM_MAX_FRAMES" "\<not> frame_is_marked (mark_range a (e - a) False ?s) f" for f
  proof (cases "f \<in> range_frames a (e - a)")
    case True
    then have "f < ceil_frames e" using range_frames_below_ceil [of f a "e - a"] by simp
    also have "\<dots> \<le> ceil_frames (max e (highest_address s))" by (simp add: ceil_frames_mono)
    finally show ?thesis .
  next
    case False
    with that assms(1) have "f < ceil_frames (highest_address s)"
      by (simp add: init_inv_def frame_is_marked_mark_range)
    also have "\<dots> \<le> ceil_frames (max e (highest_address s))" by (simp add: ceil_frames_mono)
    finally show ?thesis .
  qed
  with assms top False show ?thesis
    by (auto simp: add_available_range_def init_inv_def Let_def count_ok_mark_range)
qed (use assms in \<open>simp add: add_available_range_def\<close>)

text \<open>A memory map whose available entries end at or below the last frame boundary.\<close>

definition entry_ok :: "mmap_entry \<Rightarrow> bool" where
  "entry_ok e \<longleftrightarrow> me_type e = 1 \<longrightarrow> unat (region_end_32 (me_addr e) (me_len e)) \<le> 0xFFFFF000"

lemma init_inv_mmap_walk:
  assumes "mmap_walk entry_at c e s = Some s'" "init_inv s" "\<And>c. entry_ok (entry_at c)"
  shows "init_inv s'"
proof -
  have step: "init_inv (mmap_entry_step (entry_at c) s)" if "init_inv s" for s :: "'a physmem_scheme" and c
    using that assms(3) [of c]
    by (simp add: mmap_entry_step_def entry_ok_def init_inv_add_available_range)
  have "entry_at = entry_at \<longrightarrow> init_inv s \<longrightarrow> init_inv s'"
    using _ assms(1)
    by (rule mmap_walk.raw_induct
          [where P = "\<lambda>en _ _ s s'. en = entry_at \<longrightarrow> init_inv s \<longrightarrow> init_inv s'"])
       (auto simp: step split: if_splits)
  with assms show ?thesis by blast
qed

lemma init_inv_from_map:
  assumes "init_from_multiboot_map entry_at m s = Some s'" "init_inv s"
    "\<And>c. entry_ok (entry_at c)" "unat (0x100000 + mem_upper m * 1024) \<le> 0xFFFFF000"
  shows "init_inv s'"
  using assms by (auto simp: init_from_multiboot_map_def init_inv_mmap_walk
      init_inv_add_available_range split: if_splits)


text \<open>Fixing the number of frames turns the boot-time invariant into the running one, once
  the low megabyte is reserved.\<close>

lemma count_ok_shrink:
  assumes "init_inv s"
  shows "count_ok (s\<lparr>total_frames := ceil_frames (highest_address s)\<rparr>)"
    and "ceil_frames (highest_address s) < PHYSMEM_MAX_FRAMES"
proof -
  show lt: "ceil_frames (highest_address s) < PHYSMEM_MAX_FRAMES"
    unfolding ceil_frames_def using assms
    by (intro less_mult_imp_div_less) (simp add: init_inv_def PHYSMEM_MAX_FRAMES_def)
  have "free_set (s\<lparr>total_frames := ceil_frames (highest_address s)\<rparr>) = free_set s"
    using assms lt by (auto simp: init_inv_def free_set_def frame_is_marked_def)
  then show "count_ok (s\<lparr>total_frames := ceil_frames (highest_address s)\<rparr>)"
    using assms lt by (simp add: init_inv_def count_ok_def)
qed

lemma fix_total_eq:
  assumes "init_inv s"
  obtains s1 where "init_inv s1"
    "physmem_fix_total s = s1\<lparr>total_frames := ceil_frames (highest_address s1)\<rparr>"
proof -
  let ?s1 = "if highest_address s = 0
     then add_available_range 0x100000 0x1000000 (s\<lparr>highest_address := 0x1000000\<rparr>) else s"
  have "init_inv (s\<lparr>highest_address := 0x1000000\<rparr>)" if "highest_address s = 0"
    using assms that
    by (auto simp: init_inv_def count_ok_def free_set_def frame_is_marked_def ceil_frames_def)
  then have s1: "init_inv ?s1"
    using assms by (simp add: init_inv_add_available_range)
  then have "unat (align_up (highest_address ?s1) PHYSMEM_FRAME_SIZE) div 4096
             = ceil_frames (highest_address ?s1)"
    by (simp add: init_inv_def unat_align_up_small ceil_frames_def)
  with count_ok_shrink(2) [OF s1] have
    "physmem_fix_total s = ?s1\<lparr>total_frames := ceil_frames (highest_address ?s1)\<rparr>"
    by (simp add: physmem_fix_total_def Let_def)
  with s1 show thesis by (rule that)
qed

lemma physmem_inv_register_highest [simp]:
  "physmem_inv (register_highest e s) = physmem_inv s"
  by (simp add: physmem_inv_def)

lemma range_frames_low: "range_frames 0 0x100000 = {0..<256}"
  by (simp add: range_frames_def unat_align_up)

lemma physmem_inv_reserve_low:
  assumes "init_inv s"
  shows "physmem_inv (mark_range 0 0x100000 True (s\<lparr>total_frames := ceil_frames (highest_address s)\<rparr>))"
    (is "physmem_inv (mark_range _ _ _ ?t)")
proof (rule physmem_invI)
  show "count_ok (mark_range 0 0x100000 True ?t)"
    by (rule count_ok_mark_range) (rule count_ok_shrink(1) [OF assms])
qed (use assms count_ok_shrink(2) [OF assms] in
      \<open>auto simp: init_inv_def frame_is_marked_mark_range range_frames_low\<close>)

lemma physmem_inv_init_aux:
  assumes "init_inv s"
  shows "physmem_inv (physmem_reserve_boot ks ke mbi (physmem_fix_total s))"
proof -
  obtain s1 where s1: "init_inv s1"
    "physmem_fix_total s = s1\<lparr>total_frames := ceil_frames (highest_address s1)\<rparr>"
    using assms by (rule fix_total_eq)
  from physmem_inv_reserve_low [OF s1(1)] show ?thesis
    by (auto simp: physmem_reserve_boot_def s1(2) Let_def physmem_inv_mark_range_used
        split: option.splits)
qed

lemma physmem_inv_init:
  assumes "physmem_init ks ke entry_at mbi s = Some s'"
    "\<And>c. entry_ok (entry_at c)"
    "\<And>m. mbi = Some m \<Longrightarrow> unat (0x100000 + mem_upper m * 1024) \<le> 0xFFFFF000"
  shows "physmem_inv s'"
  using assms
  by (auto simp: physmem_init_def physmem_inv_init_aux init_inv_reset init_inv_from_map
      split: option.splits)

text \<open>The walk over the map ends when the entries do not carry the cursor past the 32-bit
  wrap: every entry moves it forward by at least four bytes.\<close>

lemma mmap_walk_returns:
  fixes s :: "'a physmem_scheme"
  assumes "\<And>c. c < e \<Longrightarrow> unat c + unat (me_size (entry_at c)) + 4 < 2 ^ 32"
  shows "\<exists>s'. mmap_walk entry_at c e s = Some s'"
proof (induction "unat e - unat c" arbitrary: c s rule: less_induct)
  case less
  show ?case
  proof (cases "c < e")
    case True
    let ?c' = "c + (me_size (entry_at c) + 4)"
    have "unat c + unat (me_size (entry_at c)) + 4 < 2 ^ 32" using assms [OF True] .
    then have "unat ?c' = unat c + (unat (me_size (entry_at c)) + 4)"
      by (simp add: unat_word_ariths)
    with True have "unat e - unat ?c' < unat e - unat c"
      by (simp add: word_less_nat_alt)
    with less True show ?thesis by (subst mmap_walk.simps) simp
  qed (subst mmap_walk.simps, simp)
qed

section \<open>Runs of the allocator\<close>

text \<open>What no call can break, whatever the callers do: the counter of free frames is right and the first
  megabyte stays in use. Reference counts play no part in it.\<close>

definition physmem_base :: "'a physmem_scheme \<Rightarrow> bool" where
  "physmem_base s \<longleftrightarrow>
     total_frames s < PHYSMEM_MAX_FRAMES \<and> count_ok s \<and> (\<forall>f < 256. f < total_frames s \<longrightarrow> frame_is_marked s f)"

lemma physmem_base_refcount [simp]: "physmem_base (s\<lparr>frame_refcount := r\<rparr>) = physmem_base s"
  by (simp add: physmem_base_def)

lemma physmem_inv_base: "physmem_inv s \<Longrightarrow> physmem_base s"
  by (simp add: physmem_base_def physmem_inv_count_ok) (simp add: physmem_inv_def)

lemma physmem_base_mark:
  assumes "physmem_base s"
  shows "physmem_base (mark_frame f True s)" "physmem_base (mark_range a n True s)"
    "256 \<le> f \<Longrightarrow> physmem_base (mark_frame f False s)"
  using assms by (auto simp: physmem_base_def count_ok_mark_frame count_ok_mark_range frame_is_marked_mark_range)

lemma physmem_base_unref: "physmem_base s \<Longrightarrow> physmem_base (physmem_unref_frame a s)"
  using physmem_unref_frame_cases [of a s] by (auto simp: physmem_base_mark(3) [simplified])

text \<open>One call of the interface. The label says whether the call is proper: only a frame in use is
  referenced again. The code does not test this.\<close>

inductive physmem_step :: "bool \<Rightarrow> 'a physmem_scheme \<Rightarrow> 'a physmem_scheme \<Rightarrow> bool" where
  step_alloc: "physmem_alloc_frame s = (a, s') \<Longrightarrow> physmem_step True s s'"
| step_alloc_region: "physmem_alloc_region n al s = (a, s') \<Longrightarrow> physmem_step True s s'"
| step_free: "physmem_step True s (physmem_free_frame a s)"
| step_free_region: "physmem_step True s (physmem_free_region a n s)"
| step_reserve: "physmem_step True s (physmem_reserve_region a n s)"
| step_ref: "physmem_step (frame_is_marked s (unat a div 4096)) s (physmem_ref_frame a s)"
| step_unref: "physmem_step True s (physmem_unref_frame a s)"

inductive physmem_calls :: "bool \<Rightarrow> 'a physmem_scheme \<Rightarrow> 'a physmem_scheme \<Rightarrow> bool" where
  calls_none: "physmem_calls True s s"
| calls_next: "physmem_calls p s t \<Longrightarrow> physmem_step q t u \<Longrightarrow> physmem_calls (p \<and> q) s u"

lemma physmem_step_base: "physmem_step q s s' \<Longrightarrow> physmem_base s \<Longrightarrow> physmem_base s'"
proof (induction rule: physmem_step.induct)
  case (step_alloc s a s')
  then show ?case by (auto simp: physmem_alloc_frame_def Let_def physmem_base_mark split: option.splits)
next
  case (step_alloc_region n al s a s')
  then show ?case by (auto simp: physmem_alloc_region_def Let_def physmem_base_mark split: option.splits if_splits)
next
  case (step_free_region s a n)
  have "physmem_base s \<Longrightarrow> physmem_base (fold (\<lambda>f. physmem_unref_frame (of_nat (f * 4096))) fs s)"
    for fs and s :: "'a physmem_scheme"
    by (induction fs arbitrary: s) (simp_all add: physmem_base_unref)
  then show ?case using step_free_region by (simp add: physmem_free_region_def Let_def)
qed (auto simp: physmem_free_frame_def physmem_reserve_region_def physmem_ref_frame_def Let_def physmem_base_mark
      physmem_base_mark(3) [simplified] physmem_base_unref not_less)

lemma physmem_step_inv: "physmem_step q s s' \<Longrightarrow> q \<Longrightarrow> physmem_inv s \<Longrightarrow> physmem_inv s'"
proof (induction rule: physmem_step.induct)
  case (step_alloc s a s')
  then show ?case using physmem_inv_alloc_frame by blast
next
  case (step_alloc_region n al s a s')
  then show ?case using physmem_inv_alloc_region by blast
qed (simp_all add: physmem_inv_free_frame physmem_inv_free_region physmem_reserve_region_def
      physmem_inv_mark_range_used physmem_inv_ref_frame physmem_inv_unref_frame)

lemma physmem_calls_inv:
  "physmem_calls p s t \<Longrightarrow> physmem_inv s \<Longrightarrow> physmem_base t \<and> (p \<longrightarrow> physmem_inv t)"
  by (induction rule: physmem_calls.induct) (auto intro: physmem_step_base physmem_step_inv physmem_inv_base)

section \<open>Life cycle of a frame\<close>

text \<open>Two states agree on every frame below the limit, and on the counter.\<close>

definition same_frames :: "'a physmem_scheme \<Rightarrow> 'a physmem_scheme \<Rightarrow> bool" where
  "same_frames s t \<longleftrightarrow>
     total_frames s = total_frames t \<and> free_frames s = free_frames t \<and>
     (\<forall>f < total_frames t. frame_is_marked s f = frame_is_marked t f \<and>
                           frame_refcount s f = frame_refcount t f)"

lemma same_framesI:
  assumes "physmem_inv s" "physmem_inv t" "total_frames s = total_frames t"
    "\<And>f. f < total_frames t \<Longrightarrow> frame_is_marked s f = frame_is_marked t f"
    "\<And>f. f < total_frames t \<Longrightarrow> frame_refcount s f = frame_refcount t f"
  shows "same_frames s t"
proof -
  have "free_set s = free_set t" using assms(3,4) by (auto simp: free_set_def)
  with assms show ?thesis by (simp add: same_frames_def physmem_inv_def)
qed

lemma ref_frame_iterate:
  assumes "unat a = f * 4096" "256 \<le> f" "f < total_frames s"
  shows "(physmem_ref_frame a ^^ n) s =
           s\<lparr>frame_refcount := (frame_refcount s)
               (f := of_nat (min 255 (unat (frame_refcount s f) + n)))\<rparr>"
proof (induction n)
  case 0
  show ?case using unat_u8_less [of "frame_refcount s f"] by simp
next
  case (Suc n)
  define k where "k = min 255 (unat (frame_refcount s f) + n)"
  define k' where "k' = min 255 (unat (frame_refcount s f) + Suc n)"
  have k': "k' = (if k < 255 then Suc k else k)" and "k \<le> 255" unfolding k_def k'_def by auto
  then have "(of_nat k :: u8) < 255 \<longleftrightarrow> k < 255"
    by (simp add: word_less_nat_alt unat_of_nat)
  moreover have "a \<noteq> 0" using assms by auto
  ultimately have "physmem_ref_frame a (s\<lparr>frame_refcount := (frame_refcount s)(f := of_nat k)\<rparr>)
      = s\<lparr>frame_refcount := (frame_refcount s)(f := of_nat k')\<rparr>"
    using assms unfolding k' by (simp add: physmem_ref_frame_def Let_def add.commute)
  then show ?case unfolding k_def k'_def by (simp only: Suc funpow.simps comp_apply)
qed

lemma unref_frame_step:
  assumes "unat a = f * 4096" "256 \<le> f" "f < total_frames s" "frame_refcount s f \<noteq> 0"
  shows "physmem_unref_frame a s =
    (let t = s\<lparr>frame_refcount := (frame_refcount s)(f := frame_refcount s f - 1)\<rparr>
     in if frame_refcount s f = 1 then mark_frame f False t else t)"
proof -
  have "a \<noteq> 0" using assms by auto
  with assms show ?thesis by (auto simp: physmem_unref_frame_def Let_def)
qed

lemma unref_frame_iterate:
  assumes a: "unat a = f * 4096" "256 \<le> f" "f < total_frames s"
  shows "m < unat (frame_refcount s f) \<Longrightarrow>
         (physmem_unref_frame a ^^ m) s =
           s\<lparr>frame_refcount := (frame_refcount s)(f := frame_refcount s f - of_nat m)\<rparr>"
proof (induction m)
  case (Suc m)
  let ?c = "frame_refcount s f"
  have c: "unat (?c - of_nat m) = unat ?c - m"
    using Suc.prems unat_u8_less [of ?c] by (simp add: unat_sub word_le_nat_alt unat_of_nat)
  then have "unat (?c - of_nat m) \<noteq> 0" "unat (?c - of_nat m) \<noteq> 1"
    using Suc.prems by auto
  then have "?c - of_nat m \<noteq> 0" "?c - of_nat m \<noteq> 1" by (metis unat_0, metis unat_1)
  with a Suc show ?case
    by (simp add: unref_frame_step [of a f] Let_def diff_diff_eq add.commute fun_upd_def
        cong: if_cong)
qed simp

lemma unref_frame_last:
  assumes a: "unat a = f * 4096" "256 \<le> f" "f < total_frames s" and "frame_refcount s f \<noteq> 0"
  shows "(physmem_unref_frame a ^^ unat (frame_refcount s f)) s =
           mark_frame f False (s\<lparr>frame_refcount := (frame_refcount s)(f := 0)\<rparr>)"
proof -
  let ?c = "frame_refcount s f"
  obtain m where m: "unat ?c = Suc m" using assms(4) by (metis not0_implies_Suc unat_eq_0)
  then have "of_nat (Suc m) = ?c" by (metis of_nat_unat_id)
  then have "?c - of_nat m = 1" by (metis add_diff_cancel_right' of_nat_Suc add.commute)
  with a m show ?thesis
    by (simp add: unref_frame_iterate unref_frame_step [of a f] Let_def)
qed


lemma alloc_frame_life:
  assumes inv: "physmem_inv s" and alloc: "physmem_alloc_frame s = (a, s')" "a \<noteq> 0"
  obtains f where "unat a = f * 4096" "256 \<le> f" "f < total_frames s" "\<not> frame_is_marked s f"
    "s' = (mark_frame f True s)\<lparr>frame_refcount := (frame_refcount s)(f := 1)\<rparr>"
    "\<And>n m. m \<le> min 254 n \<Longrightarrow>
       frame_is_marked ((physmem_unref_frame a ^^ m) ((physmem_ref_frame a ^^ n) s')) f"
    "\<And>n. same_frames ((physmem_unref_frame a ^^ min 255 (Suc n)) ((physmem_ref_frame a ^^ n) s')) s"
  using inv alloc(1)
proof (cases rule: alloc_frame_cases)
  case (frame f)
  then have f: "f < total_frames s" "\<not> frame_is_marked s f" by (simp_all add: mem_free_set)
  have lt: "f < PHYSMEM_MAX_FRAMES" using f inv by (simp add: physmem_inv_def)
  then have a: "unat a = f * 4096" by (simp only: frame(4) unat_frame_addr)
  define r where "r n = (of_nat (min 255 (Suc n)) :: u8)" for n
  have r: "unat (r n) = min 255 (Suc n)" for n unfolding r_def by (simp add: unat_of_nat min_def)
  have s'f: "f < total_frames s'" "frame_is_marked s' f" "frame_refcount s' f = 1"
    using frame(5) f lt by simp_all
  have refs: "(physmem_ref_frame a ^^ n) s' = s'\<lparr>frame_refcount := (frame_refcount s')(f := r n)\<rparr>" for n
    using ref_frame_iterate [OF a frame(3) s'f(1), of n] by (simp add: s'f(3) r_def)
  have "frame_is_marked ((physmem_unref_frame a ^^ m) ((physmem_ref_frame a ^^ n) s')) f"
    if "m \<le> min 254 n" for m n
    unfolding refs using that a frame(3) s'f r [of n]
    by (subst unref_frame_iterate [of a f]) auto
  moreover have "same_frames ((physmem_unref_frame a ^^ min 255 (Suc n)) ((physmem_ref_frame a ^^ n) s')) s" for n
  proof -
    have "r n \<noteq> 0" using r [of n] by (auto simp: min_def split: if_splits)
    then have "(physmem_unref_frame a ^^ min 255 (Suc n)) ((physmem_ref_frame a ^^ n) s')
      = mark_frame f False (s'\<lparr>frame_refcount := (frame_refcount s')(f := 0)\<rparr>)" (is "_ = ?t")
      unfolding refs using unref_frame_last [OF a frame(3), of "s'\<lparr>frame_refcount := (frame_refcount s')(f := r n)\<rparr>"]
        s'f(1) r [of n] by simp
    moreover have "physmem_inv ?t"
      using physmem_inv_alloc_frame [OF inv alloc(1)] frame(3) by (rule physmem_inv_release)
    then have "same_frames ?t s"
      using inv f lt frame(5) by (intro same_framesI) (auto simp: physmem_inv_def)
    ultimately show ?thesis by simp
  qed
  ultimately show thesis using that [OF a frame(3) f frame(5)] by blast
qed (use alloc in simp)

section \<open>Releasing a run of frames\<close>

lemma fold_unref_singles:
  assumes "distinct fs" "\<And>f. f \<in> set fs \<Longrightarrow> 256 \<le> f \<and> f < total_frames s \<and> frame_refcount s f = 1"
    "total_frames s < PHYSMEM_MAX_FRAMES"
  shows "let t = fold (\<lambda>f. physmem_unref_frame (of_nat (f * 4096))) fs s in
         total_frames t = total_frames s \<and>
         (\<forall>g. frame_is_marked t g = (frame_is_marked s g \<and> g \<notin> set fs)) \<and>
         (\<forall>g. frame_refcount t g = (if g \<in> set fs then 0 else frame_refcount s g))"
  using assms
proof (induction fs arbitrary: s)
  case (Cons f fs)
  define s1 where "s1 = physmem_unref_frame (of_nat (f * 4096)) s"
  have f: "256 \<le> f" "f < total_frames s" "frame_refcount s f = 1" "f < PHYSMEM_MAX_FRAMES"
    using Cons.prems(2) [of f] Cons.prems(3) by simp_all
  have s1: "s1 = mark_frame f False (s\<lparr>frame_refcount := (frame_refcount s)(f := 0)\<rparr>)"
    unfolding s1_def using unref_frame_step [OF unat_frame_addr [OF f(4)] f(1,2)] f(3) by simp
  have fields: "total_frames s1 = total_frames s"
    "frame_is_marked s1 g = (frame_is_marked s g \<and> g \<noteq> f)"
    "frame_refcount s1 g = (if g = f then 0 else frame_refcount s g)" for g
    unfolding s1 using f by simp_all
  have "let t = fold (\<lambda>f. physmem_unref_frame (of_nat (f * 4096))) fs s1 in
         total_frames t = total_frames s1 \<and>
         (\<forall>g. frame_is_marked t g = (frame_is_marked s1 g \<and> g \<notin> set fs)) \<and>
         (\<forall>g. frame_refcount t g = (if g \<in> set fs then 0 else frame_refcount s1 g))"
    by (rule Cons.IH) (use Cons.prems in \<open>auto simp: fields\<close>)
  then show ?case unfolding fold_simps s1_def [symmetric] by (auto simp: Let_def fields)
qed simp

lemma alloc_free_region:
  assumes inv: "physmem_inv s" and sz: "sz \<noteq> 0" "unat sz \<le> 0xFFFFF000"
    and alloc: "physmem_alloc_region sz al s = (a, s')" "a \<noteq> 0"
  shows "same_frames (physmem_free_region a sz s') s"
  using inv sz alloc(1)
proof (cases rule: alloc_region_cases)
  case (region sf)
  define k where "k = (unat sz + 4095) div 4096"
  note r = region [folded k_def]
  have inv': "physmem_inv s'" using inv alloc(1) by (rule physmem_inv_alloc_region)
  have tf: "total_frames s' = total_frames s" "sf + k \<le> total_frames s"
    "total_frames s < PHYSMEM_MAX_FRAMES"
    using r inv by (simp_all add: region_fits_def physmem_inv_def)
  have marked: "frame_is_marked s' g \<longleftrightarrow> frame_is_marked s g \<or> sf \<le> g \<and> g < sf + k" for g
    using r(6,7) tf by (auto simp: frame_is_marked_mark_range)
  have rc: "frame_refcount s' g = (if sf \<le> g \<and> g < sf + k then 1 else frame_refcount s g)" for g
    using r(7) by simp
  have a: "unat a = sf * 4096" unfolding r(3) using r(4) by (intro unat_frame_addr) simp
  have lim: "unat a + unat sz < 2 ^ 32"
  proof -
    have "unat sz \<le> k * 4096" unfolding k_def by simp
    moreover have "(sf + k) * 4096 < 2 ^ 32" using r(4) by (simp add: PHYSMEM_MAX_FRAMES_def)
    ultimately show ?thesis using a by (simp add: distrib_right)
  qed
  then have "unat (a + sz) = unat a + unat sz" by (simp add: unat_word_ariths)
  moreover have "unat a + unat sz \<le> (sf + k) * 4096" unfolding a k_def by simp
  moreover have "(sf + k) * 4096 \<le> 0xFFFFF000" using r(4) by (simp add: PHYSMEM_MAX_FRAMES_def)
  ultimately have "unat (align_up (a + sz) PHYSMEM_FRAME_SIZE) div 4096 = sf + k"
    by (simp add: unat_align_up_small a k_def)
  then have eq: "physmem_free_region a sz s'
      = fold (\<lambda>f. physmem_unref_frame (of_nat (f * 4096))) [sf..<sf + k] s'"
    using sz(1) tf a by (simp add: physmem_free_region_def Let_def)
  have "total_frames (physmem_free_region a sz s') = total_frames s \<and>
        (\<forall>g. frame_is_marked (physmem_free_region a sz s') g = (frame_is_marked s' g \<and> g \<notin> {sf..<sf + k})) \<and>
        (\<forall>g. frame_refcount (physmem_free_region a sz s') g = (if g \<in> {sf..<sf + k} then 0 else frame_refcount s' g))"
    unfolding eq using fold_unref_singles [of "[sf..<sf + k]" s'] r(5) tf rc by (simp add: Let_def)
  then show ?thesis
    using inv' inv r(1) tf(2)
    by (intro same_framesI physmem_inv_free_region)
       (auto simp: marked rc region_fits_def physmem_inv_def)
qed (use alloc in simp)

section \<open>The frame allocator as an allocator of 4 KiB blocks\<close>

definition frame_holds :: "'a physmem_scheme \<Rightarrow> (u32 \<times> nat) set \<Rightarrow> bool" where
  "frame_holds s L \<longleftrightarrow>
     physmem_inv s \<and>
     (\<forall>(a, m) \<in> L. m = 4096 \<and> unat a mod 4096 = 0 \<and> 256 \<le> unat a div 4096 \<and>
        unat a div 4096 < total_frames s \<and> frame_refcount s (unat a div 4096) = 1)"

lemma frame_holdsD:
  assumes "frame_holds s L" "(a, m) \<in> L"
  shows "m = 4096" "unat a mod 4096 = 0" "256 \<le> unat a div 4096" "unat a div 4096 < total_frames s"
    "frame_refcount s (unat a div 4096) = 1"
  using assms by (auto simp: frame_holds_def)

lemma frame_holds_alloc:
  assumes h: "frame_holds s L" and al: "physmem_alloc_frame s = (a, s')" "a \<noteq> 0"
  shows "a \<notin> fst ` L \<and> frame_holds s' (insert (a, 4096) L)"
proof -
  have inv: "physmem_inv s" using h by (simp add: frame_holds_def)
  from inv al obtain f where f: "unat a = f * 4096" "256 \<le> f" "f < total_frames s" "\<not> frame_is_marked s f"
    "s' = (mark_frame f True s)\<lparr>frame_refcount := (frame_refcount s)(f := 1)\<rparr>"
    by (rule alloc_frame_life) blast
  then have "frame_refcount s f \<noteq> 1" using inv by (auto simp: physmem_inv_def)
  then have "a \<notin> fst ` L" using h f(1) by (auto simp: frame_holds_def)
  moreover have "physmem_inv s'" using physmem_inv_alloc_frame [OF inv al(1)] .
  ultimately show ?thesis using h f by (auto simp: frame_holds_def)
qed

lemma frame_holds_free:
  assumes h: "frame_holds s L" and a: "(a, m) \<in> L"
  shows "frame_holds (physmem_unref_frame a s) (L - {(a, m)})"
proof -
  have inv: "physmem_inv s" using h by (simp add: frame_holds_def)
  define f where "f = unat a div 4096"
  have f: "unat a = f * 4096" "256 \<le> f" "f < total_frames s" "frame_refcount s f = 1"
    using h a div_mult_mod_eq [of "unat a" 4096] by (auto simp: frame_holds_def f_def)
  have s': "physmem_unref_frame a s = mark_frame f False (s\<lparr>frame_refcount := (frame_refcount s)(f := 0)\<rparr>)"
    using unref_frame_step [OF f(1-3)] f(4) by simp
  have other: "unat b div 4096 \<noteq> f" if "(b, k) \<in> L - {(a, m)}" for b k
  proof
    assume bf: "unat b div 4096 = f"
    have "unat b = f * 4096" "k = m"
      using frame_holdsD [OF h, of b k] frame_holdsD(1) [OF h a] that
        div_mult_mod_eq [of "unat b" 4096] bf by auto
    with f(1) that show False by (auto simp: word_unat_eq_iff)
  qed
  have "m' = 4096 \<and> unat b mod 4096 = 0 \<and> 256 \<le> unat b div 4096 \<and>
      unat b div 4096 < total_frames (physmem_unref_frame a s) \<and>
      frame_refcount (physmem_unref_frame a s) (unat b div 4096) = 1"
    if "(b, m') \<in> L - {(a, m)}" for b m'
    using frame_holdsD [OF h, of b m'] that other [OF that] by (simp add: s')
  then show ?thesis
    using physmem_inv_unref_frame [OF inv, of a] unfolding frame_holds_def by blast
qed

interpretation frames: allocator "\<lambda>_ :: unit. physmem_alloc_frame"
  "\<lambda>a s. Some (physmem_unref_frame a s)" 0 "\<lambda>_. 4096" unat frame_holds
proof
  fix s :: "'a physmem_scheme" and L :: "(u32 \<times> nat) set" and s' and a b :: u32 and m k :: nat
  show "frame_holds s L \<Longrightarrow> physmem_alloc_frame s = (0, s') \<Longrightarrow> frame_holds s' L"
  proof -
    assume h: "frame_holds s L" and al: "physmem_alloc_frame s = (0, s')"
    then have "physmem_inv s" by (simp add: frame_holds_def)
    then show ?thesis using al
    proof (cases rule: alloc_frame_cases)
      case (frame f)
      then have "f = 0" using frame_addr_eq_0 [of f] \<open>physmem_inv s\<close>
        by (auto simp: mem_free_set physmem_inv_def simp del: of_nat_mult)
      then show ?thesis using frame(3) by simp
    qed (use h in simp)
  qed
  show "frame_holds s L \<Longrightarrow> physmem_alloc_frame s = (a, s') \<Longrightarrow> a \<noteq> 0 \<Longrightarrow>
      \<exists>m. 4096 \<le> m \<and> a \<notin> fst ` L \<and> frame_holds s' (insert (a, m) L)"
    using frame_holds_alloc by blast
  show "frame_holds s L \<Longrightarrow> (a, m) \<in> L \<Longrightarrow>
      \<exists>s'. Some (physmem_unref_frame a s) = Some s' \<and> frame_holds s' (L - {(a, m)})"
    using frame_holds_free by blast
  show "frame_holds s L \<Longrightarrow> (a, m) \<in> L \<Longrightarrow> (b, k) \<in> L \<Longrightarrow> (a, m) \<noteq> (b, k) \<Longrightarrow>
      unat a + m \<le> unat b \<or> unat b + k \<le> unat a"
  proof -
    assume h: "frame_holds s L" "(a, m) \<in> L" "(b, k) \<in> L" "(a, m) \<noteq> (b, k)"
    then have "unat a mod 4096 = 0" "unat b mod 4096 = 0" "m = 4096" "k = 4096" "unat a \<noteq> unat b"
      using frame_holdsD(1,2) [OF h(1,2)] frame_holdsD(1,2) [OF h(1,3)] by (auto simp: word_unat_eq_iff)
    then obtain i j where "unat a = 4096 * i" "unat b = 4096 * j" "i \<noteq> j" "m = 4096" "k = 4096"
      by (metis mod_0_imp_dvd dvd_def)
    then show ?thesis by (simp, linarith)
  qed
qed

section \<open>A small machine\<close>

text \<open>A machine with 264 frames, the low megabyte in use.\<close>

definition small_mem :: physmem where
  "small_mem = \<lparr>frame_bitmap = (\<lambda>i. if i < 32 then 0xFF else 0), frame_refcount = (\<lambda>_. 0),
     total_frames = 264, free_frames = 8, highest_address = 0x108000\<rparr>"

lemma small_mem_marked: "frame_is_marked small_mem f \<longleftrightarrow> f < 256"
proof -
  have "(0xFF :: u8) = - 1" by simp
  then have "bit (0xFF :: u8) (f mod 8)" by (simp only: bit_minus_1_iff) simp
  moreover have "f div 8 < 32 \<longleftrightarrow> f < 256" by (simp add: div_less_iff_less_mult)
  ultimately show ?thesis by (simp add: frame_is_marked_bit small_mem_def)
qed

lemma small_mem_fields [simp]:
  "total_frames small_mem = 264" "free_frames small_mem = 8" "frame_refcount small_mem f = 0"
  by (simp_all add: small_mem_def)

lemma small_mem_inv: "physmem_inv small_mem"
proof -
  have "free_set small_mem = {256..<264}" by (auto simp: free_set_def small_mem_marked)
  then show ?thesis by (simp add: physmem_inv_def small_mem_marked PHYSMEM_MAX_FRAMES_def)
qed


section \<open>Properties\<close>

text \<open>C5: after \<^verbatim>\<open>physmem_init\<close> on a memory map whose available entries end at or below the
  last 4 KiB boundary of the 32-bit space, and after any sequence of calls of the
  allocator's interface, the counter of free frames is the number of clear bits of the
  bitmap and no frame of the low megabyte is free. If moreover no call of \<^verbatim>\<open>physmem_ref_frame\<close> named a free
  frame, which the code does not test, no frame with references is free.\<close>

theorem physmem_reachable:
  assumes "physmem_init kernel_start kernel_end entry_at mbi s = Some s0"
    and "\<And>c. entry_ok (entry_at c)"
    and "\<And>m. mbi = Some m \<Longrightarrow> unat (0x100000 + mem_upper m * 1024) \<le> 0xFFFFF000"
    and "physmem_calls refs_held s0 s1"
  shows "free_frames s1 = card {f. f < total_frames s1 \<and> \<not> frame_is_marked s1 f} \<and>
    (\<forall>f < total_frames s1. f < 256 \<longrightarrow> frame_is_marked s1 f) \<and>
    (refs_held \<longrightarrow> (\<forall>f < total_frames s1. frame_refcount s1 f \<noteq> 0 \<longrightarrow> frame_is_marked s1 f))"
proof -
  have "physmem_base s1 \<and> (refs_held \<longrightarrow> physmem_inv s1)"
    using physmem_calls_inv [OF assms(4)] physmem_inv_init [OF assms(1-3)] by blast
  then show ?thesis by (auto simp: physmem_base_def count_ok_def physmem_inv_def free_set_def)
qed

text \<open>A map of one entry, fifteen megabytes from the first; a frame is taken, and then a frame is referenced.\<close>

theorem physmem_reachable_witness:
  "\<exists>m en s0 s1 s2 p. has_mmap m \<and> en = (\<lambda>_. \<lparr>me_size = 20, me_addr = 0x100000, me_len = 0xF00000, me_type = 1\<rparr>) \<and>
     physmem_init 0x100000 0x200000 en (Some m) small_mem = Some s0 \<and> s1 = snd (physmem_alloc_frame s0) \<and>
     s2 = physmem_ref_frame 0x300000 s1 \<and> physmem_calls True s0 s1 \<and> physmem_calls p s0 s2 \<and>
     (\<forall>f < total_frames s1. frame_refcount s1 f \<noteq> 0 \<longrightarrow> frame_is_marked s1 f) \<and>
     free_frames s2 = card {f. f < total_frames s2 \<and> \<not> frame_is_marked s2 f}"
proof -
  let ?en = "\<lambda>_ :: u32. \<lparr>me_size = 20, me_addr = 0x100000, me_len = 0xF00000, me_type = 1\<rparr>"
  let ?m = "\<lparr>mbi_addr = 0x9000, mbi_flags = 0x40, mem_upper = 0x3C00, mmap_length = 24, mmap_addr = 0xA000,
     framebuffer_addr = 0, framebuffer_pitch = 0, framebuffer_height = 0\<rparr>"
  have m: "has_mmap ?m" by (simp add: has_mmap_def)
  have "\<exists>t. mmap_walk ?en 0xA000 0xA018 (physmem_reset small_mem) = Some t"
    by (rule mmap_walk_returns) (simp add: word_less_nat_alt)
  then obtain s0 where s0: "physmem_init 0x100000 0x200000 ?en (Some ?m) small_mem = Some s0"
    using m by (auto simp: physmem_init_def init_from_multiboot_map_def)
  let ?s1 = "snd (physmem_alloc_frame s0)"
  have "physmem_calls (True \<and> True) s0 ?s1" by (rule calls_next [OF calls_none step_alloc]) (rule prod.collapse [symmetric])
  then have run: "physmem_calls True s0 ?s1" by simp
  note run2 = calls_next [OF run step_ref, of "0x300000"]
  have "entry_ok (?en c)" for c by (simp add: entry_ok_def region_end_32_def)
  note ok = physmem_reachable [OF s0 this _ run] physmem_reachable [OF s0 this _ run2]
  show ?thesis by (intro exI conjI, rule m, rule refl, rule s0, rule refl, rule refl, rule run, rule run2) (use ok in simp_all)
qed

text \<open>C11: \<^verbatim>\<open>physmem_alloc_frame\<close> returns 0 and changes nothing exactly when no frame is free;
  otherwise it returns the address of the lowest free frame, which lies above the first
  megabyte, marks that frame, sets its reference count to one, decrements the counter of
  free frames and touches no other frame.\<close>

theorem physmem_alloc_frame_spec:
  assumes inv: "physmem_inv s" and alloc: "physmem_alloc_frame s = (a, s')"
  shows "if free_frames s = 0 then a = 0 \<and> s' = s
         else \<exists>f. unat a = f * 4096 \<and> 0x100000 \<le> unat a \<and> f < total_frames s \<and>
                  \<not> frame_is_marked s f \<and> (\<forall>g < f. frame_is_marked s g) \<and>
                  frame_is_marked s' = (frame_is_marked s)(f := True) \<and>
                  frame_refcount s' = (frame_refcount s)(f := 1) \<and>
                  total_frames s' = total_frames s \<and> Suc (free_frames s') = free_frames s"
  using assms
proof (cases rule: alloc_frame_cases)
  case full
  with inv show ?thesis by (simp add: physmem_inv_def)
next
  case (frame f)
  then have f: "f < total_frames s" "\<not> frame_is_marked s f" by (simp_all add: mem_free_set)
  have lt: "f < PHYSMEM_MAX_FRAMES" "finite (free_set s)" "free_frames s = card (free_set s)"
    using f inv by (auto simp: physmem_inv_def free_set_def)
  have pos: "free_frames s \<noteq> 0" using frame(1) lt by auto
  have "unat a = f * 4096" by (simp only: frame(4) unat_frame_addr [OF lt(1)])
  moreover have "frame_is_marked s g" if "g < f" for g
    using frame(2) f(1) that by (meson mem_free_set not_le less_trans)
  moreover have "Suc (free_frames (mark_frame f True s)) = free_frames s"
    using pos f lt by (simp add: mark_frame_def Let_def)
  ultimately show ?thesis
    using pos f lt frame(3) by (auto simp: frame(5) fun_eq_iff intro!: exI [of _ f])
qed

theorem physmem_alloc_frame_spec_witness:
  "physmem_inv small_mem \<and> fst (physmem_alloc_frame small_mem) = 0x100000 \<and>
   free_frames (snd (physmem_alloc_frame small_mem)) = 7"
proof -
  obtain f where f: "unat (fst (physmem_alloc_frame small_mem)) = f * 4096"
    "\<not> frame_is_marked small_mem f" "\<forall>g < f. frame_is_marked small_mem g"
    "Suc (free_frames (snd (physmem_alloc_frame small_mem))) = 8"
    using physmem_alloc_frame_spec [OF small_mem_inv prod.collapse [symmetric]] by auto
  then have "f = 256" unfolding small_mem_marked by (metis less_irrefl nat_neq_iff)
  with f(1) have "fst (physmem_alloc_frame small_mem) = 0x100000" by (simp add: word_unat_eq_iff)
  with f(4) small_mem_inv show ?thesis by simp
qed


text \<open>C12: for a request of at most \<open>0xFFFFF000\<close> bytes, \<^verbatim>\<open>physmem_alloc_region\<close> returns 0 and
  changes nothing exactly when no aligned run of free frames above the first megabyte is
  long enough; otherwise it returns the lowest such run, all of whose frames were free and
  are now marked with one reference, and touches no other frame.\<close>

theorem physmem_alloc_region_spec:
  assumes inv: "physmem_inv s" and sz: "sz \<noteq> 0" "unat sz \<le> 0xFFFFF000"
    and al: "4096 \<le> al"
    and alloc: "physmem_alloc_region sz al s = (a, s')"
  shows "let k = (unat sz + 4095) div 4096 in
         if a = 0 then s' = s \<and> (\<forall>sf. \<not> region_fits s k al sf)
         else \<exists>sf. unat a = sf * 4096 \<and> 0x100000 \<le> unat a \<and> align_up a al = a \<and>
                   sf + k \<le> total_frames s \<and> (\<forall>x < sf. \<not> region_fits s k al x) \<and>
                   (\<forall>f. frame_is_marked s' f = (frame_is_marked s f \<or> sf \<le> f \<and> f < sf + k)) \<and>
                   (\<forall>f. sf \<le> f \<and> f < sf + k \<longrightarrow> \<not> frame_is_marked s f) \<and>
                   (\<forall>f. frame_refcount s' f = (if sf \<le> f \<and> f < sf + k then 1 else frame_refcount s f))"
proof -
  have al': "(if al < PHYSMEM_FRAME_SIZE then PHYSMEM_FRAME_SIZE else al) = al"
    using al by (auto simp: PHYSMEM_FRAME_SIZE_def)
  from inv sz alloc show ?thesis
  proof (cases rule: alloc_region_cases)
    case none
    then show ?thesis unfolding al' by (simp add: Let_def)
  next
    case (region sf)
    then have lt: "sf < PHYSMEM_MAX_FRAMES" "total_frames s \<le> PHYSMEM_MAX_FRAMES"
      using inv by (simp_all add: physmem_inv_def)
    have a: "unat a = sf * 4096" by (simp only: region(3) unat_frame_addr [OF lt(1)])
    have "a \<noteq> 0" using a region(5) by auto
    moreover have fits: "region_fits s ((unat sz + 4095) div 4096) al sf"
      using region(1) unfolding al' .
    moreover have "align_up a al = a" using fits unfolding region_fits_def region(3) by blast
    ultimately show ?thesis
      using a region lt unfolding al' region_fits_def Let_def
      by (auto simp: frame_is_marked_mark_range intro!: exI [of _ sf])
  qed
qed

theorem physmem_alloc_region_spec_witness:
  "\<exists>a s'. physmem_inv small_mem \<and> physmem_alloc_region 0x2001 4096 small_mem = (a, s') \<and>
          unat a = 256 * 4096 \<and> frame_is_marked s' 258 \<and> \<not> frame_is_marked s' 259"
proof -
  obtain a s' where alloc: "physmem_alloc_region 0x2001 4096 small_mem = (a, s')" by fastforce
  let ?fits = "region_fits small_mem 3 4096"
  have fits: "?fits 256" "\<not> ?fits x" if "x < 256" for x
    using that by (auto simp: region_fits_def small_mem_marked align_up_def)
  have "let k = 3 in
         if a = 0 then s' = small_mem \<and> (\<forall>sf. \<not> region_fits small_mem k 4096 sf)
         else \<exists>sf. unat a = sf * 4096 \<and> 0x100000 \<le> unat a \<and> align_up a 4096 = a \<and>
                   sf + k \<le> total_frames small_mem \<and> (\<forall>x < sf. \<not> region_fits small_mem k 4096 x) \<and>
                   (\<forall>f. frame_is_marked s' f = (frame_is_marked small_mem f \<or> sf \<le> f \<and> f < sf + k)) \<and>
                   (\<forall>f. sf \<le> f \<and> f < sf + k \<longrightarrow> \<not> frame_is_marked small_mem f) \<and>
                   (\<forall>f. frame_refcount s' f = (if sf \<le> f \<and> f < sf + k then 1 else frame_refcount small_mem f))"
    using physmem_alloc_region_spec [OF small_mem_inv _ _ _ alloc] by simp
  then obtain sf where sf: "unat a = sf * 4096" "\<forall>x < sf. \<not> ?fits x" "0x100000 \<le> unat a"
    "\<forall>f. frame_is_marked s' f = (f < 256 \<or> sf \<le> f \<and> f < sf + 3)"
    using fits(1) [of 0] by (auto simp: Let_def small_mem_marked split: if_splits)
  moreover have "256 \<le> sf" using sf(1,3) by linarith
  moreover have "\<not> 256 < sf" using sf(2) fits(1) [of 0] by auto
  ultimately have "sf = 256" by linarith
  with sf alloc small_mem_inv show ?thesis by auto
qed


text \<open>C13: the search loop of \<^verbatim>\<open>physmem_alloc_region\<close>, which jumps over the frame that blocks
  a run, finds the same run as the naive search that tries every start frame in turn.\<close>

theorem region_search_is_first_fit:
  "region_search s frame_count alignment 0
     = find (region_fits s frame_count alignment) [0..<Suc (total_frames s)]"
  by (rule region_search_first_fit)

text \<open>C14: the life cycle of a frame. After \<^verbatim>\<open>physmem_alloc_frame\<close> and \<open>n\<close> calls of
  \<^verbatim>\<open>physmem_ref_frame\<close>, with \<open>n\<close> at most 254, the frame stays in use through the first \<open>n\<close>
  calls of \<^verbatim>\<open>physmem_unref_frame\<close>, and the next one gives every frame, reference count and
  counter its value from before the allocation.\<close>

theorem frame_life_cycle:
  assumes "physmem_inv s" "physmem_alloc_frame s = (a, s')" "a \<noteq> 0" "n \<le> 254"
  shows "(\<forall>m \<le> n. frame_is_marked ((physmem_unref_frame a ^^ m) ((physmem_ref_frame a ^^ n) s'))
                     (unat a div 4096)) \<and>
         same_frames ((physmem_unref_frame a ^^ Suc n) ((physmem_ref_frame a ^^ n) s')) s"
proof -
  obtain f where f: "unat a = f * 4096"
    "\<And>n m. m \<le> min 254 n \<Longrightarrow>
       frame_is_marked ((physmem_unref_frame a ^^ m) ((physmem_ref_frame a ^^ n) s')) f"
    "\<And>n. same_frames ((physmem_unref_frame a ^^ min 255 (Suc n)) ((physmem_ref_frame a ^^ n) s')) s"
    using assms(1-3) by (rule alloc_frame_life) blast
  have "min 255 (Suc n) = Suc n" using assms(4) by simp
  with f(3) [of n] have "same_frames ((physmem_unref_frame a ^^ Suc n) ((physmem_ref_frame a ^^ n) s')) s"
    by (simp only:)
  with f(1) f(2) [where n = n] assms(4) show ?thesis by simp
qed

lemma small_mem_alloc: "fst (physmem_alloc_frame small_mem) \<noteq> 0"
  using small_mem_inv prod.collapse [symmetric]
proof (cases rule: alloc_frame_cases)
  case full
  then have "256 \<notin> free_set small_mem" by simp
  then show ?thesis by (simp add: mem_free_set small_mem_marked)
next
  case (frame f)
  then show ?thesis
    unfolding frame(4) using frame_addr_eq_0 [of f]
    by (auto simp: mem_free_set PHYSMEM_MAX_FRAMES_def simp del: of_nat_mult)
qed

theorem frame_life_cycle_witness:
  "\<exists>a s'. physmem_alloc_frame small_mem = (a, s') \<and>
     frame_is_marked (physmem_unref_frame a (physmem_ref_frame a s')) (unat a div 4096) \<and>
     same_frames (physmem_unref_frame a (physmem_unref_frame a (physmem_ref_frame a s'))) small_mem"
proof -
  obtain a s' where as: "physmem_alloc_frame small_mem = (a, s')" by fastforce
  then have "a \<noteq> 0" using small_mem_alloc by simp
  then have
    "\<forall>m \<le> 1. frame_is_marked ((physmem_unref_frame a ^^ m) ((physmem_ref_frame a ^^ 1) s')) (unat a div 4096)"
    "same_frames ((physmem_unref_frame a ^^ Suc 1) ((physmem_ref_frame a ^^ 1) s')) small_mem"
    using frame_life_cycle [OF small_mem_inv as, of 1] by simp_all
  then have "frame_is_marked ((physmem_unref_frame a ^^ 1) ((physmem_ref_frame a ^^ 1) s')) (unat a div 4096)"
    "same_frames ((physmem_unref_frame a ^^ Suc 1) ((physmem_ref_frame a ^^ 1) s')) small_mem"
    by blast+
  then show ?thesis using as by auto
qed

text \<open>C15: the reference count saturates at 255 but \<^verbatim>\<open>physmem_unref_frame\<close> counts a saturated
  frame down as any other: after \<open>n \<ge> 255\<close> calls of \<^verbatim>\<open>physmem_ref_frame\<close> the frame is free
  again after 255 releases, while \<open>n - 254\<close> holders still use it.\<close>

theorem refcount_saturation_frees:
  assumes "physmem_inv s" "physmem_alloc_frame s = (a, s')" "a \<noteq> 0" "255 \<le> n"
  shows "same_frames ((physmem_unref_frame a ^^ 255) ((physmem_ref_frame a ^^ n) s')) s \<and>
         \<not> frame_is_marked ((physmem_unref_frame a ^^ 255) ((physmem_ref_frame a ^^ n) s')) (unat a div 4096)"
proof -
  obtain f where f: "unat a = f * 4096" "f < total_frames s" "\<not> frame_is_marked s f"
    "\<And>n. same_frames ((physmem_unref_frame a ^^ min 255 (Suc n)) ((physmem_ref_frame a ^^ n) s')) s"
    using assms(1-3) by (rule alloc_frame_life) blast
  have "min 255 (Suc n) = 255" using assms(4) by simp
  with f(4) [of n] have "same_frames ((physmem_unref_frame a ^^ 255) ((physmem_ref_frame a ^^ n) s')) s"
    by (simp only:)
  with f(1-3) show ?thesis by (simp add: same_frames_def)
qed

theorem refcount_saturation_frees_witness:
  "\<exists>a s'. physmem_alloc_frame small_mem = (a, s') \<and>
     \<not> frame_is_marked ((physmem_unref_frame a ^^ 255) ((physmem_ref_frame a ^^ 300) s')) (unat a div 4096)"
proof -
  obtain a s' where as: "physmem_alloc_frame small_mem = (a, s')" by fastforce
  then have "a \<noteq> 0" using small_mem_alloc by simp
  moreover have "(255 :: nat) \<le> 300" by simp
  ultimately show ?thesis using refcount_saturation_frees [OF small_mem_inv as] as by blast
qed


text \<open>C16: giving a region back with \<^verbatim>\<open>physmem_free_region\<close> undoes the \<^verbatim>\<open>physmem_alloc_region\<close>
  that handed it out: every frame, reference count and counter has its old value.\<close>

theorem region_round_trip:
  assumes "physmem_inv s" "sz \<noteq> 0" "unat sz \<le> 0xFFFFF000"
    and "physmem_alloc_region sz al s = (a, s')" "a \<noteq> 0"
  shows "same_frames (physmem_free_region a sz s') s"
  using assms by (rule alloc_free_region)

lemma small_mem_fits: "region_fits small_mem 3 4096 256"
  by (auto simp: region_fits_def small_mem_marked align_up_def)

theorem region_round_trip_witness:
  "\<exists>a s'. physmem_alloc_region 0x2001 4096 small_mem = (a, s') \<and> a \<noteq> 0 \<and>
          same_frames (physmem_free_region a 0x2001 s') small_mem"
proof -
  obtain a s' where alloc: "physmem_alloc_region 0x2001 4096 small_mem = (a, s')" by fastforce
  have "(0x2001 :: u32) \<noteq> 0" "unat (0x2001 :: u32) \<le> 0xFFFFF000" by simp_all
  from small_mem_inv this alloc have "a \<noteq> 0"
  proof (cases rule: alloc_region_cases)
    case none
    from none(1) have "\<not> region_fits small_mem 3 4096 256"
      by (simp add: PHYSMEM_FRAME_SIZE_def)
    with small_mem_fits show ?thesis by blast
  next
    case (region sf)
    then show ?thesis unfolding region(3) using frame_addr_eq_0 [of sf]
      by (simp del: of_nat_mult)
  qed
  then show ?thesis using region_round_trip [OF small_mem_inv _ _ alloc] alloc by simp
qed

lemma unat_power_u32: "k < 32 \<Longrightarrow> unat (2 ^ k :: u32) = 2 ^ k"
proof -
  assume "k < 32"
  then have "(2 :: nat) ^ k < 2 ^ 32" by (intro power_strict_increasing) simp_all
  then have "unat (of_nat (2 ^ k) :: u32) = 2 ^ k" unfolding unat_of_nat by simp
  then show ?thesis by simp
qed

lemma align_up_power:
  assumes "k < 32" "unat a + 2 ^ k \<le> 2 ^ 32"
  shows "align_up a (2 ^ k) = a \<longleftrightarrow> 2 ^ k dvd unat a"
proof -
  have p: "unat (2 ^ k :: u32) = 2 ^ k" using assms(1) by (rule unat_power_u32)
  then have "(2 ^ k :: u32) \<noteq> 0" by (metis power_not_zero unat_0 zero_neq_numeral)
  then have m: "unat (2 ^ k - 1 :: u32) = 2 ^ k - 1" using p by (simp add: unat_minus_one)
  have "unat (a + 2 ^ k - 1) = unat a + (2 ^ k - 1)"
    using assms(2) m by (simp add: add_diff_eq [symmetric] unat_word_ariths(1))
  then have "unat (align_up a (2 ^ k)) = (unat a + (2 ^ k - 1)) div 2 ^ k * 2 ^ k"
    unfolding align_up_def using unat_and_not_mask [of k "a + 2 ^ k - 1"] assms(1) by simp
  also have "\<dots> = unat a \<longleftrightarrow> 2 ^ k dvd unat a"
  proof
    assume "2 ^ k dvd unat a"
    then obtain q where "unat a = 2 ^ k * q" by blast
    moreover have "(2 ^ k * q + (2 ^ k - 1)) div 2 ^ k = q" unfolding div_mult_self4 [OF power_not_zero [OF zero_neq_numeral [symmetric]]] by simp
    ultimately show "(unat a + (2 ^ k - 1)) div 2 ^ k * 2 ^ k = unat a" by simp
  qed (metis dvd_triv_right)
  finally show ?thesis by (simp add: word_unat_eq_iff)
qed

text \<open>The first frame that a region of no frames is placed at.\<close>

lemma region_search_empty:
  fixes s :: "'a physmem_scheme"
  assumes k: "12 \<le> k" "k < 32" and tot: "max 256 (2 ^ (k - 12)) \<le> total_frames s"
  shows "region_search s 0 (2 ^ k) 0 = Some (max 256 (2 ^ (k - 12)))"
proof -
  let ?X = "max 256 (2 ^ (k - 12)) :: nat"
  have k12: "2 ^ k = 2 ^ (k - 12) * (4096 :: nat)" using k(1) power_add [of "2 :: nat" "k - 12" 12] by simp
  have "(2 :: nat) ^ k \<le> 2 ^ 31" using k(2) by (intro power_increasing) simp_all
  then have X: "?X * 4096 \<le> 2 ^ 31" using k12 by (simp add: max_def)
  have u: "unat (of_nat (x * 4096) :: u32) = x * 4096" if "x \<le> ?X" for x
    using that X by (intro unat_frame_addr) (simp add: PHYSMEM_MAX_FRAMES_def)
  have al: "align_up (of_nat (x * 4096)) (2 ^ k) = of_nat (x * 4096) \<longleftrightarrow> 2 ^ (k - 12) dvd x" if "x \<le> ?X" for x
  proof -
    have "x * 4096 + 2 ^ k \<le> 2 ^ 32" using that X \<open>2 ^ k \<le> 2 ^ 31\<close> by (simp del: max.bounded_iff)
    then show ?thesis using align_up_power [OF k(2), of "of_nat (x * 4096)"] u [OF that] by (simp add: k12)
  qed
  have low: "\<not> (of_nat (x * 4096) :: u32) < 0x100000 \<longleftrightarrow> 256 \<le> x" if "x \<le> ?X" for x
    unfolding word_less_nat_alt u [OF that] by auto
  have "(2 :: nat) ^ (k - 12) dvd ?X"
  proof (cases "k \<le> 20")
    case True
    then have "(2 :: nat) ^ (k - 12) dvd 2 ^ 8" by (intro le_imp_power_dvd) simp
    then show ?thesis by (simp add: max_def)
  next
    case False
    then have "(2 :: nat) ^ 8 \<le> 2 ^ (k - 12)" by (intro power_increasing) simp_all
    then show ?thesis by (simp add: max_def)
  qed
  then have fits: "region_fits s 0 (2 ^ k) ?X" unfolding region_fits_def using al [of ?X] low [of ?X] tot by simp
  have "\<not> region_fits s 0 (2 ^ k) x" if "x < ?X" for x
    unfolding region_fits_def using that al [of x] low [of x] by (auto dest: dvd_imp_le)
  moreover obtain sf where "region_search s 0 (2 ^ k) 0 = Some sf"
    using fits region_search_None_iff [of s 0 "2 ^ k"] by (cases "region_search s 0 (2 ^ k) 0") auto
  ultimately show ?thesis using fits region_search_SomeD [of s 0 "2 ^ k" sf] by (metis linorder_neqE_nat)
qed

text \<open>C17: a request of more than \<open>0xFFFFF000\<close> bytes wraps to a size of zero: for every alignment that is a
  power of two, and for those below a page, \<^verbatim>\<open>physmem_alloc_region\<close> answers with the first aligned address
  from \<open>0x100000\<close> on, which is not null, and has reserved nothing. The machine must only be as large as that
  address.\<close>

theorem alloc_region_size_wraps:
  assumes "0xFFFFF000 < unat sz" "al < 4096 \<or> (\<exists>k. 12 \<le> k \<and> k < 32 \<and> al = 2 ^ k)"
    and "unat (max 0x100000 al) \<le> 4096 * total_frames s"
  shows "physmem_alloc_region sz al s = (max 0x100000 al, s)"
proof -
  obtain k where k: "12 \<le> k" "k < 32" "(if al < 4096 then 4096 else al) = 2 ^ k"
  proof (cases "al < 4096")
    case True
    then show thesis using that [of 12] by simp
  next
    case False
    then show thesis using assms(2) that by auto
  qed
  let ?X = "max 256 (2 ^ (k - 12)) :: nat"
  have k12: "2 ^ k = 2 ^ (k - 12) * (4096 :: nat)" using k(1) power_add [of "2 :: nat" "k - 12" 12] by simp
  have uk: "unat (2 ^ k :: u32) = 2 ^ k" using k(2) by (rule unat_power_u32)
  have "max 0x100000 al = max 0x100000 (2 ^ k)" using k(3) by (auto simp: max_def word_le_nat_alt word_less_nat_alt split: if_splits)
  moreover have um: "unat (max 0x100000 (2 ^ k) :: u32) = ?X * 4096"
    using uk k12 by (auto simp: max_def word_le_nat_alt)
  ultimately have "?X * 4096 \<le> 4096 * total_frames s" "of_nat (?X * 4096) = max 0x100000 al"
    using assms(3) by (simp_all only: um [symmetric] of_nat_unat ucast_id)
  then have "?X \<le> total_frames s" "of_nat (?X * 4096) = max 0x100000 al" by simp_all
  then show ?thesis
    using region_search_empty [OF k(1,2), of s] assms(1) align_up_wraps [OF assms(1)] k(3)
    by (auto simp: physmem_alloc_region_def Let_def mark_range_def PHYSMEM_FRAME_SIZE_def)
qed

theorem alloc_region_size_wraps_witness:
  "physmem_alloc_region 0xFFFFFFFF 64 small_mem = (0x100000, small_mem) \<and>
   physmem_alloc_region 0xFFFFFFFF 0x400000 (small_mem\<lparr>total_frames := 4096\<rparr>) = (0x400000, small_mem\<lparr>total_frames := 4096\<rparr>)"
proof -
  have "\<exists>k. 12 \<le> k \<and> k < 32 \<and> (0x400000 :: u32) = 2 ^ k" by (rule exI [of _ 22]) simp
  then show ?thesis
    using alloc_region_size_wraps [of "0xFFFFFFFF" 64 small_mem]
      alloc_region_size_wraps [of "0xFFFFFFFF" "0x400000" "small_mem\<lparr>total_frames := 4096\<rparr>"]
    by (simp add: max_def)
qed

lemma highest_mono:
  "highest_address s \<le> highest_address (mmap_entry_step e s)"
  by (simp add: mmap_entry_step_def add_available_range_def Let_def)

lemma mmap_walk_highest:
  assumes "mmap_walk entry_at c e s = Some s'"
  shows "highest_address s \<le> highest_address s'"
proof -
  have "highest_address s \<le> highest_address s'"
    using _ assms
    by (rule mmap_walk.raw_induct [where P = "\<lambda>_ _ _ s s'. highest_address s \<le> highest_address s'"])
       (use highest_mono order_trans in \<open>fastforce split: if_splits\<close>)
  then show ?thesis .
qed

lemma fix_total_wraps:
  "0xFFFFF000 < unat (highest_address s) \<Longrightarrow> total_frames (physmem_fix_total s) = 0"
  by (auto simp: physmem_fix_total_def Let_def align_up_wraps)

lemma reserve_boot_total: "total_frames (physmem_reserve_boot ks ke mbi s) = total_frames s"
  by (simp add: physmem_reserve_boot_def Let_def split: option.splits)

text \<open>C18: when the first entry of the boot loader's map is available memory that ends above
  the last 4 KiB boundary of the 32-bit space (memory up to or beyond 4 GiB), the rounded-up
  end address wraps to zero: \<^verbatim>\<open>physmem_init\<close> finishes with a limit of zero frames and
  \<^verbatim>\<open>physmem_alloc_frame\<close> fails for ever.\<close>

theorem init_top_of_memory:
  assumes "has_mmap m" "mmap_addr m < mmap_addr m + mmap_length m"
    and "e = entry_at (mmap_addr m)" "me_type e = 1" "me_len e \<noteq> 0" "me_addr e \<le> 0xFFFFF000"
    and "0xFFFFF000 < unat (region_end_32 (me_addr e) (me_len e))"
    and "physmem_init kernel_start kernel_end entry_at (Some m) s = Some s'"
  shows "total_frames s' = 0 \<and> physmem_alloc_frame s' = (0, s')"
proof -
  let ?r = "region_end_32 (me_addr e) (me_len e)"
  obtain s0 where s0: "mmap_walk entry_at (mmap_addr m) (mmap_addr m + mmap_length m) (physmem_reset s) = Some s0"
    and s': "s' = physmem_reserve_boot kernel_start kernel_end (Some m) (physmem_fix_total s0)"
    using assms(1,8) by (auto simp: physmem_init_def init_from_multiboot_map_def)
  have "ucast (me_addr e) < ?r"
  proof -
    have "unat (me_addr e) \<le> 0xFFFFF000" using assms(6) by (simp add: word_le_nat_alt)
    moreover have "unat (ucast (me_addr e) :: u32) \<le> unat (me_addr e)"
      by (simp add: unsigned_ucast_eq take_bit_eq_mod)
    ultimately show ?thesis using assms(7) by (simp add: word_less_nat_alt)
  qed
  moreover have "me_addr e < 0x100000000" using assms(6) by (simp add: word_le_nat_alt word_less_nat_alt)
  ultimately have "?r \<le> highest_address (mmap_entry_step e (physmem_reset s))"
    using assms(4,5) by (simp add: mmap_entry_step_def add_available_range_def Let_def flip: not_less)
  also have "\<dots> \<le> highest_address s0"
    using s0 assms(2,3) by (subst (asm) mmap_walk.simps) (simp add: mmap_walk_highest)
  finally have "0xFFFFF000 < unat (highest_address s0)"
    using assms(7) by (simp add: word_le_nat_alt)
  then show ?thesis
    by (simp add: s' reserve_boot_total fix_total_wraps physmem_alloc_frame_def)
qed


definition pc_4g :: multiboot_info where
  "pc_4g = \<lparr>mbi_addr = 0x10000, mbi_flags = 0x40, mem_upper = 0, mmap_length = 24,
     mmap_addr = 0x11000, framebuffer_addr = 0, framebuffer_pitch = 0, framebuffer_height = 0\<rparr>"

definition entry_4g :: mmap_entry where
  "entry_4g = \<lparr>me_size = 20, me_addr = 0x100000, me_len = 0xFFF00000, me_type = 1\<rparr>"

theorem init_top_of_memory_witness:
  "\<exists>s'. physmem_init 0x100000 0x200000 (\<lambda>_. entry_4g) (Some pc_4g) small_mem = Some s' \<and>
        total_frames s' = 0 \<and> physmem_alloc_frame s' = (0, s')"
proof -
  have "\<exists>s0. mmap_walk (\<lambda>_. entry_4g) 0x11000 (0x11000 + 24) (physmem_reset small_mem) = Some s0"
    by (rule mmap_walk_returns) (simp add: entry_4g_def word_less_nat_alt)
  moreover have m: "has_mmap pc_4g" "mmap_addr pc_4g < mmap_addr pc_4g + mmap_length pc_4g"
    by (simp_all add: has_mmap_def pc_4g_def)
  ultimately obtain s' where
    s': "physmem_init 0x100000 0x200000 (\<lambda>_. entry_4g) (Some pc_4g) small_mem = Some s'"
    by (auto simp: physmem_init_def init_from_multiboot_map_def pc_4g_def)
  have e: "me_type entry_4g = 1" "me_len entry_4g \<noteq> 0" "me_addr entry_4g \<le> 0xFFFFF000"
    "0xFFFFF000 < unat (region_end_32 (me_addr entry_4g) (me_len entry_4g))"
    by (simp_all add: entry_4g_def region_end_32_def)
  show ?thesis
    using init_top_of_memory [where entry_at = "\<lambda>_. entry_4g", OF m refl e s'] s' by blast
qed

end
