(* ===== verification/Linked_List.thy ===== *)
theory Linked_List
  imports Lyth_Prelude
begin

text \<open>
  Singly linked lists in memory, as the allocators keep them: a function \<open>nxt\<close> from the
  address of a node to the address stored in its link field, and the predicate
  \<open>chain nxt p xs\<close> that the nodes met from \<open>p\<close> up to the null pointer are \<open>xs\<close>.
\<close>

primrec chain :: "('p :: zero \<Rightarrow> 'p) \<Rightarrow> 'p \<Rightarrow> 'p list \<Rightarrow> bool" where
  "chain nxt p [] \<longleftrightarrow> p = 0"
| "chain nxt p (x # xs) \<longleftrightarrow> p = x \<and> x \<noteq> 0 \<and> chain nxt (nxt x) xs"

lemma chain_nonzero: "chain nxt p xs \<Longrightarrow> 0 \<notin> set xs"
  by (induction xs arbitrary: p) auto

lemma chain_0 [simp]: "chain nxt 0 xs \<longleftrightarrow> xs = []"
  by (cases xs) auto

lemma chain_head: "p \<noteq> 0 \<Longrightarrow> chain nxt p xs \<longleftrightarrow> (\<exists>ys. xs = p # ys \<and> chain nxt (nxt p) ys)"
  by (cases xs) auto

lemma chain_cong:
  "chain nxt p xs \<Longrightarrow> (\<And>x. x \<in> set xs \<Longrightarrow> nxt' x = nxt x) \<Longrightarrow> chain nxt' p xs"
  by (induction xs arbitrary: p) auto

lemma chain_upd [simp]: "q \<notin> set xs \<Longrightarrow> chain (nxt(q := v)) p xs = chain nxt p xs"
  by (induction xs arbitrary: p) auto

lemma chain_unique: "chain nxt p xs \<Longrightarrow> chain nxt p ys \<Longrightarrow> xs = ys"
proof (induction xs arbitrary: p ys)
  case (Cons x xs)
  then show ?case by (cases ys) auto
qed simp

lemma chain_suffix: "chain nxt p (xs @ y # ys) \<Longrightarrow> chain nxt y (y # ys)"
  by (induction xs arbitrary: p) auto

lemma chain_distinct: "chain nxt p xs \<Longrightarrow> distinct xs"
proof (induction xs arbitrary: p)
  case (Cons x xs)
  moreover have "x \<notin> set xs"
  proof
    assume "x \<in> set xs"
    then obtain us vs where "xs = us @ x # vs" by (meson split_list)
    with Cons.prems have "chain nxt x (x # vs)" "chain nxt x (x # us @ x # vs)"
      using chain_suffix [of nxt p "x # us" x vs] by auto
    then have "x # vs = x # us @ x # vs" by (rule chain_unique)
    then show False by simp
  qed
  ultimately show ?case by auto
qed simp

text \<open>Redirecting the link of the node in front of \<open>q\<close> takes \<open>q\<close> out.\<close>

lemma chain_unlink:
  "chain nxt p (xs @ x # q # ys) \<Longrightarrow> chain (nxt(x := nxt q)) p (xs @ x # ys)"
proof (induction xs arbitrary: p)
  case Nil
  then have "x \<notin> set ys" "p = x" "x \<noteq> 0" "chain nxt (nxt q) ys"
    using chain_distinct [OF Nil] by auto
  then show ?case by (simp only: append_Nil chain.simps fun_upd_same chain_upd simp_thms)
next
  case (Cons z zs)
  then have "z \<noteq> x" using chain_distinct [OF Cons.prems] by auto
  with Cons show ?case by auto
qed

lemma chain_append_node:
  "chain nxt p (xs @ [x]) \<Longrightarrow> q \<noteq> 0 \<Longrightarrow> nxt q = 0 \<Longrightarrow> q \<notin> set (xs @ [x]) \<Longrightarrow>
   chain (nxt(x := q)) p (xs @ [x, q])"
proof (induction xs arbitrary: p)
  case (Cons z zs)
  then have "z \<noteq> x" using chain_distinct [OF Cons.prems(1)] by auto
  with Cons show ?case by auto
qed auto

end
