(* ===== verification/Slab.thy ===== *)
theory Slab
  imports Physmem Linked_List Allocator
begin

text \<open>
  The slab allocator, \<^verbatim>\<open>kernel/mem/slab.c\<close>: eight size classes, each with a list of pages
  that have a free object and a list of full pages. Page headers and the link word of a
  free object are memory: \<open>slab_mem\<close> reads the header at an address and \<open>obj_next\<close> the pointer
  stored at an address. Pages come from \<^verbatim>\<open>physmem_alloc_frame\<close>, so the state extends the
  frame allocator's. The locks are left out: every operation runs under its cache's lock.
\<close>

section \<open>State and operations\<close>

definition SLAB_MAGIC :: u32 where "SLAB_MAGIC = 0x534C4142"
definition SLAB_NUM_CACHES :: nat where "SLAB_NUM_CACHES = 8"
definition SLAB_MAX_OBJ :: u32 where "SLAB_MAX_OBJ = 2048"
definition SLAB_PAGE_SIZE :: u32 where "SLAB_PAGE_SIZE = 4096"

record slab_page =
  sp_magic :: u32
  sp_next :: u64
  sp_obj_size :: u16
  sp_capacity :: u16
  sp_free_count :: u16
  sp_cache_idx :: u8
  sp_pad :: u8
  sp_free_list :: u64

record slab_cache =
  sc_partial :: u64
  sc_full :: u64
  sc_obj_size :: u16

record slab_st = physmem +
  slab_mem :: "u64 \<Rightarrow> slab_page"
  obj_next :: "u64 \<Rightarrow> u64"
  slab_caches :: "slab_cache list"
  slab_ready :: bool

definition cache_sizes :: "u16 list" where
  "cache_sizes = [16, 32, 64, 128, 256, 512, 1024, 2048]"

definition cache_index_for_size :: "u32 \<Rightarrow> int" where
  "cache_index_for_size sz =
     (case first_idx (\<lambda>c. sz \<le> ucast c) cache_sizes of Some i \<Rightarrow> int i | None \<Rightarrow> -1)"

definition header_size_aligned :: "u16 \<Rightarrow> u32" where
  "header_size_aligned obj_size =
     (let hdr = 32; msk = ucast obj_size - 1 in (hdr + msk) AND NOT msk)"

definition slab_page_create :: "nat \<Rightarrow> 'a slab_st_scheme \<Rightarrow> u64 \<times> 'a slab_st_scheme" where
  "slab_page_create ci s =
     (let (phys, s1) = physmem_alloc_frame s in
      if phys = 0 then (0, s1)
      else
        let page = ucast phys;
            hdr_end = header_size_aligned (cache_sizes ! ci);
            usable = SLAB_PAGE_SIZE - hdr_end;
            cap = ucast (usable div ucast (cache_sizes ! ci)) :: u16;
            base = page + ucast hdr_end;
            (free_list, on) =
              fold (\<lambda>i (fl, on).
                      let obj = base + of_nat i * ucast (cache_sizes ! ci) in (obj, on(obj := fl)))
                   [0..<unat cap] (0, obj_next s1)
        in (page,
            s1\<lparr>slab_mem := (slab_mem s1)(page :=
                  \<lparr>sp_magic = SLAB_MAGIC, sp_next = 0, sp_obj_size = cache_sizes ! ci,
                   sp_capacity = cap, sp_free_count = cap, sp_cache_idx = of_nat ci, sp_pad = 0,
                   sp_free_list = free_list\<rparr>),
               obj_next := on\<rparr>))"

definition slab_init :: "'a slab_st_scheme \<Rightarrow> 'a slab_st_scheme" where
  "slab_init s = s\<lparr>slab_caches := map (\<lambda>c. \<lparr>sc_partial = 0, sc_full = 0, sc_obj_size = c\<rparr>) cache_sizes,
                   slab_ready := True\<rparr>"

text \<open>Popping the first free object of a page at the head of the partial list.\<close>

definition slab_pop :: "nat \<Rightarrow> u64 \<Rightarrow> 'a slab_st_scheme \<Rightarrow> u64 \<times> 'a slab_st_scheme" where
  "slab_pop ci page s =
     (let hd = slab_mem s page;
          obj = sp_free_list hd;
          hd1 = hd\<lparr>sp_free_list := obj_next s obj, sp_free_count := sp_free_count hd - 1\<rparr>;
          cache = slab_caches s ! ci
      in if sp_free_count hd1 = 0
         then (obj, s\<lparr>slab_mem := (slab_mem s)(page := hd1\<lparr>sp_next := sc_full cache\<rparr>),
                      slab_caches := (slab_caches s)[ci := cache\<lparr>sc_partial := sp_next hd1, sc_full := page\<rparr>]\<rparr>)
         else (obj, s\<lparr>slab_mem := (slab_mem s)(page := hd1)\<rparr>))"

definition slab_alloc :: "u32 \<Rightarrow> 'a slab_st_scheme \<Rightarrow> u64 \<times> 'a slab_st_scheme" where
  "slab_alloc sz s =
     (if \<not> slab_ready s \<or> sz = 0 \<or> sz > SLAB_MAX_OBJ then (0, s)
      else
        let ci = cache_index_for_size sz in
        if ci < 0 then (0, s)
        else
          let ci = nat ci; page = sc_partial (slab_caches s ! ci) in
          if page = 0 then
            (let (page, s1) = slab_page_create ci s in
             if page = 0 then (0, s1)
             else slab_pop ci page
                    (s1\<lparr>slab_caches := (slab_caches s1)[ci := (slab_caches s1 ! ci)\<lparr>sc_partial := page\<rparr>]\<rparr>))
          else slab_pop ci page s)"

text \<open>The walk of \<^verbatim>\<open>slab_free\<close> down the full list with a pointer to a link: \<open>None\<close> is the link in
  the cache, \<open>Some q\<close> the link in the header at \<open>q\<close>. The walk does not end on a cyclic list.\<close>

definition deref_link :: "(u64 \<Rightarrow> slab_page) \<Rightarrow> u64 \<Rightarrow> u64 option \<Rightarrow> u64" where
  "deref_link mem full pp = (case pp of None \<Rightarrow> full | Some q \<Rightarrow> sp_next (mem q))"

partial_function (option) find_link ::
  "(u64 \<Rightarrow> slab_page) \<Rightarrow> u64 \<Rightarrow> u64 \<Rightarrow> u64 option \<Rightarrow> u64 option option" where
  "find_link mem full page pp =
     (let cur = deref_link mem full pp in
      if cur \<noteq> 0 \<and> cur \<noteq> page then find_link mem full page (Some cur) else Some pp)"

definition slab_page_of :: "u64 \<Rightarrow> u64" where
  "slab_page_of ptr = ptr AND ucast (NOT (SLAB_PAGE_SIZE - 1))"

definition slab_move_to_partial :: "nat \<Rightarrow> u64 \<Rightarrow> u64 option \<Rightarrow> 'a slab_st_scheme \<Rightarrow> 'a slab_st_scheme" where
  "slab_move_to_partial ci page pp s =
     (let mem = slab_mem s; cache = slab_caches s ! ci; nx = sp_next (mem page);
          (mem1, cache1) =
            (if deref_link mem (sc_full cache) pp \<noteq> 0
             then (case pp of
                     None \<Rightarrow> (mem, cache\<lparr>sc_full := nx\<rparr>)
                   | Some q \<Rightarrow> (mem(q := (mem q)\<lparr>sp_next := nx\<rparr>), cache))
             else (mem, cache));
          mem2 = mem1(page := (mem1 page)\<lparr>sp_next := sc_partial cache1\<rparr>)
      in s\<lparr>slab_mem := mem2, slab_caches := (slab_caches s)[ci := cache1\<lparr>sc_partial := page\<rparr>]\<rparr>)"

definition slab_free :: "u64 \<Rightarrow> 'a slab_st_scheme \<Rightarrow> 'a slab_st_scheme option" where
  "slab_free ptr s =
     (if ptr = 0 then Some s
      else
        let page = slab_page_of ptr; hd = slab_mem s page in
        if sp_magic hd \<noteq> SLAB_MAGIC then Some s
        else
          let ci = unat (sp_cache_idx hd);
              was_full = (sp_free_count hd = 0);
              s1 = s\<lparr>obj_next := (obj_next s)(ptr := sp_free_list hd),
                     slab_mem := (slab_mem s)(page := hd\<lparr>sp_free_list := ptr,
                                    sp_free_count := sp_free_count hd + 1\<rparr>)\<rparr>
          in if was_full
             then map_option (\<lambda>pp. slab_move_to_partial ci page pp s1)
                    (find_link (slab_mem s1) (sc_full (slab_caches s1 ! ci)) page None)
             else Some s1)"

definition slab_owns :: "u64 \<Rightarrow> 'a slab_st_scheme \<Rightarrow> bool" where
  "slab_owns ptr s = (if ptr = 0 then False else sp_magic (slab_mem s (slab_page_of ptr)) = SLAB_MAGIC)"

text \<open>\<^verbatim>\<open>slab_get_stats\<close> walks both lists of every cache; the result is the structure it fills.\<close>

record slab_stats =
  cache_obj_size :: "u32 list"
  cache_total_objs :: "u32 list"
  cache_free_objs :: "u32 list"
  cache_page_count :: "u32 list"
  total_pages :: u32
  total_bytes :: u32

partial_function (option) slab_walk ::
  "(u64 \<Rightarrow> slab_page) \<Rightarrow> bool \<Rightarrow> u64 \<Rightarrow> u32 \<times> u32 \<times> u32 \<Rightarrow> (u32 \<times> u32 \<times> u32) option" where
  "slab_walk mem count_free page acc =
     (if page = 0 then Some acc
      else let (pages, total, free_o) = acc in
           slab_walk mem count_free (sp_next (mem page))
             (pages + 1, total + ucast (sp_capacity (mem page)),
              if count_free then free_o + ucast (sp_free_count (mem page)) else free_o))"

definition slab_cache_stats :: "'a slab_st_scheme \<Rightarrow> nat \<Rightarrow> (u32 \<times> u32 \<times> u32) option" where
  "slab_cache_stats s i =
     Option.bind (slab_walk (slab_mem s) True (sc_partial (slab_caches s ! i)) (0, 0, 0))
       (slab_walk (slab_mem s) False (sc_full (slab_caches s ! i)))"

definition slab_get_stats :: "'a slab_st_scheme \<Rightarrow> slab_stats option" where
  "slab_get_stats s =
     map_option (\<lambda>rs.
       let pages = sum_list (map fst rs) in
       \<lparr>cache_obj_size = map ucast cache_sizes,
        cache_total_objs = map (fst \<circ> snd) rs,
        cache_free_objs = map (snd \<circ> snd) rs,
        cache_page_count = map fst rs,
        total_pages = pages,
        total_bytes = pages * SLAB_PAGE_SIZE\<rparr>)
     (those (map (slab_cache_stats s) [0..<SLAB_NUM_CACHES]))"

section \<open>The geometry of a page\<close>

definition slab_size :: "nat \<Rightarrow> nat" where "slab_size ci = unat (cache_sizes ! ci)"
definition slab_hdr :: "nat \<Rightarrow> nat" where "slab_hdr ci = unat (header_size_aligned (cache_sizes ! ci))"
definition slab_cap :: "nat \<Rightarrow> nat" where "slab_cap ci = (4096 - slab_hdr ci) div slab_size ci"

lemma less_8_cases: "ci < 8 \<longleftrightarrow> ci = 0 \<or> ci = 1 \<or> ci = 2 \<or> ci = 3 \<or> ci = 4 \<or> ci = 5 \<or> ci = 6 \<or> ci = (7::nat)"
  by auto

lemma slab_geometry:
  "ci < 8 \<Longrightarrow> slab_size ci = 16 * 2 ^ ci"
  "ci < 8 \<Longrightarrow> 32 \<le> slab_hdr ci"
  "ci < 8 \<Longrightarrow> slab_hdr ci + slab_cap ci * slab_size ci \<le> 4096"
  "ci < 8 \<Longrightarrow> 0 < slab_cap ci"
  "ci < 8 \<Longrightarrow> slab_cap ci < 65536"
  unfolding less_8_cases slab_cap_def slab_hdr_def slab_size_def
  by (elim disjE; simp add: cache_sizes_def header_size_aligned_def Let_def)+

lemma slab_cap_word:
  "ci < 8 \<Longrightarrow> unat (ucast ((SLAB_PAGE_SIZE - header_size_aligned (cache_sizes ! ci))
                       div ucast (cache_sizes ! ci)) :: u16) = slab_cap ci"
  unfolding less_8_cases slab_cap_def slab_hdr_def slab_size_def
  by (elim disjE; simp add: cache_sizes_def header_size_aligned_def Let_def SLAB_PAGE_SIZE_def)

definition slab_obj :: "nat \<Rightarrow> u64 \<Rightarrow> nat \<Rightarrow> u64" where
  "slab_obj ci p i = p + ucast (header_size_aligned (cache_sizes ! ci)) + of_nat i * ucast (cache_sizes ! ci)"

lemma slab_obj_unat:
  assumes "ci < 8" "i < slab_cap ci" "unat p + 4096 < 2 ^ 64"
  shows "unat (slab_obj ci p i) = unat p + slab_hdr ci + i * slab_size ci"
    and "slab_hdr ci + i * slab_size ci + slab_size ci \<le> 4096"
proof -
  have "Suc i * slab_size ci \<le> slab_cap ci * slab_size ci"
    using assms(2) by (intro mult_le_mono1) simp
  with slab_geometry(3) [OF assms(1)]
  show le: "slab_hdr ci + i * slab_size ci + slab_size ci \<le> 4096" by simp
  have "unat (of_nat i * ucast (cache_sizes ! ci) :: u64) = i * slab_size ci"
    using le assms by (simp add: unat_word_ariths unat_of_nat slab_size_def unsigned_ucast_eq take_bit_eq_mod
        less_trans [OF unat_u16_less] mod_mult_right_eq mod_mult_left_eq)
  moreover have "unat (ucast (header_size_aligned (cache_sizes ! ci)) :: u64) = slab_hdr ci"
    using le by (simp add: slab_hdr_def unsigned_ucast_eq take_bit_eq_mod)
  ultimately show "unat (slab_obj ci p i) = unat p + slab_hdr ci + i * slab_size ci"
    unfolding slab_obj_def using le assms(3) by (simp add: unat_word_ariths)
qed


lemma slab_page_of_unat:
  assumes "unat ptr < 2 ^ 32"
  shows "unat (slab_page_of ptr) = unat ptr div 4096 * 4096"
proof -
  have "(ucast (NOT (SLAB_PAGE_SIZE - 1)) :: u64) = mask 32 AND NOT (2 ^ 12 - 1)"
    by (simp add: SLAB_PAGE_SIZE_def mask_eq_exp_minus_1)
  then have "slab_page_of ptr = take_bit 32 ptr AND NOT (2 ^ 12 - 1)"
    by (simp only: slab_page_of_def take_bit_eq_mask and.assoc)
  moreover have "unat (take_bit 32 ptr) = unat ptr"
    using assms unfolding unsigned_take_bit_eq by (simp add: take_bit_eq_mod)
  ultimately show ?thesis using unat_and_not_mask [of 12 "take_bit 32 ptr"] by simp
qed

lemma slab_page_of_obj:
  assumes "ci < 8" "i < slab_cap ci" "unat p = f * 4096" "f < PHYSMEM_MAX_FRAMES"
  shows "slab_page_of (slab_obj ci p i) = p"
proof -
  have lt: "f * 4096 + 4096 \<le> 2 ^ 32" using assms(4) by (simp add: PHYSMEM_MAX_FRAMES_def)
  then have p: "unat p + 4096 < 2 ^ 64" using assms(3) by simp
  note o = slab_obj_unat [OF assms(1,2) p]
  have off: "slab_hdr ci + i * slab_size ci < 4096"
  proof -
    have "0 < slab_size ci" using slab_geometry(1) [OF assms(1)] by simp
    with o(2) show ?thesis by linarith
  qed
  have "unat (slab_obj ci p i) = f * 4096 + (slab_hdr ci + i * slab_size ci)"
    using o(1) assms(3) by simp
  then have "unat (slab_page_of (slab_obj ci p i)) = f * 4096"
    using off lt slab_page_of_unat [of "slab_obj ci p i"] by simp
  with assms(3) show ?thesis by (simp add: word_unat_eq_iff)
qed

lemma slab_obj_inj:
  assumes "ci < 8" "i < slab_cap ci" "j < slab_cap ci" "unat p + 4096 < 2 ^ 64"
    "slab_obj ci p i = slab_obj ci p j"
  shows "i = j"
proof -
  have "i * slab_size ci = j * slab_size ci"
    using slab_obj_unat(1) [OF assms(1,2,4)] slab_obj_unat(1) [OF assms(1,3,4)]
    unfolding assms(5) by linarith
  then show ?thesis using slab_geometry(1) [OF assms(1)] by simp
qed

section \<open>The lists the memory represents\<close>

text \<open>A page of class \<open>ci\<close> with free objects \<open>os\<close>: an allocated frame above the first megabyte,
  a header that agrees with the class, and an embedded free list of objects of the page.\<close>

definition page_ok :: "'a slab_st_scheme \<Rightarrow> nat \<Rightarrow> u64 \<Rightarrow> u64 list \<Rightarrow> bool" where
  "page_ok s ci p os \<longleftrightarrow>
     unat p mod 4096 = 0 \<and> 256 \<le> unat p div 4096 \<and> unat p div 4096 < total_frames s \<and>
     frame_is_marked s (unat p div 4096) \<and>
     sp_magic (slab_mem s p) = SLAB_MAGIC \<and>
     unat (sp_cache_idx (slab_mem s p)) = ci \<and>
     unat (sp_capacity (slab_mem s p)) = slab_cap ci \<and>
     unat (sp_free_count (slab_mem s p)) = length os \<and>
     chain (obj_next s) (sp_free_list (slab_mem s p)) os \<and>
     set os \<subseteq> slab_obj ci p ` {..<slab_cap ci}"

definition page_link :: "'a slab_st_scheme \<Rightarrow> u64 \<Rightarrow> u64" where
  "page_link s p = sp_next (slab_mem s p)"

text \<open>The abstract state: the partial and the full pages of every class, and the free objects
  of every page.\<close>

definition slab_rep ::
  "'a slab_st_scheme \<Rightarrow> (nat \<Rightarrow> u64 list) \<Rightarrow> (nat \<Rightarrow> u64 list) \<Rightarrow> (u64 \<Rightarrow> u64 list) \<Rightarrow> bool" where
  "slab_rep s P F E \<longleftrightarrow>
     physmem_inv s \<and> slab_ready s \<and> length (slab_caches s) = 8 \<and>
     (\<forall>ci < 8.
        chain (page_link s) (sc_partial (slab_caches s ! ci)) (P ci) \<and>
        chain (page_link s) (sc_full (slab_caches s ! ci)) (F ci) \<and>
        (\<forall>p \<in> set (P ci). page_ok s ci p (E p) \<and> E p \<noteq> []) \<and>
        (\<forall>p \<in> set (F ci). page_ok s ci p (E p) \<and> E p = []))"

definition slab_pages :: "(nat \<Rightarrow> u64 list) \<Rightarrow> (nat \<Rightarrow> u64 list) \<Rightarrow> nat \<Rightarrow> u64 set" where
  "slab_pages P F ci = set (P ci) \<union> set (F ci)"

text \<open>The objects handed out, with their size: those of the pages that are on no free list.\<close>

definition slab_blocks ::
  "(nat \<Rightarrow> u64 list) \<Rightarrow> (nat \<Rightarrow> u64 list) \<Rightarrow> (u64 \<Rightarrow> u64 list) \<Rightarrow> (u64 \<times> nat) set" where
  "slab_blocks P F E =
     {(slab_obj ci p i, slab_size ci) |ci p i. ci < 8 \<and> p \<in> slab_pages P F ci \<and> i < slab_cap ci \<and>
        slab_obj ci p i \<notin> set (E p)}"

definition slab_holds :: "'a slab_st_scheme \<Rightarrow> (u64 \<times> nat) set \<Rightarrow> bool" where
  "slab_holds s L \<longleftrightarrow> (\<exists>P F E. slab_rep s P F E \<and> L = slab_blocks P F E)"

lemma slab_rep_page_ok: "slab_rep s P F E \<Longrightarrow> ci < 8 \<Longrightarrow> p \<in> slab_pages P F ci \<Longrightarrow> page_ok s ci p (E p)"
  by (auto simp: slab_rep_def slab_pages_def)

lemma page_ok_frame:
  assumes "page_ok s ci p os" "physmem_inv s"
  obtains f where "unat p = f * 4096" "256 \<le> f" "f < total_frames s" "f < PHYSMEM_MAX_FRAMES"
    "frame_is_marked s f" "unat p + 4096 < 2 ^ 64" "p \<noteq> 0"
proof -
  have p: "unat p = unat p div 4096 * 4096"
    using assms(1) div_mult_mod_eq [of "unat p" 4096] unfolding page_ok_def by linarith
  have "unat p div 4096 < PHYSMEM_MAX_FRAMES" using assms by (simp add: page_ok_def physmem_inv_def)
  moreover from this have "unat p + 4096 < 2 ^ 64" using p by (simp add: PHYSMEM_MAX_FRAMES_def)
  moreover have "p \<noteq> 0" using assms(1) by (auto simp: page_ok_def)
  ultimately show thesis using that [of "unat p div 4096"] p assms(1) by (simp add: page_ok_def)
qed

lemma page_ok_class: "page_ok s ci p os \<Longrightarrow> page_ok s cj p os' \<Longrightarrow> ci = cj"
  by (auto simp: page_ok_def)

lemma page_ok_obj:
  assumes "page_ok s ci p os" "physmem_inv s" "ci < 8" "x \<in> slab_obj ci p ` {..<slab_cap ci}"
  shows "slab_page_of x = p" "x \<noteq> 0" "x \<noteq> p"
proof -
  obtain f where f: "unat p = f * 4096" "f < PHYSMEM_MAX_FRAMES" "unat p + 4096 < 2 ^ 64"
    using assms(1,2) by (rule page_ok_frame)
  obtain i where i: "x = slab_obj ci p i" "i < slab_cap ci" using assms(4) by auto
  show "slab_page_of x = p" unfolding i(1) by (rule slab_page_of_obj [OF assms(3) i(2) f(1,2)])
  have "unat p < unat x"
    using slab_obj_unat(1) [OF assms(3) i(2) f(3)] slab_geometry(2) [OF assms(3)] i(1) by simp
  then show "x \<noteq> 0" "x \<noteq> p" by auto
qed

lemma page_ok_cong:
  assumes "page_ok s ci p os" "slab_mem s' p = slab_mem s p" "total_frames s' = total_frames s"
    "frame_is_marked s (unat p div 4096) \<Longrightarrow> frame_is_marked s' (unat p div 4096)"
    "\<And>x. x \<in> set os \<Longrightarrow> obj_next s' x = obj_next s x"
  shows "page_ok s' ci p os"
proof -
  have "chain (obj_next s) (sp_free_list (slab_mem s p)) os" using assms(1) by (simp add: page_ok_def)
  then have "chain (obj_next s') (sp_free_list (slab_mem s p)) os"
    by (rule chain_cong) (rule assms(5))
  with assms(1-4) show ?thesis by (simp add: page_ok_def)
qed


lemma page_ok_link_cong:
  assumes "page_ok s ci p os" "(slab_mem s' p)\<lparr>sp_next := 0\<rparr> = (slab_mem s p)\<lparr>sp_next := 0\<rparr>"
    "total_frames s' = total_frames s" "frame_is_marked s' = frame_is_marked s"
    "\<And>x. x \<in> set os \<Longrightarrow> obj_next s' x = obj_next s x"
  shows "page_ok s' ci p os"
proof -
  obtain n where "slab_mem s' p = (slab_mem s p)\<lparr>sp_next := n\<rparr>"
    using assms(2) by (cases "slab_mem s p"; cases "slab_mem s' p") simp
  then have "page_ok (s\<lparr>slab_mem := slab_mem s'\<rparr>) ci p os"
    using assms(1) by (simp add: page_ok_def frame_is_marked_def)
  then show ?thesis
    by (rule page_ok_cong) (use assms in \<open>simp_all add: frame_is_marked_def fun_eq_iff\<close>)
qed

text \<open>The frame allocator's view does not depend on the slab's fields.\<close>

lemma slab_update_frame [frame_simps, simp]:
  "frame_is_marked (s\<lparr>slab_mem := m\<rparr>) = frame_is_marked s"
  "frame_is_marked (s\<lparr>obj_next := o'\<rparr>) = frame_is_marked s"
  "frame_is_marked (s\<lparr>slab_caches := c\<rparr>) = frame_is_marked s"
  "physmem_inv (s\<lparr>slab_mem := m\<rparr>) = physmem_inv s"
  "physmem_inv (s\<lparr>obj_next := o'\<rparr>) = physmem_inv s"
  "physmem_inv (s\<lparr>slab_caches := c\<rparr>) = physmem_inv s"
  by (simp_all add: frame_is_marked_def physmem_inv_def free_set_def fun_eq_iff)

lemma page_link_update [simp]:
  "page_link (s\<lparr>slab_mem := (slab_mem s)(p := h)\<rparr>) = (page_link s)(p := sp_next h)"
  "page_link (s\<lparr>obj_next := o'\<rparr>) = page_link s"
  "page_link (s\<lparr>slab_caches := c\<rparr>) = page_link s"
  by (simp_all add: page_link_def fun_eq_iff)

section \<open>Taking an object\<close>

lemma slab_rep_class:
  "slab_rep s P F E \<Longrightarrow> ci < 8 \<Longrightarrow> cj < 8 \<Longrightarrow> p \<in> slab_pages P F ci \<Longrightarrow> p \<in> slab_pages P F cj \<Longrightarrow> ci = cj"
  using slab_rep_page_ok page_ok_class by blast

lemma slab_repD:
  assumes "slab_rep s P F E" "ci < 8"
  shows "chain (page_link s) (sc_partial (slab_caches s ! ci)) (P ci)"
    "chain (page_link s) (sc_full (slab_caches s ! ci)) (F ci)"
    "p \<in> set (P ci) \<Longrightarrow> E p \<noteq> []" "p \<in> set (F ci) \<Longrightarrow> E p = []"
    "ci < length (slab_caches s)" "physmem_inv s"
  using assms by (auto simp: slab_rep_def)

text \<open>One page changes: its header, and the free list it heads.\<close>

lemma slab_rep_step:
  assumes rep: "slab_rep s P F E" and ci: "ci < 8" and p: "p \<in> slab_pages P F ci"
    and same: "physmem_inv s'" "total_frames s' = total_frames s"
      "frame_is_marked s' = frame_is_marked s" "slab_ready s'"
      "length (slab_caches s') = 8"
    and caches: "\<And>cj. cj < 8 \<Longrightarrow> cj \<noteq> ci \<Longrightarrow> slab_caches s' ! cj = slab_caches s ! cj"
    and link: "\<And>q. q \<noteq> p \<Longrightarrow> q \<notin> set (F ci) \<Longrightarrow> page_link s' q = page_link s q"
    and mem: "\<And>q. q \<noteq> p \<Longrightarrow> (slab_mem s' q)\<lparr>sp_next := 0\<rparr> = (slab_mem s q)\<lparr>sp_next := 0\<rparr>"
    and nxt: "\<And>x. slab_page_of x \<noteq> p \<Longrightarrow> obj_next s' x = obj_next s x"
    and chains: "chain (page_link s') (sc_partial (slab_caches s' ! ci)) ps"
      "chain (page_link s') (sc_full (slab_caches s' ! ci)) fs"
    and sets: "set ps \<union> set fs = slab_pages P F ci" "p \<in> set ps \<longleftrightarrow> os \<noteq> []" "p \<in> set fs \<longleftrightarrow> os = []"
      "set ps - {p} = set (P ci) - {p}" "set fs - {p} = set (F ci) - {p}"
    and pok: "page_ok s' ci p os"
  shows "slab_rep s' (P(ci := ps)) (F(ci := fs)) (E(p := os))"
proof -
  have inv: "physmem_inv s" using rep by (simp add: slab_rep_def)
  have ok: "page_ok s' cj q (E q)" if "cj < 8" "q \<in> slab_pages P F cj" "q \<noteq> p" for cj q
  proof -
    have q: "page_ok s cj q (E q)" using rep that by (intro slab_rep_page_ok)
    have "obj_next s' x = obj_next s x" if "x \<in> set (E q)" for x
    proof (rule nxt)
      have "x \<in> slab_obj cj q ` {..<slab_cap cj}" using q that by (auto simp: page_ok_def)
      with page_ok_obj(1) [OF q inv \<open>cj < 8\<close>] \<open>q \<noteq> p\<close> show "slab_page_of x \<noteq> p" by simp
    qed
    then show ?thesis
      using q same mem [OF \<open>q \<noteq> p\<close>] by (intro page_ok_link_cong [OF q]) simp_all
  qed
  have other: "chain (page_link s') (sc_partial (slab_caches s' ! cj)) (P cj) \<and>
               chain (page_link s') (sc_full (slab_caches s' ! cj)) (F cj)"
    if cj: "cj < 8" "cj \<noteq> ci" for cj
  proof -
    have "page_link s' q = page_link s q" if "q \<in> slab_pages P F cj" for q
      using that cj p ci slab_rep_class [OF rep] by (intro link) (auto simp: slab_pages_def)
    then show ?thesis
      using slab_repD(1,2) [OF rep cj(1)] caches [OF cj]
      by (auto simp: slab_pages_def intro: chain_cong)
  qed
  have np: "p \<notin> slab_pages P F cj" if "cj < 8" "cj \<noteq> ci" for cj
    using slab_rep_class [OF rep that(1) ci _ p] that(2) by blast
  have "page_ok s' cj q ((E(p := os)) q) \<and> (E(p := os)) q \<noteq> []"
    if "cj < 8" "q \<in> set ((P(ci := ps)) cj)" for cj q
    using that ok [of cj q] np [of cj] pok sets slab_repD(3) [OF rep, of cj q]
    by (cases "q = p"; cases "cj = ci") (auto simp: slab_pages_def)
  moreover have "page_ok s' cj q ((E(p := os)) q) \<and> (E(p := os)) q = []"
    if "cj < 8" "q \<in> set ((F(ci := fs)) cj)" for cj q
    using that ok [of cj q] np [of cj] pok sets slab_repD(4) [OF rep, of cj q]
    by (cases "q = p"; cases "cj = ci") (auto simp: slab_pages_def)
  moreover have "chain (page_link s') (sc_partial (slab_caches s' ! cj)) ((P(ci := ps)) cj) \<and>
      chain (page_link s') (sc_full (slab_caches s' ! cj)) ((F(ci := fs)) cj)" if "cj < 8" for cj
    using that chains other by (cases "cj = ci") auto
  ultimately show ?thesis
    unfolding slab_rep_def using same by blast
qed


lemma page_ok_popped:
  assumes "page_ok s ci p (x # os)" "physmem_inv s" "ci < 8"
    and "slab_mem s' p = (slab_mem s p)\<lparr>sp_free_list := obj_next s x,
           sp_free_count := sp_free_count (slab_mem s p) - 1, sp_next := n\<rparr>"
    and "total_frames s' = total_frames s" "frame_is_marked s' = frame_is_marked s"
      "obj_next s' = obj_next s"
  shows "page_ok s' ci p os"
proof -
  have "unat (sp_free_count (slab_mem s p)) = Suc (length os)" using assms(1) by (simp add: page_ok_def)
  then have "unat (sp_free_count (slab_mem s p) - 1) = length os"
    by (subst unat_minus_one) auto
  with assms show ?thesis by (auto simp: page_ok_def)
qed

lemma slab_pop_rep:
  assumes rep: "slab_rep s P F E" and ci: "ci < 8" and P: "P ci = p # ps" and E: "E p = x # os"
    and pop: "slab_pop ci p s = (r, s')"
  shows "r = x"
    and "slab_rep s' (P(ci := if os = [] then ps else P ci)) (F(ci := if os = [] then p # F ci else F ci))
           (E(p := os))"
proof -
  have p: "p \<in> slab_pages P F ci" by (simp add: slab_pages_def P)
  then have pok: "page_ok s ci p (x # os)" using slab_rep_page_ok [OF rep ci] E by metis
  note D = slab_repD [OF rep ci]
  define h where "h = slab_mem s p"
  define c where "c = slab_caches s ! ci"
  have fl: "sp_free_list h = x" using pok by (simp add: page_ok_def h_def)
  then show "r = x" using pop by (auto simp: slab_pop_def Let_def h_def split: if_splits)
  have cnt: "sp_free_count h - 1 = 0 \<longleftrightarrow> os = []"
  proof -
    have "unat (sp_free_count h) = Suc (length os)" using pok by (simp add: page_ok_def h_def)
    then have "unat (sp_free_count h - 1) = length os" by (subst unat_minus_one) auto
    then show ?thesis by (metis length_0_conv unat_eq_0)
  qed
  have pn0: "p \<noteq> 0" using chain_nonzero [OF D(1)] P by auto
  have ps: "p \<notin> set ps" using chain_distinct [OF D(1)] P by simp
  have pF: "p \<notin> set (F ci)" using D(4) [of p] E by auto
  have part: "sc_partial c = p" "chain (page_link s) (sp_next h) ps"
    using D(1) by (auto simp: P c_def h_def page_link_def)
  let ?h' = "h\<lparr>sp_free_list := obj_next s x, sp_free_count := sp_free_count h - 1\<rparr>"
  show "slab_rep s' (P(ci := if os = [] then ps else P ci)) (F(ci := if os = [] then p # F ci else F ci))
           (E(p := os))"
  proof (cases "os = []")
    case False
    then have s': "s' = s\<lparr>slab_mem := (slab_mem s)(p := ?h')\<rparr>"
      using pop cnt fl by (auto simp: slab_pop_def Let_def h_def)
    have link_id: "(page_link s)(p := sp_next h) = page_link s" by (simp add: page_link_def h_def fun_eq_iff)
    have pok': "page_ok s' ci p os"
      using pok D(6) ci by (rule page_ok_popped [where n = "sp_next h"])
        (simp_all add: s' h_def)
    have "slab_rep s' (P(ci := P ci)) (F(ci := F ci)) (E(p := os))"
      by (rule slab_rep_step [OF rep ci p])
         (use False D pok' rep pF in \<open>auto simp: s' link_id slab_rep_def P slab_pages_def\<close>)
    then show ?thesis using False by simp
  next
    case True
    then have s': "s' = s\<lparr>slab_mem := (slab_mem s)(p := ?h'\<lparr>sp_next := sc_full c\<rparr>),
        slab_caches := (slab_caches s)[ci := c\<lparr>sc_partial := sp_next h, sc_full := p\<rparr>]\<rparr>"
      using pop cnt fl by (auto simp: slab_pop_def Let_def h_def c_def)
    have pok': "page_ok s' ci p os"
      using pok D(6) ci by (rule page_ok_popped [where n = "sc_full c"])
        (simp_all add: s' h_def)
    have "slab_rep s' (P(ci := ps)) (F(ci := p # F ci)) (E(p := os))"
      by (rule slab_rep_step [OF rep ci p])
         (use True D pok' rep pF ps pn0 part in \<open>auto simp: s' slab_rep_def P slab_pages_def c_def\<close>)
    then show ?thesis using True by simp
  qed
qed


section \<open>A fresh page\<close>

lemma fill_free_list:
  assumes "inj_on obj {..<n}" "\<And>i. i < n \<Longrightarrow> obj i \<noteq> (0 :: u64)"
    and "fold (\<lambda>i (fl, on). (obj i, on(obj i := fl))) [0..<n] (0, on0) = (fl, on)"
  shows "chain on fl (rev (map obj [0..<n]))" "\<And>x. x \<notin> obj ` {..<n} \<Longrightarrow> on x = on0 x"
proof -
  define g where "g = (\<lambda>i (fl :: u64, on). (obj i, on(obj i := fl)))"
  have g: "g i (fl, on) = (obj i, on(obj i := fl))" for i fl on by (simp add: g_def)
  have "chain on fl (rev (map obj [0..<n])) \<and> (\<forall>x. x \<notin> obj ` {..<n} \<longrightarrow> on x = on0 x)"
    using assms unfolding g_def [symmetric]
  proof (induction n arbitrary: fl on)
    case (Suc n)
    obtain fl' on' where f: "fold g [0..<n] (0, on0) = (fl', on')" by fastforce
    with Suc.prems(3) have eq: "fl = obj n" "on = on'(obj n := fl')" by (auto simp: g)
    have "inj_on obj {..<n}" using Suc.prems(1) by (rule inj_on_subset) auto
    then have IH: "chain on' fl' (rev (map obj [0..<n]))" "\<forall>x. x \<notin> obj ` {..<n} \<longrightarrow> on' x = on0 x"
      using Suc.IH [OF _ _ f] Suc.prems(2) by auto
    have "obj n \<notin> obj ` {..<n}" using Suc.prems(1) by (force simp: inj_on_def)
    then have "chain (on'(obj n := fl')) fl' (rev (map obj [0..<n]))"
      using IH(1) by (subst chain_upd) auto
    with IH(2) Suc.prems(2) show ?case
      by (auto simp: eq(1)) (auto simp: eq(2) lessThan_Suc)
  qed simp
  then show "chain on fl (rev (map obj [0..<n]))" "\<And>x. x \<notin> obj ` {..<n} \<Longrightarrow> on x = on0 x"
    by blast+
qed

lemma unat_ucast_u32: "unat (ucast (x :: u32) :: u64) = unat x"
  using unat_u32_less [of x] by (simp add: unsigned_ucast_eq take_bit_eq_mod)

lemma ucast_0_u64: "(ucast (x :: u32) :: u64) = 0 \<longleftrightarrow> x = 0"
  using unat_ucast_u32 [of x] by (metis unat_eq_0)

lemma alloc_frame_slab_fields [frame_simps]:
  assumes "physmem_alloc_frame s = (a, s')"
  shows "slab_mem s' = slab_mem s" "obj_next s' = obj_next s" "slab_caches s' = slab_caches s"
    "slab_ready s' = slab_ready s"
  using assms
  by (auto simp: physmem_alloc_frame_def mark_frame_def Let_def split: option.splits if_splits)

lemma slab_page_create_fail: "slab_page_create ci s = (0, s') \<Longrightarrow> physmem_inv s \<Longrightarrow> s' = s"
proof -
  assume cr: "slab_page_create ci s = (0, s')" and inv: "physmem_inv s"
  obtain phys s1 where al: "physmem_alloc_frame s = (phys, s1)" by fastforce
  from inv al show "s' = s"
  proof (cases rule: alloc_frame_cases)
    case full
    with cr al show ?thesis by (simp add: slab_page_create_def)
  next
    case (frame f)
    then have "f \<noteq> 0" "f < PHYSMEM_MAX_FRAMES" using inv by (auto simp: mem_free_set physmem_inv_def)
    then have "phys \<noteq> 0" unfolding frame(4) using frame_addr_eq_0 [of f] by (simp del: of_nat_mult)
    moreover from this have "(ucast phys :: u64) \<noteq> 0"
      by (metis ucast_0_u64)
    ultimately show ?thesis using cr al
      by (auto simp: slab_page_create_def Let_def split: prod.splits)
  qed
qed

lemma slab_page_create_new:
  assumes "slab_page_create ci s = (p, s')" "p \<noteq> 0" "physmem_inv s" "ci < 8"
  obtains f on where "unat p = f * 4096" "256 \<le> f" "f < total_frames s" "\<not> frame_is_marked s f"
    "physmem_inv s'" "total_frames s' = total_frames s" "frame_is_marked s' = (frame_is_marked s)(f := True)"
    "slab_caches s' = slab_caches s" "slab_ready s' = slab_ready s"
    "page_link s' = (page_link s)(p := 0)" "\<And>q. q \<noteq> p \<Longrightarrow> slab_mem s' q = slab_mem s q"
    "\<And>x. slab_page_of x \<noteq> p \<Longrightarrow> obj_next s' x = obj_next s x"
    "page_ok s' ci p (rev (map (slab_obj ci p) [0..<slab_cap ci]))"
proof -
  obtain phys s1 where al: "physmem_alloc_frame s = (phys, s1)" by fastforce
  with assms(1,2) have "phys \<noteq> 0" by (auto simp: slab_page_create_def)
  from assms(3) al show thesis
  proof (cases rule: alloc_frame_cases)
    case (frame f)
    then have f: "f < total_frames s" "\<not> frame_is_marked s f" by (simp_all add: mem_free_set)
    have lt: "f < PHYSMEM_MAX_FRAMES" using f assms(3) by (simp add: physmem_inv_def)
    define fl_on where "fl_on = fold (\<lambda>i (fl, on). (slab_obj ci (ucast phys) i, on(slab_obj ci (ucast phys) i := fl)))
        [0..<slab_cap ci] (0, obj_next s1)"
    obtain fl on where fl: "fl_on = (fl, on)" by fastforce
    have cr: "p = ucast phys" "\<exists>cap. unat (cap :: u16) = slab_cap ci \<and>
      s' = s1\<lparr>slab_mem := (slab_mem s1)(p := \<lparr>sp_magic = SLAB_MAGIC, sp_next = 0, sp_obj_size = cache_sizes ! ci,
                   sp_capacity = cap, sp_free_count = cap, sp_cache_idx = of_nat ci, sp_pad = 0,
                   sp_free_list = fl\<rparr>), obj_next := on\<rparr>"
      using assms(1) \<open>phys \<noteq> 0\<close> fl slab_cap_word [OF assms(4)] unfolding fl_on_def
      by (auto simp: slab_page_create_def al Let_def slab_obj_def)
    obtain cap :: u16 where cap: "unat cap = slab_cap ci" and
      s': "s' = s1\<lparr>slab_mem := (slab_mem s1)(p := \<lparr>sp_magic = SLAB_MAGIC, sp_next = 0,
               sp_obj_size = cache_sizes ! ci, sp_capacity = cap, sp_free_count = cap,
               sp_cache_idx = of_nat ci, sp_pad = 0, sp_free_list = fl\<rparr>), obj_next := on\<rparr>"
      using cr(2) by blast
    note sf = alloc_frame_slab_fields [OF al]
    have p: "unat p = f * 4096" using unat_frame_addr [OF lt]
      by (simp add: cr(1) frame(4) unat_ucast_u32 del: of_nat_mult)
    then have plim: "unat p + 4096 < 2 ^ 64" using lt by (simp add: PHYSMEM_MAX_FRAMES_def)
    have inj: "inj_on (slab_obj ci p) {..<slab_cap ci}"
      using slab_obj_inj [OF assms(4) _ _ plim] by (auto simp: inj_on_def)
    have nz: "slab_obj ci p i \<noteq> 0" if "i < slab_cap ci" for i
    proof -
      have "unat (slab_obj ci p i) \<noteq> 0"
        using slab_obj_unat(1) [OF assms(4) that plim] slab_geometry(2) [OF assms(4)] by simp
      then show ?thesis by auto
    qed
    have fill: "chain on fl (rev (map (slab_obj ci p) [0..<slab_cap ci]))"
      "\<And>x. x \<notin> slab_obj ci p ` {..<slab_cap ci} \<Longrightarrow> on x = obj_next s1 x"
      using fill_free_list [OF inj nz fl [unfolded fl_on_def cr(1) [symmetric]]] by simp_all
    have pg: "slab_page_of x = p" if "x \<in> slab_obj ci p ` {..<slab_cap ci}" for x
      using that slab_page_of_obj [OF assms(4) _ p lt] by auto
    have marked: "frame_is_marked s' = (frame_is_marked s)(f := True)"
      using f lt by (simp add: s' frame(5) fun_eq_iff)
    show thesis
    proof (rule that [OF p frame(3) f])
      show "physmem_inv s'" using physmem_inv_alloc_frame [OF assms(3) al] by (simp add: s')
      show "total_frames s' = total_frames s" by (simp add: s' frame(5))
      show "page_link s' = (page_link s)(p := 0)" by (simp add: s' page_link_def sf fun_eq_iff)
      show "obj_next s' x = obj_next s x" if "slab_page_of x \<noteq> p" for x
        using fill(2) [of x] pg [of x] that by (auto simp: s' sf)
      show "page_ok s' ci p (rev (map (slab_obj ci p) [0..<slab_cap ci]))"
        using p frame(3) f(1) cap fill(1) marked assms(4)
        by (auto simp: page_ok_def s' unat_of_nat frame(5))
      show "frame_is_marked s' = (frame_is_marked s)(f := True)" by (rule marked)
    qed (simp_all add: s' sf)
  qed (use \<open>phys \<noteq> 0\<close> in simp)
qed


lemma slab_rep_fresh:
  assumes rep: "slab_rep s P F E" and ci: "ci < 8" and P: "P ci = []"
    and cr: "slab_page_create ci s = (p, s1)" "p \<noteq> 0"
  shows "slab_rep (s1\<lparr>slab_caches := (slab_caches s1)[ci := (slab_caches s1 ! ci)\<lparr>sc_partial := p\<rparr>]\<rparr>)
           (P(ci := [p])) F (E(p := rev (map (slab_obj ci p) [0..<slab_cap ci])))"
    (is "slab_rep ?s' _ _ _")
    and "\<And>cj. cj < 8 \<Longrightarrow> p \<notin> slab_pages P F cj"
proof -
  note D = slab_repD [OF rep ci]
  obtain f where f: "unat p = f * 4096" "256 \<le> f" "f < total_frames s" "\<not> frame_is_marked s f"
    "physmem_inv s1" "total_frames s1 = total_frames s" "frame_is_marked s1 = (frame_is_marked s)(f := True)"
    "slab_caches s1 = slab_caches s" "slab_ready s1 = slab_ready s"
    "page_link s1 = (page_link s)(p := 0)" "\<And>q. q \<noteq> p \<Longrightarrow> slab_mem s1 q = slab_mem s q"
    "\<And>x. slab_page_of x \<noteq> p \<Longrightarrow> obj_next s1 x = obj_next s x"
    "page_ok s1 ci p (rev (map (slab_obj ci p) [0..<slab_cap ci]))"
    using cr D(6) ci by (rule slab_page_create_new) blast
  have np: "p \<notin> slab_pages P F cj" if "cj < 8" for cj
  proof
    assume "p \<in> slab_pages P F cj"
    then have "page_ok s cj p (E p)" by (rule slab_rep_page_ok [OF rep that])
    then show False using f(1,4) by (simp add: page_ok_def)
  qed
  show "\<And>cj. cj < 8 \<Longrightarrow> p \<notin> slab_pages P F cj" by (rule np)
  have ok: "page_ok s1 cj q (E q)" if q: "cj < 8" "q \<in> slab_pages P F cj" for cj q
  proof (rule page_ok_cong)
    show qok: "page_ok s cj q (E q)" using slab_rep_page_ok [OF rep q] .
    have "q \<noteq> p" using q np by blast
    then show "slab_mem s1 q = slab_mem s q" by (rule f(11))
    show "obj_next s1 x = obj_next s x" if "x \<in> set (E q)" for x
    proof (rule f(12))
      have "x \<in> slab_obj cj q ` {..<slab_cap cj}" using qok that by (auto simp: page_ok_def)
      then show "slab_page_of x \<noteq> p" using page_ok_obj(1) [OF qok D(6) q(1)] \<open>q \<noteq> p\<close> by simp
    qed
  qed (simp_all add: f(6,7))
  have ok': "page_ok ?s' cj q os = page_ok s1 cj q os" for cj q os by (simp add: page_ok_def)
  have cap: "slab_cap ci \<noteq> 0" using slab_geometry(4) [OF ci] by simp
  have "chain (page_link ?s') (sc_partial (slab_caches ?s' ! cj)) ((P(ci := [p])) cj) \<and>
        chain (page_link ?s') (sc_full (slab_caches ?s' ! cj)) (F cj)" if cj: "cj < 8" for cj
    using slab_repD(1,2) [OF rep cj] np [OF cj] cr(2) D(5)
    by (cases "cj = ci") (simp_all add: f(8,10) slab_pages_def)
  moreover have "page_ok ?s' cj q ((E(p := rev (map (slab_obj ci p) [0..<slab_cap ci]))) q) \<and>
        (E(p := rev (map (slab_obj ci p) [0..<slab_cap ci]))) q \<noteq> []"
    if cj: "cj < 8" "q \<in> set ((P(ci := [p])) cj)" for cj q
    using cj ok [OF cj(1), of q] np [OF cj(1)] f(13) cap slab_repD(3) [OF rep cj(1), of q]
    unfolding ok' by (cases "cj = ci"; cases "q = p") (auto simp: slab_pages_def)
  moreover have "page_ok ?s' cj q ((E(p := rev (map (slab_obj ci p) [0..<slab_cap ci]))) q) \<and>
        (E(p := rev (map (slab_obj ci p) [0..<slab_cap ci]))) q = []"
    if cj: "cj < 8" "q \<in> set (F cj)" for cj q
    using cj ok [OF cj(1), of q] np [OF cj(1)] slab_repD(4) [OF rep cj(1), of q]
    unfolding ok' by (auto simp: slab_pages_def)
  moreover have "physmem_inv ?s'" "slab_ready ?s'" "length (slab_caches ?s') = 8"
    using f(5,8,9) rep by (simp_all add: slab_rep_def)
  ultimately show "slab_rep ?s' (P(ci := [p])) F (E(p := rev (map (slab_obj ci p) [0..<slab_cap ci])))"
    unfolding slab_rep_def by blast
qed


section \<open>The allocation refines the set of blocks\<close>

lemma slab_blocks_page:
  assumes rep: "slab_rep s P F E" and b: "(x, m) \<in> slab_blocks P F E"
  obtains ci p i where "ci < 8" "p \<in> slab_pages P F ci" "i < slab_cap ci" "x = slab_obj ci p i"
    "m = slab_size ci" "x \<notin> set (E p)" "slab_page_of x = p" "x \<noteq> 0"
proof -
  obtain ci p i where c: "ci < 8" "p \<in> slab_pages P F ci" "i < slab_cap ci" "x = slab_obj ci p i"
    "m = slab_size ci" "x \<notin> set (E p)"
    using b by (auto simp: slab_blocks_def)
  have "x \<in> slab_obj ci p ` {..<slab_cap ci}" using c by simp
  then have "slab_page_of x = p" "x \<noteq> 0"
    using page_ok_obj [OF slab_rep_page_ok [OF rep c(1,2)] _ c(1)] rep by (auto simp: slab_rep_def)
  with c show thesis by (rule that)
qed

lemma slab_blocks_take:
  assumes rep: "slab_rep s P F E" and ci: "ci < 8" and p: "p \<in> slab_pages P F ci"
    and x: "x = slab_obj ci p i" "i < slab_cap ci" "E p = x # os"
    and pages: "\<And>cj. cj < 8 \<Longrightarrow> slab_pages P' F' cj = slab_pages P F cj"
  shows "slab_blocks P' F' (E(p := os)) = insert (x, slab_size ci) (slab_blocks P F E)"
    and "x \<notin> fst ` slab_blocks P F E"
proof -
  have inv: "physmem_inv s" using rep by (simp add: slab_rep_def)
  have pok: "page_ok s ci p (x # os)" using slab_rep_page_ok [OF rep ci p] x(3) by simp
  then have "chain (obj_next s) (sp_free_list (slab_mem s p)) (x # os)" unfolding page_ok_def by blast
  then have "x \<notin> set os" using chain_distinct by fastforce
  have pg: "slab_page_of x = p" using page_ok_obj(1) [OF pok inv ci] x by simp
  show "x \<notin> fst ` slab_blocks P F E"
  proof
    assume "x \<in> fst ` slab_blocks P F E"
    then obtain m where "(x, m) \<in> slab_blocks P F E" by auto
    with rep obtain q where "x \<notin> set (E q)" "slab_page_of x = q" by (rule slab_blocks_page)
    with pg x(3) show False by simp
  qed
  show "slab_blocks P' F' (E(p := os)) = insert (x, slab_size ci) (slab_blocks P F E)" (is "?L = ?R")
  proof
    show "?L \<subseteq> ?R"
    proof
      fix z assume "z \<in> ?L"
      then obtain cj q j where z: "z = (slab_obj cj q j, slab_size cj)" "cj < 8" "q \<in> slab_pages P F cj"
        "j < slab_cap cj" "slab_obj cj q j \<notin> set ((E(p := os)) q)"
        unfolding slab_blocks_def using pages by blast
      show "z \<in> ?R"
      proof (cases "q = p \<and> slab_obj cj q j = x")
        case True
        then have "cj = ci" using slab_rep_class [OF rep z(2) ci] z(3) p by blast
        with True z(1) show ?thesis by auto
      next
        case False
        then have "slab_obj cj q j \<notin> set (E q)" using z(5) x(3) by (auto split: if_splits)
        with z show ?thesis unfolding slab_blocks_def by blast
      qed
    qed
    show "?R \<subseteq> ?L"
    proof
      fix z assume z: "z \<in> ?R"
      show "z \<in> ?L"
      proof (cases "z = (x, slab_size ci)")
        case True
        then show ?thesis unfolding slab_blocks_def using ci p x pages [OF ci] \<open>x \<notin> set os\<close> by fastforce
      next
        case False
        with z obtain cj q j where "z = (slab_obj cj q j, slab_size cj)" "cj < 8" "q \<in> slab_pages P F cj"
          "j < slab_cap cj" "slab_obj cj q j \<notin> set (E q)"
          unfolding slab_blocks_def by blast
        moreover from this have "slab_obj cj q j \<notin> set ((E(p := os)) q)" using x(3) by auto
        ultimately show ?thesis unfolding slab_blocks_def using pages by blast
      qed
    qed
  qed
qed

lemma slab_blocks_fresh:
  assumes "ci < 8" "P ci = []" "\<And>cj. cj < 8 \<Longrightarrow> p \<notin> slab_pages P F cj"
  shows "slab_blocks (P(ci := [p])) F (E(p := rev (map (slab_obj ci p) [0..<slab_cap ci]))) = slab_blocks P F E"
proof -
  let ?E = "E(p := rev (map (slab_obj ci p) [0..<slab_cap ci]))"
  have "cj < 8 \<and> q \<in> slab_pages (P(ci := [p])) F cj \<and> i < slab_cap cj \<and> slab_obj cj q i \<notin> set (?E q) \<longleftrightarrow>
        cj < 8 \<and> q \<in> slab_pages P F cj \<and> i < slab_cap cj \<and> slab_obj cj q i \<notin> set (E q)" for cj q i
  proof (cases "q = p")
    case True
    then show ?thesis using assms(3) [of cj] by (cases "cj = ci") (auto simp: slab_pages_def)
  next
    case False
    then show ?thesis using assms(2) by (cases "cj = ci") (auto simp: slab_pages_def)
  qed
  then show ?thesis unfolding slab_blocks_def by simp
qed


lemma length_cache_sizes: "length cache_sizes = 8"
  by (simp add: cache_sizes_def)

lemma cache_index_spec:
  assumes "sz \<le> SLAB_MAX_OBJ"
  obtains ci where "cache_index_for_size sz = int ci" "ci < 8" "unat sz \<le> slab_size ci"
    "\<And>cj. cj < ci \<Longrightarrow> slab_size cj < unat sz"
proof -
  have conv: "sz \<le> ucast c \<longleftrightarrow> unat sz \<le> unat c" for c :: u16
    using unat_u16_less [of c] by (simp add: word_le_nat_alt unsigned_ucast_eq take_bit_eq_mod)
  have "\<exists>x \<in> set cache_sizes. sz \<le> ucast x" using assms by (simp add: cache_sizes_def SLAB_MAX_OBJ_def)
  then obtain ci where ci: "first_idx (\<lambda>c. sz \<le> ucast c) cache_sizes = Some ci"
    using first_idx_exists by metis
  then have "ci < 8" "unat sz \<le> slab_size ci" "\<And>cj. cj < ci \<Longrightarrow> slab_size cj < unat sz"
    unfolding first_idx_Some_iff by (auto simp: slab_size_def conv not_le length_cache_sizes)
  with ci show thesis by (intro that) (simp_all add: cache_index_for_size_def)
qed

lemma slab_pop_holds:
  assumes rep: "slab_rep s P F E" and ci: "ci < 8" and P: "P ci = p # ps"
    and pop: "slab_pop ci p s = (r, s')"
  shows "r \<noteq> 0 \<and> r \<notin> fst ` slab_blocks P F E \<and>
         slab_holds s' (insert (r, slab_size ci) (slab_blocks P F E))"
proof -
  have p: "p \<in> slab_pages P F ci" by (simp add: slab_pages_def P)
  have "E p \<noteq> []" using slab_repD(3) [OF rep ci] P by simp
  then obtain x os where E: "E p = x # os" by (cases "E p") auto
  then have pok: "page_ok s ci p (x # os)" using slab_rep_page_ok [OF rep ci p] by simp
  then have "x \<in> slab_obj ci p ` {..<slab_cap ci}" by (simp add: page_ok_def)
  moreover from this have "x \<noteq> 0" using page_ok_obj(2) [OF pok slab_repD(6) [OF rep ci] ci] by simp
  moreover obtain i where i: "x = slab_obj ci p i" "i < slab_cap ci" using calculation(1) by auto
  moreover note slab_pop_rep [of s P F E, OF rep ci P E pop]
  moreover note slab_blocks_take [OF rep ci p i E]
  ultimately show ?thesis
    unfolding slab_holds_def by (intro conjI exI) (auto simp: slab_pages_def P)
qed

lemma slab_alloc_holds:
  assumes "slab_holds s L" "slab_alloc sz s = (r, s')"
  shows "(r = 0 \<and> s' = s) \<or>
         (r \<noteq> 0 \<and> (\<exists>ci < 8. unat sz \<le> slab_size ci \<and> (\<forall>cj < ci. slab_size cj < unat sz) \<and>
             r \<notin> fst ` L \<and> slab_holds s' (insert (r, slab_size ci) L)))"
proof (cases "sz = 0 \<or> sz > SLAB_MAX_OBJ")
  case True
  then show ?thesis using assms(2) by (auto simp: slab_alloc_def)
next
  case False
  then obtain ci where ci: "cache_index_for_size sz = int ci" "ci < 8" "unat sz \<le> slab_size ci"
    "\<And>cj. cj < ci \<Longrightarrow> slab_size cj < unat sz"
    using cache_index_spec [of sz] by (auto simp: not_less)
  obtain P F E where rep: "slab_rep s P F E" and L: "L = slab_blocks P F E"
    using assms(1) by (auto simp: slab_holds_def)
  note D = slab_repD [OF rep ci(2)]
  have rdy: "slab_ready s" using rep by (simp add: slab_rep_def)
  show ?thesis
  proof (cases "P ci")
    case (Cons p ps)
    then have "sc_partial (slab_caches s ! ci) = p" "p \<noteq> 0" using D(1) by auto
    then have "slab_pop ci p s = (r, s')"
      using assms(2) False ci(1) rdy by (simp add: slab_alloc_def Let_def)
    with slab_pop_holds [OF rep ci(2) Cons] show ?thesis using ci L by auto
  next
    case Nil
    then have part: "sc_partial (slab_caches s ! ci) = 0" using D(1) by simp
    obtain p s1 where cr: "slab_page_create ci s = (p, s1)" by fastforce
    show ?thesis
    proof (cases "p = 0")
      case True
      then have "s1 = s" using slab_page_create_fail cr D(6) by blast
      then show ?thesis using True assms(2) False ci(1) rdy part cr by (simp add: slab_alloc_def Let_def)
    next
      case nz: False
      let ?s2 = "s1\<lparr>slab_caches := (slab_caches s1)[ci := (slab_caches s1 ! ci)\<lparr>sc_partial := p\<rparr>]\<rparr>"
      note fr = slab_rep_fresh [OF rep ci(2) Nil cr nz]
      have "slab_pop ci p ?s2 = (r, s')"
        using assms(2) False ci(1) rdy part cr nz by (simp add: slab_alloc_def Let_def)
      from slab_pop_holds [OF fr(1) ci(2) _ this] slab_blocks_fresh [OF ci(2) Nil fr(2)]
      show ?thesis using ci L by auto
    qed
  qed
qed


section \<open>Giving an object back\<close>

lemma page_ok_pushed:
  assumes pok: "page_ok s ci p os" and ci: "ci < 8" and inv: "physmem_inv s"
    and x: "x = slab_obj ci p i" "i < slab_cap ci" "x \<notin> set os"
    and s': "slab_mem s' p = (slab_mem s p)\<lparr>sp_free_list := x,
           sp_free_count := sp_free_count (slab_mem s p) + 1, sp_next := n\<rparr>"
      "total_frames s' = total_frames s" "frame_is_marked s' = frame_is_marked s"
      "obj_next s' = (obj_next s)(x := sp_free_list (slab_mem s p))"
  shows "page_ok s' ci p (x # os)"
proof -
  let ?objs = "slab_obj ci p ` {..<slab_cap ci}"
  have "distinct os" "set os \<subseteq> ?objs - {x}"
    using pok x(3) chain_distinct by (auto simp: page_ok_def)
  then have "length os \<le> card (?objs - {x})" by (metis card_mono distinct_card finite_Diff finite_imageI finite_lessThan)
  also have "\<dots> < card ?objs" using x by (intro card_Diff1_less) auto
  also have "\<dots> \<le> slab_cap ci" using card_image_le [of "{..<slab_cap ci}" "slab_obj ci p"] by simp
  also have "\<dots> < 65536" by (rule slab_geometry(5) [OF ci])
  finally have "length os + 1 < 65536"
    using slab_geometry(5) [OF ci] \<open>card ?objs \<le> slab_cap ci\<close> \<open>length os \<le> card (?objs - {x})\<close>
      \<open>card (?objs - {x}) < card ?objs\<close> by linarith
  then have "unat (sp_free_count (slab_mem s p) + 1) = Suc (length os)"
    using pok by (simp add: page_ok_def unat_word_ariths)
  moreover have "x \<noteq> 0" using page_ok_obj(2) [OF pok inv ci] x by simp
  moreover have "chain ((obj_next s)(x := sp_free_list (slab_mem s p))) (sp_free_list (slab_mem s p)) os"
    using pok x(3) by (simp add: page_ok_def)
  ultimately show ?thesis using pok s' x by (auto simp: page_ok_def)
qed

lemma find_link_spec:
  assumes "chain (\<lambda>q. sp_next (mem q)) (deref_link mem full pp) (zs @ p # ys)" "p \<notin> set zs"
  shows "find_link mem full p pp = Some (if zs = [] then pp else Some (last zs))"
  using assms
proof (induction zs arbitrary: pp)
  case Nil
  then show ?case by (subst find_link.simps) simp
next
  case (Cons z zs)
  then have "deref_link mem full pp = z" "z \<noteq> 0" "z \<noteq> p" by auto
  then have "find_link mem full p pp = find_link mem full p (Some z)"
    by (subst find_link.simps) simp
  also have "\<dots> = Some (if zs = [] then Some z else Some (last zs))"
    using Cons by (intro Cons.IH) (auto simp: deref_link_def)
  finally show ?case by simp
qed

lemma slab_free_rep:
  assumes rep: "slab_rep s P F E" and ci: "ci < 8" and p: "p \<in> slab_pages P F ci"
    and x: "x = slab_obj ci p i" "i < slab_cap ci" "x \<notin> set (E p)"
  obtains s' ps fs where "slab_free x s = Some s'"
    "slab_rep s' (P(ci := ps)) (F(ci := fs)) (E(p := x # E p))" "set ps \<union> set fs = slab_pages P F ci"
proof -
  note D = slab_repD [OF rep ci]
  have pok: "page_ok s ci p (E p)" using slab_rep_page_ok [OF rep ci p] .
  have xp: "slab_page_of x = p" "x \<noteq> 0" using page_ok_obj [OF pok D(6) ci] x by simp_all
  define h where "h = slab_mem s p"
  define s1 where "s1 = s\<lparr>obj_next := (obj_next s)(x := sp_free_list h),
      slab_mem := (slab_mem s)(p := h\<lparr>sp_free_list := x, sp_free_count := sp_free_count h + 1\<rparr>)\<rparr>"
  have h: "sp_magic h = SLAB_MAGIC" "unat (sp_cache_idx h) = ci" "sp_free_count h = 0 \<longleftrightarrow> E p = []"
    using pok by (auto simp: page_ok_def h_def unat_eq_0)
  have fr: "slab_free x s = (if E p = []
      then map_option (\<lambda>pp. slab_move_to_partial ci p pp s1) (find_link (slab_mem s1) (sc_full (slab_caches s1 ! ci)) p None)
      else Some s1)"
    using xp h by (simp add: slab_free_def Let_def h_def s1_def)
  have link1: "page_link s1 = page_link s"
    by (simp add: s1_def page_link_def h_def fun_eq_iff)
  show thesis
  proof (cases "E p = []")
    case False
    have "page_ok s1 ci p (x # E p)"
      using pok ci D(6) x by (rule page_ok_pushed [where n = "sp_next h"]) (simp_all add: s1_def h_def)
    moreover have "p \<in> set (P ci)" using p False D(4) [of p] by (auto simp: slab_pages_def)
    moreover have "p \<notin> set (F ci)" using False D(4) [of p] by auto
    ultimately have "slab_rep s1 (P(ci := P ci)) (F(ci := F ci)) (E(p := x # E p))"
      using D rep link1
      by (intro slab_rep_step [OF rep ci p]) (auto simp: s1_def slab_rep_def slab_pages_def xp)
    then show thesis using that [of s1 "P ci" "F ci"] fr False by (simp add: slab_pages_def)
  next
    case True
    have pF: "p \<in> set (F ci)" and pP: "p \<notin> set (P ci)"
      using p True D(3) [of p] by (auto simp: slab_pages_def)
    then obtain xs ys where F: "F ci = xs @ p # ys" "p \<notin> set xs" by (meson split_list_first)
    define c where "c = slab_caches s ! ci"
    define nx where "nx = sp_next h"
    have ch: "chain (page_link s) (sc_full c) (xs @ p # ys)" using D(2) F by (simp add: c_def)
    have dist: "distinct (xs @ p # ys)" using chain_distinct [OF ch] .
    have nz: "p \<noteq> 0" using chain_nonzero [OF ch] by auto
    have link_eq: "(\<lambda>q. sp_next (slab_mem s1 q)) = page_link s"
      unfolding link1 [symmetric] by (simp add: page_link_def fun_eq_iff)
    have fl: "find_link (slab_mem s1) (sc_full (slab_caches s1 ! ci)) p None
        = Some (if xs = [] then None else Some (last xs))"
    proof (rule find_link_spec [where ys = ys])
      have "slab_caches s1 ! ci = c" by (simp add: s1_def c_def)
      then show "chain (\<lambda>q. sp_next (slab_mem s1 q))
          (deref_link (slab_mem s1) (sc_full (slab_caches s1 ! ci)) None) (xs @ p # ys)"
        using ch by (simp add: link_eq deref_link_def)
    qed (rule F(2))
    have nxl: "page_link s p = nx" by (simp add: page_link_def nx_def h_def)
    show thesis
    proof (cases xs rule: rev_cases)
      case Nil
      define s2 where "s2 = s1\<lparr>slab_mem := (slab_mem s1)(p := (slab_mem s1 p)\<lparr>sp_next := sc_partial c\<rparr>),
          slab_caches := (slab_caches s)[ci := c\<lparr>sc_full := nx, sc_partial := p\<rparr>]\<rparr>"
      have "deref_link (slab_mem s1) (sc_full c) None \<noteq> 0" using ch nz Nil by (simp add: deref_link_def)
      then have free: "slab_free x s = Some s2"
        using fr True fl Nil
        by (simp add: slab_move_to_partial_def Let_def s2_def s1_def c_def nx_def h_def)
      have "page_ok s2 ci p (x # E p)"
        using pok ci D(6) x
        by (rule page_ok_pushed [where n = "sc_partial c"]) (simp_all add: s2_def s1_def h_def)
      moreover have link2: "page_link s2 = (page_link s)(p := sc_partial c)"
        using link1 by (simp add: s2_def page_link_def fun_eq_iff)
      moreover have "slab_caches s2 ! ci = c\<lparr>sc_full := nx, sc_partial := p\<rparr>"
        using D(5) by (simp add: s2_def)
      moreover have "chain ((page_link s)(p := sc_partial c)) p (p # P ci)"
        "chain ((page_link s)(p := sc_partial c)) nx ys"
        using D(1) nz pP ch Nil dist nxl by (simp_all add: c_def)
      ultimately have "slab_rep s2 (P(ci := p # P ci)) (F(ci := ys)) (E(p := x # E p))"
        using pP F Nil dist
        by (intro slab_rep_step [OF rep ci p])
           (use D rep xp in \<open>auto simp: s2_def s1_def slab_rep_def slab_pages_def\<close>)
      then show thesis using free that [of s2 "p # P ci" ys] F Nil by (auto simp: slab_pages_def)
    next
      case (snoc us q)
      define s2 where "s2 = s1\<lparr>slab_mem := (slab_mem s1)(q := (slab_mem s1 q)\<lparr>sp_next := nx\<rparr>,
             p := (slab_mem s1 p)\<lparr>sp_next := sc_partial c\<rparr>),
          slab_caches := (slab_caches s)[ci := c\<lparr>sc_partial := p\<rparr>]\<rparr>"
      have qp: "q \<noteq> p" "q \<in> set (F ci)" "q \<notin> set (P ci)" using dist snoc F D(3,4) [of q] by auto
      have "page_link s q = p" using chain_suffix [of "page_link s" "sc_full c" us q "p # ys"] ch snoc by simp
      then have "deref_link (slab_mem s1) (sc_full c) (Some q) \<noteq> 0"
        using nz link1 by (simp add: deref_link_def page_link_def fun_eq_iff)
      then have free: "slab_free x s = Some s2"
        using fr True fl snoc qp(1)
        by (simp add: slab_move_to_partial_def Let_def s2_def s1_def c_def nx_def h_def fun_upd_twist)
      have link2: "page_link s2 = (page_link s)(q := nx, p := sc_partial c)"
        using link1 by (simp add: s2_def page_link_def fun_eq_iff)
      have "chain ((page_link s)(q := nx)) (sc_full c) (us @ q # ys)"
        using chain_unlink [of "page_link s" "sc_full c" us q p ys] ch snoc nxl by simp
      then have "chain (page_link s2) (sc_full c) (xs @ ys)"
        using dist snoc qp unfolding link2 by (subst chain_upd) auto
      moreover have "page_ok s2 ci p (x # E p)"
        using pok ci D(6) x
        by (rule page_ok_pushed [where n = "sc_partial c"]) (use qp in \<open>simp_all add: s2_def s1_def h_def\<close>)
      moreover have "chain (page_link s2) p (p # P ci)"
        using D(1) nz pP qp(3) unfolding link2 by (simp add: c_def)
      moreover have "slab_caches s2 ! ci = c\<lparr>sc_partial := p\<rparr>" using D(5) by (simp add: s2_def)
      ultimately have "slab_rep s2 (P(ci := p # P ci)) (F(ci := xs @ ys)) (E(p := x # E p))"
        using pP F dist qp link2
        by (intro slab_rep_step [OF rep ci p])
           (use D rep xp in \<open>auto simp: s2_def s1_def slab_rep_def slab_pages_def\<close>)
      then show thesis using free that [of s2 "p # P ci" "xs @ ys"] F by (auto simp: slab_pages_def)
    qed
  qed
qed


lemma slab_free_holds:
  assumes "slab_holds s L" "(x, m) \<in> L"
  shows "\<exists>s'. slab_free x s = Some s' \<and> slab_holds s' (L - {(x, m)})"
proof -
  obtain P F E where rep: "slab_rep s P F E" and L: "L = slab_blocks P F E"
    using assms(1) by (auto simp: slab_holds_def)
  from rep assms(2) [unfolded L] obtain ci p i where c: "ci < 8" "p \<in> slab_pages P F ci" "i < slab_cap ci"
    "x = slab_obj ci p i" "m = slab_size ci" "x \<notin> set (E p)"
    by (rule slab_blocks_page)
  from rep c(1,2,4,3,6) obtain s' ps fs where s': "slab_free x s = Some s'"
    "slab_rep s' (P(ci := ps)) (F(ci := fs)) (E(p := x # E p))" "set ps \<union> set fs = slab_pages P F ci"
    by (rule slab_free_rep)
  have pages: "slab_pages (P(ci := ps)) (F(ci := fs)) cj = slab_pages P F cj" for cj
    using s'(3) by (auto simp: slab_pages_def)
  have "slab_blocks P F ((E(p := x # E p))(p := E p)) =
        insert (x, slab_size ci) (slab_blocks (P(ci := ps)) (F(ci := fs)) (E(p := x # E p)))"
    and "x \<notin> fst ` slab_blocks (P(ci := ps)) (F(ci := fs)) (E(p := x # E p))"
    using slab_blocks_take [OF s'(2) c(1) _ c(4,3), of "E p" P F] c(2) pages by simp_all
  then have "L - {(x, m)} = slab_blocks (P(ci := ps)) (F(ci := fs)) (E(p := x # E p))"
    unfolding L c(5) by force
  with s'(1,2) show ?thesis unfolding slab_holds_def by blast
qed

lemma slab_holds_apart:
  assumes h: "slab_holds s L" "(x, m) \<in> L" "(y, k) \<in> L" "(x, m) \<noteq> (y, k)"
  shows "unat x + m \<le> unat y \<or> unat y + k \<le> unat x"
proof -
  obtain P F E where rep: "slab_rep s P F E" and L: "L = slab_blocks P F E"
    using h(1) by (auto simp: slab_holds_def)
  have inv: "physmem_inv s" using rep by (simp add: slab_rep_def)
  from rep h(2) [unfolded L] obtain ci p i where c: "ci < 8" "p \<in> slab_pages P F ci" "i < slab_cap ci"
    "x = slab_obj ci p i" "m = slab_size ci" by (rule slab_blocks_page)
  from rep h(3) [unfolded L] obtain cj q j where d: "cj < 8" "q \<in> slab_pages P F cj" "j < slab_cap cj"
    "y = slab_obj cj q j" "k = slab_size cj" by (rule slab_blocks_page)
  from slab_rep_page_ok [OF rep c(1,2)] inv obtain f where f: "unat p = f * 4096" "unat p + 4096 < 2 ^ 64"
    by (rule page_ok_frame)
  from slab_rep_page_ok [OF rep d(1,2)] inv obtain g where g: "unat q = g * 4096" "unat q + 4096 < 2 ^ 64"
    by (rule page_ok_frame)
  note x = slab_obj_unat [OF c(1,3) f(2)] and y = slab_obj_unat [OF d(1,3) g(2)]
  show ?thesis
  proof (cases "p = q")
    case True
    then have "cj = ci" using slab_rep_class [OF rep d(1) c(1) d(2)] c(2) by simp
    then have ne: "i \<noteq> j" using h(4) c d True by auto
    have "i < j \<Longrightarrow> Suc i * slab_size ci \<le> j * slab_size ci"
         "j < i \<Longrightarrow> Suc j * slab_size ci \<le> i * slab_size ci" by (intro mult_le_mono1; simp)+
    then show ?thesis
      using ne x(1) y(1) True \<open>cj = ci\<close> c(4,5) d(4,5) by (cases "i < j") auto
  next
    case False
    then have "f \<noteq> g" using f(1) g(1) by (metis word_unat_eq_iff)
    then have "f * 4096 + 4096 \<le> g * 4096 \<or> g * 4096 + 4096 \<le> f * 4096" by linarith
    then show ?thesis using x(2) y(2) f(1) g(1) unfolding c(4,5) d(4,5) x(1) y(1) by linarith
  qed
qed

interpretation slab: allocator slab_alloc slab_free 0 unat unat slab_holds
proof
  fix s :: "'a slab_st_scheme" and L :: "(u64 \<times> nat) set" and n s' and p :: u64
  show "slab_holds s L \<Longrightarrow> slab_alloc n s = (0, s') \<Longrightarrow> slab_holds s' L"
    using slab_alloc_holds [of s L n 0 s'] by auto
  show "slab_holds s L \<Longrightarrow> slab_alloc n s = (p, s') \<Longrightarrow> p \<noteq> 0 \<Longrightarrow>
     \<exists>m. unat n \<le> m \<and> p \<notin> fst ` L \<and> slab_holds s' (insert (p, m) L)"
    using slab_alloc_holds [of s L n p s'] by blast
  show "slab_holds s L \<Longrightarrow> (p, m) \<in> L \<Longrightarrow> \<exists>s'. slab_free p s = Some s' \<and> slab_holds s' (L - {(p, m)})" for m
    by (rule slab_free_holds)
  show "slab_holds s L \<Longrightarrow> (p, m) \<in> L \<Longrightarrow> (q, k) \<in> L \<Longrightarrow> (p, m) \<noteq> (q, k) \<Longrightarrow>
     unat p + m \<le> unat q \<or> unat q + k \<le> unat p" for q m k
    by (rule slab_holds_apart)
qed

lemma slab_holds_init: "physmem_inv s \<Longrightarrow> slab_holds (slab_init s) {}"
proof -
  assume "physmem_inv s"
  then have "physmem_inv (slab_init s)"
    by (simp add: slab_init_def physmem_inv_def free_set_def frame_is_marked_def)
  then have "slab_rep (slab_init s) (\<lambda>_. []) (\<lambda>_. []) (\<lambda>_. [])"
    by (simp add: slab_rep_def slab_init_def length_cache_sizes)
  moreover have "slab_blocks (\<lambda>_. []) (\<lambda>_. []) (\<lambda>_. []) = {}"
    by (simp add: slab_blocks_def slab_pages_def)
  ultimately show ?thesis unfolding slab_holds_def by metis
qed


section \<open>Statistics\<close>

lemma slab_walk_spec:
  "chain (\<lambda>q. sp_next (mem q)) p xs \<Longrightarrow>
   slab_walk mem cf p (a, b, c) =
     Some (a + of_nat (length xs), b + (\<Sum>q \<leftarrow> xs. ucast (sp_capacity (mem q))),
           if cf then c + (\<Sum>q \<leftarrow> xs. ucast (sp_free_count (mem q))) else c)"
proof (induction xs arbitrary: p a b c)
  case Nil
  then show ?case by (subst slab_walk.simps) simp
next
  case (Cons x xs)
  then have "p = x" "p \<noteq> 0" "chain (\<lambda>q. sp_next (mem q)) (sp_next (mem x)) xs" by auto
  then show ?case by (subst slab_walk.simps) (simp add: Cons.IH add.assoc)
qed

lemma ucast_of_unat: "unat (w :: u16) = n \<Longrightarrow> (ucast w :: u32) = of_nat n"
  by (metis of_nat_unat ucast_eq unsigned_of_nat)

lemma slab_cache_stats_spec:
  assumes rep: "slab_rep s P F E" and ci: "ci < 8"
  shows "slab_cache_stats s ci =
    Some (of_nat (length (P ci) + length (F ci)), of_nat ((length (P ci) + length (F ci)) * slab_cap ci),
          of_nat (\<Sum>p \<leftarrow> P ci. length (E p)))"
proof -
  note D = slab_repD [OF rep ci]
  have link: "(\<lambda>q. sp_next (slab_mem s q)) = page_link s" by (simp add: page_link_def fun_eq_iff)
  have cap: "(\<Sum>q \<leftarrow> xs. ucast (sp_capacity (slab_mem s q)) :: u32) = of_nat (length xs * slab_cap ci)"
    if "set xs \<subseteq> slab_pages P F ci" for xs
    using that
  proof (induction xs)
    case (Cons q xs)
    then have "page_ok s ci q (E q)" using slab_rep_page_ok [OF rep ci, of q] by simp
    then have "(ucast (sp_capacity (slab_mem s q)) :: u32) = of_nat (slab_cap ci)"
      by (intro ucast_of_unat) (simp add: page_ok_def)
    with Cons show ?case by simp
  qed simp
  have cnt: "(\<Sum>q \<leftarrow> xs. ucast (sp_free_count (slab_mem s q)) :: u32) = of_nat (\<Sum>q \<leftarrow> xs. length (E q))"
    if "set xs \<subseteq> slab_pages P F ci" for xs
    using that
  proof (induction xs)
    case (Cons q xs)
    then have "page_ok s ci q (E q)" using slab_rep_page_ok [OF rep ci, of q] by simp
    then have "(ucast (sp_free_count (slab_mem s q)) :: u32) = of_nat (length (E q))"
      by (intro ucast_of_unat) (simp add: page_ok_def)
    with Cons show ?case by simp
  qed simp
  have sub: "set (P ci) \<subseteq> slab_pages P F ci" "set (F ci) \<subseteq> slab_pages P F ci" by (auto simp: slab_pages_def)
  show ?thesis
    using slab_walk_spec [of "slab_mem s", unfolded link, OF D(1), of True 0 0 0]
      slab_walk_spec [of "slab_mem s", unfolded link, OF D(2), of False]
      cap [OF sub(1)] cap [OF sub(2)] cnt [OF sub(1)]
    by (simp add: slab_cache_stats_def add_mult_distrib)
qed


section \<open>Properties\<close>

definition small_slab :: slab_st where
  "small_slab = slab_init
     \<lparr>frame_bitmap = frame_bitmap small_mem, frame_refcount = frame_refcount small_mem,
      total_frames = 264, free_frames = 8, highest_address = 0x108000,
      slab_mem = (\<lambda>_. \<lparr>sp_magic = 0, sp_next = 0, sp_obj_size = 0, sp_capacity = 0, sp_free_count = 0,
                       sp_cache_idx = 0, sp_pad = 0, sp_free_list = 0\<rparr>),
      obj_next = (\<lambda>_. 0), slab_caches = [], slab_ready = False\<rparr>"

lemma small_slab_holds: "slab_holds small_slab {}"
  unfolding small_slab_def
  by (rule slab_holds_init)
     (use small_mem_inv in \<open>simp add: physmem_inv_def free_set_def frame_is_marked_def\<close>)

text \<open>C19: \<^verbatim>\<open>slab_alloc\<close> either returns null and changes nothing, or returns an object that was
  not handed out before, of the smallest size class that can hold the request; the objects
  handed out are then the old ones and the new one.\<close>

theorem slab_alloc_spec:
  assumes "slab_holds s L" "slab_alloc sz s = (r, s')"
  shows "(r = 0 \<and> s' = s) \<or>
         (r \<noteq> 0 \<and> (\<exists>ci < 8. unat sz \<le> slab_size ci \<and> (\<forall>cj < ci. slab_size cj < unat sz) \<and>
             r \<notin> fst ` L \<and> slab_holds s' (insert (r, slab_size ci) L)))"
  using assms by (rule slab_alloc_holds)

lemma small_slab_alloc: "fst (slab_alloc 100 small_slab) \<noteq> 0"
proof -
  have inv: "physmem_inv small_slab" using small_slab_holds by (auto simp: slab_holds_def slab_rep_def)
  obtain p s1 where cr: "slab_page_create 3 small_slab = (p, s1)" by fastforce
  have st: "slab_ready small_slab" "sc_partial (slab_caches small_slab ! 3) = 0"
    "cache_index_for_size 100 = 3"
    by (simp_all add: small_slab_def slab_init_def cache_sizes_def cache_index_for_size_def)
  have free: "256 \<in> free_set small_slab"
    using small_mem_marked [of 256]
    by (simp add: mem_free_set small_slab_def slab_init_def frame_is_marked_def small_mem_def)
  obtain a s2 where al: "physmem_alloc_frame small_slab = (a, s2)" by fastforce
  from inv al have "a \<noteq> 0"
  proof (cases rule: alloc_frame_cases)
    case (frame f)
    then show ?thesis unfolding frame(4) using frame_addr_eq_0 [of f] inv
      by (auto simp: mem_free_set physmem_inv_def simp del: of_nat_mult)
  qed (use free in simp)
  then have "p \<noteq> 0"
    using cr al ucast_0_u64 by (auto simp: slab_page_create_def Let_def split: prod.splits)
  obtain P F E where rep: "slab_rep small_slab P F E" by (metis small_slab_holds slab_holds_def)
  then have "P 3 = []" using slab_repD(1) [OF rep, of 3] st(2) by simp
  note fr = slab_rep_fresh [OF rep _ this cr \<open>p \<noteq> 0\<close>]
  let ?s2 = "s1\<lparr>slab_caches := (slab_caches s1)[3 := (slab_caches s1 ! 3)\<lparr>sc_partial := p\<rparr>]\<rparr>"
  have "slab_alloc 100 small_slab = slab_pop 3 p ?s2"
    using st cr \<open>p \<noteq> 0\<close> by (simp add: slab_alloc_def SLAB_MAX_OBJ_def)
  moreover have "fst (slab_pop 3 p ?s2) \<noteq> 0"
    using slab_pop_holds [OF fr(1) _ _ prod.collapse [symmetric]] by simp
  ultimately show ?thesis by simp
qed

theorem slab_alloc_spec_witness:
  "\<exists>r s'. slab_alloc 100 small_slab = (r, s') \<and> r \<noteq> 0 \<and> slab_holds s' {(r, 128)}"
proof -
  obtain r s' where al: "slab_alloc 100 small_slab = (r, s')" by fastforce
  then have "r \<noteq> 0" using small_slab_alloc by simp
  with slab_alloc_spec [OF small_slab_holds al] obtain ci where ci:
    "ci < 8" "100 \<le> slab_size ci" "\<forall>cj < ci. slab_size cj < 100" "slab_holds s' {(r, slab_size ci)}"
    by auto
  have "slab_size 3 = 128" by (simp add: slab_geometry)
  moreover have "ci = 3" using ci(1,2,3) slab_geometry(1) [of ci] unfolding less_8_cases
    by (auto simp: slab_geometry dest: spec [of _ 3])
  ultimately show ?thesis using ci(4) al \<open>r \<noteq> 0\<close> by auto
qed

text \<open>C20: \<^verbatim>\<open>slab_free\<close> of an object that is handed out returns (its walk down the full list
  ends) and takes exactly that object out of the set of objects handed out.\<close>

theorem slab_free_spec:
  assumes "slab_holds s L" "(x, m) \<in> L"
  shows "\<exists>s'. slab_free x s = Some s' \<and> slab_holds s' (L - {(x, m)})"
  using assms by (rule slab_free_holds)

lemma small_slab_one: "\<exists>r m s'. slab_alloc 100 small_slab = (r, s') \<and> slab_holds s' {(r, m)}"
proof -
  obtain r s' where al: "slab_alloc 100 small_slab = (r, s')" by fastforce
  then have "r \<noteq> 0" using small_slab_alloc by simp
  with slab_alloc_holds [OF small_slab_holds al] al show ?thesis by auto
qed

theorem slab_free_spec_witness:
  "\<exists>r s' s''. slab_alloc 100 small_slab = (r, s') \<and> slab_free r s' = Some s'' \<and> slab_holds s'' {}"
proof -
  obtain r m s' where r: "slab_alloc 100 small_slab = (r, s')" "slab_holds s' {(r, m)}"
    using small_slab_one by blast
  with slab_free_spec [OF r(2), of r m] show ?thesis by auto
qed

text \<open>C21: every client of the slab allocator that frees only what it holds runs to the end,
  whatever it allocates and frees and in whatever order, and the objects it holds never
  overlap.\<close>

theorem slab_client_safe:
  assumes "physmem_inv s"
  shows "\<exists>s' H L. client slab_alloc slab_free 0 cs (slab_init s) {} = Some (s', H) \<and>
     slab_holds s' L \<and> fst ` L = H \<and>
     (\<forall>(p, m) \<in> L. \<forall>(q, k) \<in> L. p \<noteq> q \<longrightarrow> unat p + m \<le> unat q \<or> unat q + k \<le> unat p)"
  using slab.client_disjoint [OF slab_holds_init [OF assms]] .

theorem slab_client_safe_witness:
  "\<exists>s' H L. client slab_alloc slab_free 0 [Alloc 100, Alloc 30, Free 0x100080, Alloc 2048] (slab_init small_slab) {}
       = Some (s', H) \<and> slab_holds s' L \<and> fst ` L = H"
proof -
  have "physmem_inv small_slab" using small_slab_holds by (auto simp: slab_holds_def slab_rep_def)
  from slab_client_safe [OF this] show ?thesis by blast
qed

text \<open>C22: \<^verbatim>\<open>slab_get_stats\<close> returns for every cache the number of its pages, their capacity
  and the number of free objects on the pages' free lists.\<close>

theorem slab_get_stats_spec:
  assumes "slab_rep s P F E"
  shows "\<exists>st. slab_get_stats s = Some st \<and>
     (\<forall>ci < 8. cache_page_count st ! ci = of_nat (length (P ci) + length (F ci)) \<and>
        cache_total_objs st ! ci = of_nat ((length (P ci) + length (F ci)) * slab_cap ci) \<and>
        cache_free_objs st ! ci = of_nat (\<Sum>p \<leftarrow> P ci. length (E p))) \<and>
     total_bytes st = total_pages st * 4096"
proof -
  let ?r = "\<lambda>ci. (of_nat (length (P ci) + length (F ci)) :: u32,
      of_nat ((length (P ci) + length (F ci)) * slab_cap ci) :: u32, of_nat (\<Sum>p \<leftarrow> P ci. length (E p)) :: u32)"
  have "map (slab_cache_stats s) [0..<8] = map (Some \<circ> ?r) [0..<8]"
    using slab_cache_stats_spec [OF assms] by (intro map_cong) auto
  moreover have "those (map (Some \<circ> f) xs) = Some (map f xs)" for f :: "nat \<Rightarrow> u32 \<times> u32 \<times> u32" and xs
    by (induction xs) auto
  ultimately have "those (map (slab_cache_stats s) [0..<SLAB_NUM_CACHES]) = Some (map ?r [0..<8])"
    by (simp only: SLAB_NUM_CACHES_def)
  then show ?thesis
    by (simp add: slab_get_stats_def Let_def SLAB_PAGE_SIZE_def del: upt_Suc map_map)
qed

theorem slab_get_stats_spec_witness:
  "\<exists>st. slab_get_stats small_slab = Some st \<and> cache_page_count st ! 5 = 0"
proof -
  obtain P F E where rep: "slab_rep small_slab P F E" by (metis small_slab_holds slab_holds_def)
  have "P 5 = []" "F 5 = []"
    using slab_repD(1,2) [OF rep, of 5] by (simp_all add: small_slab_def slab_init_def cache_sizes_def)
  with slab_get_stats_spec [OF rep] show ?thesis by force
qed

end
