(* ===== verification/Heap.thy ===== *)
theory Heap
  imports Slab
begin

text \<open>
  The kernel heap, \<^verbatim>\<open>kernel/mem/heap.c\<close>: a linked list of blocks, first fit with splitting
  and coalescing, on top of the slab allocator for small sizes and of the frame allocator
  for new regions. Block headers are memory: \<open>heap_mem\<close> reads the header at an address. A
  header takes 24 bytes. The loops over the list return \<open>None\<close> when they do not end.
\<close>

section \<open>State and operations\<close>

definition HEAP_INITIAL_SIZE :: u32 where "HEAP_INITIAL_SIZE = 4 * 1024 * 1024"
definition HEAP_GROW_SIZE :: u32 where "HEAP_GROW_SIZE = 2 * 1024 * 1024"
definition HEAP_MAX_REGIONS :: nat where "HEAP_MAX_REGIONS = 32"
definition HEAP_ALIGNMENT :: u32 where "HEAP_ALIGNMENT = 16"
definition HEAP_BLOCK_MAGIC :: u32 where "HEAP_BLOCK_MAGIC = 0x4B484550"

record heap_block =
  hb_magic :: u32
  hb_size :: u32
  hb_free :: bool
  hb_next :: u64

record heap_region =
  hr_phys_addr :: u64
  hr_size :: u64

record heap_st = slab_st +
  heap_mem :: "u64 \<Rightarrow> heap_block"
  heap_head :: u64
  regions :: "heap_region list"
  region_count :: nat
  heap_total_size :: u32

definition heap_align_up :: "u32 \<Rightarrow> u32" where
  "heap_align_up sz = (let msk = HEAP_ALIGNMENT - 1 in (sz + msk) AND NOT msk)"

definition split_block :: "u64 \<Rightarrow> u32 \<Rightarrow> (u64 \<Rightarrow> heap_block) \<Rightarrow> (u64 \<Rightarrow> heap_block)" where
  "split_block block sz mem =
     (let min_split = 24 + HEAP_ALIGNMENT in
      if block = 0 \<or> hb_size (mem block) \<le> sz + min_split then mem
      else
        let remaining = hb_size (mem block) - sz - 24;
            next_block = block + 24 + ucast sz;
            mem1 = mem(next_block := \<lparr>hb_magic = HEAP_BLOCK_MAGIC, hb_size = remaining, hb_free = True,
                                       hb_next = hb_next (mem block)\<rparr>)
        in mem1(block := (mem1 block)\<lparr>hb_size := sz, hb_next := next_block\<rparr>))"

partial_function (option) coalesce_loop :: "u64 \<Rightarrow> (u64 \<Rightarrow> heap_block) \<Rightarrow> (u64 \<Rightarrow> heap_block) option" where
  "coalesce_loop block mem =
     (if block \<noteq> 0 \<and> hb_next (mem block) \<noteq> 0 then
        (let nb = mem (hb_next (mem block)) in
         if hb_free (mem block) \<and> hb_free nb
         then coalesce_loop block
                (mem(block := (mem block)\<lparr>hb_size := hb_size (mem block) + 24 + hb_size nb, hb_next := hb_next nb\<rparr>))
         else coalesce_loop (hb_next (mem block)) mem)
      else Some mem)"

definition coalesce_blocks :: "'a heap_st_scheme \<Rightarrow> 'a heap_st_scheme option" where
  "coalesce_blocks s = map_option (\<lambda>m. s\<lparr>heap_mem := m\<rparr>) (coalesce_loop (heap_head s) (heap_mem s))"

partial_function (option) last_block :: "(u64 \<Rightarrow> heap_block) \<Rightarrow> u64 \<Rightarrow> u64 option" where
  "last_block mem lst = (if hb_next (mem lst) \<noteq> 0 then last_block mem (hb_next (mem lst)) else Some lst)"

definition heap_add_region :: "u64 \<Rightarrow> u64 \<Rightarrow> 'a heap_st_scheme \<Rightarrow> (bool \<times> 'a heap_st_scheme) option" where
  "heap_add_region phys sz s =
     (if region_count s \<ge> HEAP_MAX_REGIONS \<or> sz \<le> 24 then Some (False, s)
      else
        let new_block = phys;
            s1 = s\<lparr>regions := (regions s)[region_count s := \<lparr>hr_phys_addr = phys, hr_size = sz\<rparr>],
                   region_count := Suc (region_count s),
                   heap_mem := (heap_mem s)(new_block := \<lparr>hb_magic = HEAP_BLOCK_MAGIC,
                       hb_size = ucast (sz - 24), hb_free = True, hb_next = 0\<rparr>),
                   heap_total_size := heap_total_size s + ucast sz\<rparr>
        in if heap_head s1 = 0 then Some (True, s1\<lparr>heap_head := new_block\<rparr>)
           else Option.bind (last_block (heap_mem s1) (heap_head s1)) (\<lambda>lst.
                map_option (Pair True)
                  (coalesce_blocks (s1\<lparr>heap_mem := (heap_mem s1)(lst := (heap_mem s1 lst)\<lparr>hb_next := new_block\<rparr>)\<rparr>))))"

definition heap_grow :: "'a heap_st_scheme \<Rightarrow> (bool \<times> 'a heap_st_scheme) option" where
  "heap_grow s =
     (let (phys, s1) = physmem_alloc_region HEAP_GROW_SIZE 4096 s in
      if phys = 0 then Some (False, s1)
      else heap_add_region (ucast phys) (ucast HEAP_GROW_SIZE) s1)"

definition heap_init :: "'a heap_st_scheme \<Rightarrow> 'a heap_st_scheme option" where
  "heap_init s =
     (let s0 = s\<lparr>heap_head := 0, region_count := 0, heap_total_size := 0\<rparr>;
          (phys, s1) = physmem_alloc_region HEAP_INITIAL_SIZE 4096 s0 in
      if phys = 0 then Some s1
      else map_option (slab_init \<circ> snd) (heap_add_region (ucast phys) (ucast HEAP_INITIAL_SIZE) s1))"

text \<open>The first-fit loop: the address of the first block that is free and large enough, or null.\<close>

partial_function (option) first_fit :: "(u64 \<Rightarrow> heap_block) \<Rightarrow> u32 \<Rightarrow> u64 \<Rightarrow> u64 option" where
  "first_fit mem sz block =
     (if block = 0 then Some 0
      else if hb_free (mem block) \<and> hb_size (mem block) \<ge> sz then Some block
      else first_fit mem sz (hb_next (mem block)))"

definition heap_take :: "u32 \<Rightarrow> 'a heap_st_scheme \<Rightarrow> (u64 \<times> 'a heap_st_scheme) option" where
  "heap_take sz s =
     map_option (\<lambda>block.
       if block = 0 then (0, s)
       else let mem = split_block block sz (heap_mem s)
            in (block + 24, s\<lparr>heap_mem := mem(block := (mem block)\<lparr>hb_free := False\<rparr>)\<rparr>))
     (first_fit (heap_mem s) sz (heap_head s))"

definition kmalloc_blocks :: "u32 \<Rightarrow> 'a heap_st_scheme \<Rightarrow> (u64 \<times> 'a heap_st_scheme) option" where
  "kmalloc_blocks sz s =
     Option.bind (heap_take sz s) (\<lambda>(result, s1).
       if result \<noteq> 0 then Some (result, s1)
       else Option.bind (heap_grow s1) (\<lambda>(ok, s2).
              if ok then heap_take sz s2 else Some (0, s2)))"

definition kmalloc :: "u32 \<Rightarrow> 'a heap_st_scheme \<Rightarrow> (u64 \<times> 'a heap_st_scheme) option" where
  "kmalloc sz s =
     (if sz = 0 \<or> heap_head s = 0 then Some (0, s)
      else
        let (result, s1) = (if sz \<le> SLAB_MAX_OBJ then slab_alloc sz s else (0, s)) in
        if result \<noteq> 0 then Some (result, s1) else kmalloc_blocks (heap_align_up sz) s1)"

definition kfree :: "u64 \<Rightarrow> 'a heap_st_scheme \<Rightarrow> 'a heap_st_scheme option" where
  "kfree ptr s =
     (if ptr = 0 then Some s
      else if slab_owns ptr s then slab_free ptr s
      else
        let block = ptr - 24 in
        if hb_magic (heap_mem s block) \<noteq> HEAP_BLOCK_MAGIC then Some s
        else coalesce_blocks (s\<lparr>heap_mem := (heap_mem s)(block := (heap_mem s block)\<lparr>hb_free := True\<rparr>)\<rparr>))"

record heap_stats =
  total_size :: u32
  used_size :: u32
  free_size :: u32
  block_count :: u32
  free_block_count :: u32

partial_function (option) heap_walk :: "(u64 \<Rightarrow> heap_block) \<Rightarrow> u64 \<Rightarrow> heap_stats \<Rightarrow> heap_stats option" where
  "heap_walk mem block st =
     (if block = 0 then Some st
      else heap_walk mem (hb_next (mem block))
             (let st1 = st\<lparr>block_count := block_count st + 1\<rparr> in
              if hb_free (mem block)
              then st1\<lparr>free_block_count := free_block_count st1 + 1, free_size := free_size st1 + hb_size (mem block)\<rparr>
              else st1\<lparr>used_size := used_size st1 + hb_size (mem block)\<rparr>))"

definition heap_get_stats :: "'a heap_st_scheme \<Rightarrow> heap_stats option" where
  "heap_get_stats s =
     map_option (\<lambda>st. st\<lparr>total_size := heap_total_size s\<rparr>)
       (heap_walk (heap_mem s) (heap_head s)
          \<lparr>total_size = 0, used_size = 0, free_size = 0, block_count = 0, free_block_count = 0\<rparr>)"

section \<open>Lists of blocks\<close>

text \<open>The abstract heap is the list of blocks: address of the header, size, free or not.\<close>

type_synonym blk = "u64 \<times> u32 \<times> bool"

fun merge :: "blk list \<Rightarrow> blk list" where
  "merge ((a, n, True) # (b, m, True) # bs) = merge ((a, n + 24 + m, True) # bs)"
| "merge ((a, n, False) # bs) = (a, n, False) # merge bs"
| "merge [(a, n, True)] = [(a, n, True)]"
| "merge ((a, n, True) # (b, m, False) # bs) = (a, n, True) # merge ((b, m, False) # bs)"
| "merge [] = []"

text \<open>The blocks lie one behind the other from \<open>lo\<close> to \<open>hi\<close>.\<close>

fun tiled :: "nat \<Rightarrow> blk list \<Rightarrow> nat \<Rightarrow> bool" where
  "tiled lo [] hi \<longleftrightarrow> lo = hi"
| "tiled lo ((a, n, f) # bs) hi \<longleftrightarrow> unat a = lo \<and> tiled (lo + 24 + unat n) bs hi"

fun no_free_pair :: "blk list \<Rightarrow> bool" where
  "no_free_pair ((a, n, f) # (b, m, g) # bs) \<longleftrightarrow> \<not> (f \<and> g) \<and> no_free_pair ((b, m, g) # bs)"
| "no_free_pair _ \<longleftrightarrow> True"

definition block_at :: "(u64 \<Rightarrow> heap_block) \<Rightarrow> blk \<Rightarrow> bool" where
  "block_at mem b \<longleftrightarrow> (case b of (a, n, f) \<Rightarrow>
     hb_magic (mem a) = HEAP_BLOCK_MAGIC \<and> hb_size (mem a) = n \<and> hb_free (mem a) = f)"

definition heap_list :: "(u64 \<Rightarrow> heap_block) \<Rightarrow> u64 \<Rightarrow> blk list \<Rightarrow> bool" where
  "heap_list mem p bs \<longleftrightarrow> chain (\<lambda>q. hb_next (mem q)) p (map fst bs) \<and> (\<forall>b \<in> set bs. block_at mem b)"


lemma heap_list_Nil [simp]: "heap_list mem p [] \<longleftrightarrow> p = 0"
  by (simp add: heap_list_def)

lemma heap_list_Cons [simp]:
  "heap_list mem p ((a, n, f) # bs) \<longleftrightarrow>
     p = a \<and> a \<noteq> 0 \<and> block_at mem (a, n, f) \<and> heap_list mem (hb_next (mem a)) bs"
  by (auto simp: heap_list_def)

lemma heap_list_cong:
  "heap_list mem p bs \<Longrightarrow> (\<And>q. q \<in> fst ` set bs \<Longrightarrow> mem' q = mem q) \<Longrightarrow> heap_list mem' p bs"
  by (induction bs arbitrary: p) (auto simp: block_at_def)

lemma heap_list_upd: "q \<notin> fst ` set bs \<Longrightarrow> heap_list mem p bs \<Longrightarrow> heap_list (mem(q := h)) p bs"
  by (erule heap_list_cong) auto

lemma heap_list_distinct: "heap_list mem p bs \<Longrightarrow> distinct (map fst bs)"
  unfolding heap_list_def by (blast dest: chain_distinct)

lemma heap_list_nonzero: "heap_list mem p bs \<Longrightarrow> 0 \<notin> fst ` set bs"
  using chain_nonzero by (force simp: heap_list_def)

lemma heap_list_append_D:
  "heap_list mem p (xs @ (a, n, f) # ys) \<Longrightarrow> heap_list mem a ((a, n, f) # ys)"
  by (induction xs arbitrary: p) auto

section \<open>Coalescing\<close>

lemma merge_fst: "fst ` set (merge bs) \<subseteq> fst ` set bs"
  by (induction bs rule: merge.induct) auto

lemma coalesce_loop_merge:
  "heap_list mem p bs \<Longrightarrow>
   \<exists>mem'. coalesce_loop p mem = Some mem' \<and> heap_list mem' p (merge bs) \<and>
          (\<forall>q. q \<notin> fst ` set bs \<longrightarrow> mem' q = mem q)"
proof (induction bs arbitrary: p mem rule: merge.induct)
  case (1 a n b m bs)
  let ?h = "(mem a)\<lparr>hb_size := n + 24 + m, hb_next := hb_next (mem b)\<rparr>"
  have ab: "p = a" "a \<noteq> 0" "b \<noteq> 0" "hb_next (mem a) = b" "hb_free (mem a)" "hb_free (mem b)"
    "hb_size (mem a) = n" "hb_size (mem b) = m" "block_at mem (a, n, True)"
    "heap_list mem (hb_next (mem b)) bs"
    using 1 by (auto simp: block_at_def)
  have "a \<notin> fst ` set bs" using heap_list_distinct [OF 1(2)] by auto
  then have "heap_list (mem(a := ?h)) (hb_next (mem b)) bs" using ab(10) by (rule heap_list_upd)
  then have "heap_list (mem(a := ?h)) a ((a, n + 24 + m, True) # bs)"
    using ab by (simp add: block_at_def)
  from 1(1) [OF this] obtain mem' where m': "coalesce_loop a (mem(a := ?h)) = Some mem'"
    "heap_list mem' a (merge ((a, n + 24 + m, True) # bs))"
    "\<forall>q. q \<notin> fst ` set ((a, n + 24 + m, True) # bs) \<longrightarrow> mem' q = (mem(a := ?h)) q"
    by blast
  have "coalesce_loop p mem = coalesce_loop a (mem(a := ?h))"
    by (subst coalesce_loop.simps) (simp add: ab Let_def)
  with m' ab(1) show ?case by auto
next
  case (2 a n bs)
  then have a: "p = a" "a \<noteq> 0" "\<not> hb_free (mem a)" "block_at mem (a, n, False)"
    "heap_list mem (hb_next (mem a)) bs"
    by (auto simp: block_at_def)
  from "2.IH" [OF a(5)] obtain mem' where m': "coalesce_loop (hb_next (mem a)) mem = Some mem'"
    "heap_list mem' (hb_next (mem a)) (merge bs)" "\<forall>q. q \<notin> fst ` set bs \<longrightarrow> mem' q = mem q"
    by blast
  have "coalesce_loop p mem = Some mem'"
  proof (cases "hb_next (mem a) = 0")
    case True
    then have "coalesce_loop 0 mem = Some mem" by (subst coalesce_loop.simps) simp
    with m'(1) True a(1) show ?thesis by (subst coalesce_loop.simps) simp
  next
    case False
    then show ?thesis using a m'(1) by (subst coalesce_loop.simps) (simp add: Let_def)
  qed
  moreover have "mem' a = mem a" using m'(3) heap_list_distinct [OF "2.prems"] by auto
  ultimately show ?case using m'(2,3) a by (auto simp: block_at_def)
next
  case (3 a n)
  then have "p = a" "a \<noteq> 0" "hb_next (mem a) = 0" by auto
  then have "coalesce_loop p mem = Some mem" by (subst coalesce_loop.simps) simp
  with 3 show ?case by auto
next
  case (4 a n b m bs)
  then have a: "p = a" "a \<noteq> 0" "b \<noteq> 0" "hb_next (mem a) = b" "\<not> hb_free (mem b)" "block_at mem (a, n, True)"
    "heap_list mem b ((b, m, False) # bs)"
    by (auto simp: block_at_def)
  from "4.IH" [OF a(7)] obtain mem' where m': "coalesce_loop b mem = Some mem'"
    "heap_list mem' b (merge ((b, m, False) # bs))" "\<forall>q. q \<notin> fst ` set ((b, m, False) # bs) \<longrightarrow> mem' q = mem q"
    by blast
  have "coalesce_loop p mem = Some mem'"
    using a m'(1) by (subst coalesce_loop.simps) (simp add: Let_def)
  moreover have "mem' a = mem a" using m'(3) heap_list_distinct [OF "4.prems"] by auto
  ultimately show ?case using m'(2,3) a by (auto simp: block_at_def)
next
  case 5
  then have "coalesce_loop p mem = Some mem" by (subst coalesce_loop.simps) simp
  with 5 show ?case by auto
qed


lemma tiled_append: "tiled lo (xs @ ys) hi \<longleftrightarrow> (\<exists>mid. tiled lo xs mid \<and> tiled mid ys hi)"
  by (induction lo xs hi rule: tiled.induct) auto

lemma tiled_le: "tiled lo bs hi \<Longrightarrow> lo \<le> hi"
  by (induction lo bs hi rule: tiled.induct) auto

lemma tiled_mem:
  "tiled lo bs hi \<Longrightarrow> (a, n, f) \<in> set bs \<Longrightarrow> lo \<le> unat a \<and> unat a + 24 + unat n \<le> hi"
  by (induction lo bs hi rule: tiled.induct) (auto dest: tiled_le)

lemma merge_tiled: "tiled lo bs hi \<Longrightarrow> hi \<le> 2 ^ 32 \<Longrightarrow> tiled lo (merge bs) hi"
proof (induction bs arbitrary: lo rule: merge.induct)
  case (1 a n b m bs)
  then have t: "unat a = lo" "tiled (lo + 24 + unat n + 24 + unat m) bs hi" by auto
  with tiled_le [OF t(2)] \<open>hi \<le> 2 ^ 32\<close> have "unat (n + 24 + m) = unat n + 24 + unat m"
    by (simp add: unat_word_ariths)
  with 1 t show ?case by (simp add: add.assoc)
qed auto

lemma merge_head: "merge ((a, n, f) # bs) = (a', n', f') # bs' \<Longrightarrow> a' = a \<and> f' = f"
  by (induction "(a, n, f) # bs" arbitrary: n bs rule: merge.induct) auto

lemma no_free_pair_merge: "no_free_pair (merge bs)"
proof (induction bs rule: merge.induct)
  case (2 a n bs)
  then show ?case by (cases "merge bs") auto
next
  case (4 a n b m bs)
  then show ?case
    using merge_head [of b m False bs] by (cases "merge ((b, m, False) # bs)") auto
qed auto

lemma merge_id: "no_free_pair bs \<Longrightarrow> merge bs = bs"
proof (induction bs rule: merge.induct)
  case (2 a n bs)
  then show ?case by (cases bs) auto
qed auto

lemma merge_used: "(a, n, False) \<in> set (merge bs) \<longleftrightarrow> (a, n, False) \<in> set bs"
  by (induction bs rule: merge.induct) auto

text \<open>A block that was cut in two and freed grows back to what it was.\<close>

lemma merge_rejoin:
  "no_free_pair (xs @ (a, n, True) # ys) \<Longrightarrow> n = k + 24 + m \<Longrightarrow>
   merge (xs @ (a, k, True) # (b, m, True) # ys) = xs @ (a, n, True) # ys"
proof (induction xs)
  case Nil
  then show ?case using merge_id [OF Nil(1)] by simp
next
  case (Cons x xs)
  obtain c l f where x: "x = (c, l, f)" by (cases x)
  have IH: "merge (xs @ (a, k, True) # (b, m, True) # ys) = xs @ (a, n, True) # ys"
    using Cons x by (cases xs) auto
  show ?case
  proof (cases f)
    case True
    then obtain d e zs where "xs = (d, e, False) # zs"
      using Cons.prems(1) x by (cases xs) auto
    with IH x True show ?thesis by simp
  qed (use IH x in simp)
qed

section \<open>Searching and splitting\<close>

definition fits :: "u32 \<Rightarrow> blk \<Rightarrow> bool" where
  "fits sz b \<longleftrightarrow> (case b of (a, n, f) \<Rightarrow> f \<and> sz \<le> n)"

lemma fits_simp [simp]: "fits sz (a, n, f) \<longleftrightarrow> f \<and> sz \<le> n"
  by (simp add: fits_def)

lemma first_fit_spec:
  "heap_list mem p bs \<Longrightarrow>
   first_fit mem sz p = Some (case find (fits sz) bs of None \<Rightarrow> 0 | Some b \<Rightarrow> fst b)"
proof (induction bs arbitrary: p)
  case Nil
  then show ?case by (subst first_fit.simps) simp
next
  case (Cons b bs)
  obtain a n f where b: "b = (a, n, f)" by (cases b)
  with Cons show ?case
    by (subst first_fit.simps) (auto simp: block_at_def)
qed

lemma heap_list_replace:
  "heap_list mem p (xs @ (a, n, f) # ys) \<Longrightarrow> (\<And>q. q \<in> fst ` set xs \<Longrightarrow> mem' q = mem q) \<Longrightarrow>
   heap_list mem' a zs \<Longrightarrow> heap_list mem' p (xs @ zs)"
proof (induction xs arbitrary: p)
  case Nil
  then show ?case by simp
next
  case (Cons x xs)
  obtain b m g where x: "x = (b, m, g)" by (cases x)
  with Cons show ?case by (auto simp: block_at_def)
qed


text \<open>What taking \<open>sz\<close> bytes leaves of a free block: the block itself when the rest is too
  small for a block of its own, otherwise the front part and a new free block.\<close>

definition cut :: "u32 \<Rightarrow> blk \<Rightarrow> blk list" where
  "cut sz b = (case b of (a, n, f) \<Rightarrow>
     if unat n \<le> unat sz + 40 then [(a, n, False)]
     else [(a, sz, False), (a + 24 + ucast sz, n - sz - 24, True)])"

text \<open>The heap of a single contiguous range of memory below 4 GiB.\<close>

definition heap_ok :: "'a heap_st_scheme \<Rightarrow> nat \<Rightarrow> blk list \<Rightarrow> nat \<Rightarrow> bool" where
  "heap_ok s lo bs hi \<longleftrightarrow>
     heap_list (heap_mem s) (heap_head s) bs \<and> tiled lo bs hi \<and> 4096 \<le> lo \<and> hi \<le> 2 ^ 32"

lemma cut_block:
  assumes t: "tiled lo (xs @ (a, n, True) # ys) hi" and lim: "4096 \<le> lo" "hi \<le> 2 ^ 32"
    and le: "sz \<le> n" and split: "\<not> unat n \<le> unat sz + 40"
  shows "unat (a + 24 + ucast sz) = unat a + 24 + unat sz"
    and "unat (n - sz - 24) = unat n - unat sz - 24"
    and "a + 24 + ucast sz \<notin> fst ` set (xs @ (a, n, True) # ys)"
proof -
  from t have m: "tiled lo xs (unat a)" "tiled (unat a + 24 + unat n) ys hi" "unat a + 24 + unat n \<le> hi"
    by (auto simp: tiled_append dest: tiled_le)
  show u: "unat (a + 24 + ucast sz) = unat a + 24 + unat sz"
    using m(3) lim split by (simp add: unat_word_ariths unat_ucast_u32)
  have s1: "unat (n - sz) = unat n - unat sz" using le by (simp add: unat_sub word_le_nat_alt)
  then show "unat (n - sz - 24) = unat n - unat sz - 24"
    using split by (simp add: unat_sub word_le_nat_alt)
  have "b \<noteq> a + 24 + ucast sz" if "(b, k, f) \<in> set xs" for b k f
    using tiled_mem [OF m(1) that] u by auto
  moreover have "b \<noteq> a + 24 + ucast sz" if "(b, k, f) \<in> set ys" for b k f
    using tiled_mem [OF m(2) that] u split by auto
  moreover have "a \<noteq> a + 24 + ucast sz" using u by (metis add_cancel_right_right add.assoc add_is_0 zero_neq_numeral)
  ultimately show "a + 24 + ucast sz \<notin> fst ` set (xs @ (a, n, True) # ys)" by force
qed

lemma cut_tiled:
  assumes "tiled lo (xs @ (a, n, True) # ys) hi" "4096 \<le> lo" "hi \<le> 2 ^ 32" "sz \<le> n"
  shows "tiled lo (xs @ cut sz (a, n, True) @ ys) hi"
proof (cases "unat n \<le> unat sz + 40")
  case True
  with assms(1) show ?thesis by (auto simp: cut_def tiled_append)
next
  case False
  note c = cut_block [OF assms False]
  have "unat sz \<le> unat n" using assms(4) by (simp add: word_le_nat_alt)
  with assms(1) c(1,2) False show ?thesis by (auto simp: cut_def tiled_append add.assoc)
qed

lemma heap_take_spec:
  assumes ok: "heap_ok s lo (xs @ (a, n, True) # ys) hi" and le: "sz \<le> n"
    and first: "\<forall>b \<in> set xs. \<not> fits sz b"
  shows "\<exists>s'. heap_take sz s = Some (a + 24, s') \<and> heap_ok s' lo (xs @ cut sz (a, n, True) @ ys) hi \<and>
              s' = s\<lparr>heap_mem := heap_mem s'\<rparr>"
proof -
  let ?bs = "xs @ (a, n, True) # ys" and ?m = "heap_mem s"
  have h: "heap_list ?m (heap_head s) ?bs" and t: "tiled lo ?bs hi" and lim: "4096 \<le> lo" "hi \<le> 2 ^ 32"
    using ok by (auto simp: heap_ok_def)
  have "find (fits sz) ?bs = Some (a, n, True)"
    using first le by (induction xs) auto
  then have ff: "first_fit ?m sz (heap_head s) = Some a" using first_fit_spec [OF h] by simp
  from heap_list_append_D [OF h] have a: "a \<noteq> 0" "hb_size (?m a) = n" "hb_free (?m a)"
    "hb_magic (?m a) = HEAP_BLOCK_MAGIC" "heap_list ?m (hb_next (?m a)) ys"
    by (auto simp: block_at_def)
  have dist: "a \<notin> fst ` set xs" "a \<notin> fst ` set ys" using heap_list_distinct [OF h] by auto
  have nb: "unat a + 24 + unat n \<le> hi" "4096 \<le> unat a"
    using tiled_mem [OF t, of a n True] lim(1) by auto
  have wrap: "n \<le> sz + 40 \<longleftrightarrow> unat n \<le> unat sz + 40"
  proof -
    have "unat sz \<le> unat n" using le by (simp add: word_le_nat_alt)
    then have "unat (sz + 40) = unat sz + 40" using nb lim by (simp add: unat_word_ariths)
    then show ?thesis by (simp add: word_le_nat_alt)
  qed
  define sm where "sm = split_block a sz ?m"
  define m' where "m' = sm(a := (sm a)\<lparr>hb_free := False\<rparr>)"
  have tk: "heap_take sz s = Some (a + 24, s\<lparr>heap_mem := m'\<rparr>)"
    using ff a(1) by (simp add: heap_take_def m'_def sm_def Let_def)
  have "heap_list m' (heap_head s) (xs @ cut sz (a, n, True) @ ys)"
  proof (cases "unat n \<le> unat sz + 40")
    case True
    then have m': "m' = ?m(a := (?m a)\<lparr>hb_free := False\<rparr>)"
      using wrap a(2) by (simp add: m'_def sm_def split_block_def Let_def HEAP_ALIGNMENT_def)
    show ?thesis
    proof (rule heap_list_replace [OF h])
      show "heap_list m' a (cut sz (a, n, True) @ ys)"
        using True a dist(2) by (simp add: cut_def m' block_at_def heap_list_upd)
    qed (use dist in \<open>auto simp: m'\<close>)
  next
    case False
    define b where "b = a + 24 + ucast sz"
    have b: "b \<notin> fst ` set ?bs" "unat b = unat a + 24 + unat sz"
      using cut_block [OF t lim le False] by (simp_all add: b_def)
    then have ab: "a \<noteq> b" "b \<noteq> 0" by auto
    define hb where "hb = \<lparr>hb_magic = HEAP_BLOCK_MAGIC, hb_size = n - sz - 24, hb_free = True, hb_next = hb_next (?m a)\<rparr>"
    have m': "m' = ?m(b := hb, a := (?m a)\<lparr>hb_size := sz, hb_next := b, hb_free := False\<rparr>)"
      using False wrap a(1,2) ab
      by (simp add: m'_def sm_def split_block_def Let_def HEAP_ALIGNMENT_def b_def hb_def)
    have "heap_list (?m(b := hb)) (hb_next (?m a)) ys" using a(5) b(1) by (intro heap_list_upd) auto
    then have ys: "heap_list m' (hb_next (?m a)) ys"
      unfolding m' using dist(2) by (rule heap_list_upd [rotated])
    have "m' b = hb" "m' a = (?m a)\<lparr>hb_size := sz, hb_next := b, hb_free := False\<rparr>"
      using ab by (simp_all add: m')
    then have "heap_list m' a (cut sz (a, n, True) @ ys)"
      using False a ab ys by (simp add: cut_def block_at_def b_def [symmetric] hb_def)
    then show ?thesis
      by (rule heap_list_replace [OF h, rotated]) (use dist b in \<open>auto simp: m'\<close>)
  qed
  with tk cut_tiled [OF t lim le] lim show ?thesis
    by (auto simp: heap_ok_def)
qed


section \<open>Freeing\<close>

text \<open>Freeing the block behind a pointer the heap handed out.\<close>

definition release :: "u64 \<Rightarrow> blk list \<Rightarrow> blk list" where
  "release ptr bs = merge (map (\<lambda>(a, n, f). (a, n, f \<or> a + 24 = ptr)) bs)"

lemma tiled_map_free: "tiled lo (map (\<lambda>(a, n, f). (a, n, g a f)) bs) hi \<longleftrightarrow> tiled lo bs hi"
  by (induction lo bs hi rule: tiled.induct) auto

lemma release_append:
  assumes "distinct (map fst (xs @ (a, n, f) # ys))"
  shows "release (a + 24) (xs @ (a, n, f) # ys) = merge (xs @ (a, n, True) # ys)"
proof -
  have "map (\<lambda>(b, n, f). (b, n, f \<or> b + 24 = a + 24)) zs = zs" if "a \<notin> fst ` set zs" for zs :: "blk list"
    using that by (induction zs) auto
  then show ?thesis using assms by (simp add: release_def)
qed

lemma coalesce_blocks_spec:
  assumes "heap_list (heap_mem s) (heap_head s) bs"
  shows "\<exists>m'. coalesce_blocks s = Some (s\<lparr>heap_mem := m'\<rparr>) \<and> heap_list m' (heap_head s) (merge bs)"
  using coalesce_loop_merge [OF assms] by (auto simp: coalesce_blocks_def)

lemma kfree_release:
  assumes ok: "heap_ok s lo bs hi" and b: "(a, n, f) \<in> set bs" and slab: "\<not> slab_owns (a + 24) s"
  shows "\<exists>s'. kfree (a + 24) s = Some s' \<and> heap_ok s' lo (release (a + 24) bs) hi \<and>
              no_free_pair (release (a + 24) bs) \<and> s' = s\<lparr>heap_mem := heap_mem s'\<rparr>"
proof -
  obtain xs ys where bs: "bs = xs @ (a, n, f) # ys" using b by (meson split_list)
  have h: "heap_list (heap_mem s) (heap_head s) bs" and t: "tiled lo bs hi" and lim: "4096 \<le> lo" "hi \<le> 2 ^ 32"
    using ok by (auto simp: heap_ok_def)
  have "unat (a + 24) \<noteq> 0"
    using tiled_mem [OF t b] lim by (simp add: unat_word_ariths)
  then have nz: "a + 24 \<noteq> 0" by (metis unat_0)
  have dist: "a \<notin> fst ` set xs" "a \<notin> fst ` set ys" using heap_list_distinct [OF h] bs by auto
  let ?m = "(heap_mem s)(a := (heap_mem s a)\<lparr>hb_free := True\<rparr>)"
  from heap_list_append_D [OF h [unfolded bs]] have a: "block_at (heap_mem s) (a, n, f)" "a \<noteq> 0"
    "heap_list (heap_mem s) (hb_next (heap_mem s a)) ys" by auto
  have "heap_list ?m (heap_head s) (xs @ (a, n, True) # ys)"
  proof (rule heap_list_replace [OF h [unfolded bs]])
    show "heap_list ?m a ((a, n, True) # ys)"
      using a dist(2) by (simp add: block_at_def heap_list_upd)
  qed (use dist in auto)
  then obtain m' where m': "coalesce_blocks (s\<lparr>heap_mem := ?m\<rparr>) = Some (s\<lparr>heap_mem := m'\<rparr>)"
    "heap_list m' (heap_head s) (merge (xs @ (a, n, True) # ys))"
    using coalesce_blocks_spec [of "s\<lparr>heap_mem := ?m\<rparr>"] by auto
  have rel: "release (a + 24) bs = merge (xs @ (a, n, True) # ys)"
    unfolding bs by (rule release_append) (use heap_list_distinct [OF h] bs in simp)
  have "tiled lo (release (a + 24) bs) hi"
    unfolding release_def using t lim by (intro merge_tiled) (simp_all add: tiled_map_free)
  moreover have "kfree (a + 24) s = Some (s\<lparr>heap_mem := m'\<rparr>)"
    using nz slab a(1) m'(1) by (simp add: kfree_def block_at_def)
  ultimately show ?thesis
    using m'(2) lim by (simp add: heap_ok_def rel no_free_pair_merge)
qed

lemma cut_release:
  assumes ok: "heap_ok s lo (xs @ cut sz (a, n, True) @ ys) hi" "sz \<le> n"
    and nfp: "no_free_pair (xs @ (a, n, True) # ys)"
  shows "release (a + 24) (xs @ cut sz (a, n, True) @ ys) = xs @ (a, n, True) # ys"
proof -
  have h: "heap_list (heap_mem s) (heap_head s) (xs @ cut sz (a, n, True) @ ys)"
    using ok by (simp add: heap_ok_def)
  show ?thesis
  proof (cases "unat n \<le> unat sz + 40")
    case True
    then show ?thesis
      using release_append [of xs a n False ys] heap_list_distinct [OF h] merge_id [OF nfp]
      by (simp add: cut_def)
  next
    case False
    let ?b = "a + 24 + ucast sz"
    have "release (a + 24) (xs @ (a, sz, False) # (?b, n - sz - 24, True) # ys)
        = merge (xs @ (a, sz, True) # (?b, n - sz - 24, True) # ys)"
      by (rule release_append) (use heap_list_distinct [OF h] False in \<open>simp add: cut_def\<close>)
    also have "\<dots> = xs @ (a, n, True) # ys" by (rule merge_rejoin [OF nfp]) simp
    finally show ?thesis using False by (simp add: cut_def)
  qed
qed


section \<open>Growing\<close>

lemma last_block_spec:
  "heap_list mem p (xs @ [(a, n, f)]) \<Longrightarrow> last_block mem p = Some a"
proof (induction xs arbitrary: p)
  case Nil
  then show ?case by (subst last_block.simps) simp
next
  case (Cons x xs)
  obtain b m g where x: "x = (b, m, g)" by (cases x)
  with Cons have "hb_next (mem p) \<noteq> 0" "last_block mem (hb_next (mem p)) = Some a"
    by (cases xs; auto)+
  then show ?case by (subst last_block.simps) simp
qed

text \<open>A new region is appended and coalesced with a free block in front of it, wherever the
  two lie.\<close>

lemma heap_add_region_spec:
  assumes h: "heap_list (heap_mem s) (heap_head s) (xs @ [(a, n, f)])"
    and r: "region_count s < HEAP_MAX_REGIONS" "24 < sz" "phys \<noteq> 0" "phys \<notin> fst ` set (xs @ [(a, n, f)])"
  shows "\<exists>s'. heap_add_region phys sz s = Some (True, s') \<and> heap_head s' = heap_head s \<and>
     heap_list (heap_mem s') (heap_head s') (merge (xs @ [(a, n, f), (phys, ucast (sz - 24), True)])) \<and>
     region_count s' = Suc (region_count s) \<and> heap_total_size s' = heap_total_size s + ucast sz"
proof -
  let ?nb = "\<lparr>hb_magic = HEAP_BLOCK_MAGIC, hb_size = ucast (sz - 24), hb_free = True, hb_next = 0\<rparr>"
  let ?m1 = "(heap_mem s)(phys := ?nb)"
  let ?m2 = "?m1(a := (?m1 a)\<lparr>hb_next := phys\<rparr>)"
  have h1: "heap_list ?m1 (heap_head s) (xs @ [(a, n, f)])" using h r(4) by (intro heap_list_upd) simp
  have hd: "heap_head s \<noteq> 0" using h by (cases xs) (auto simp: heap_list_def)
  have dist: "a \<notin> fst ` set xs" using heap_list_distinct [OF h] by auto
  have "heap_list ?m2 (heap_head s) (xs @ [(a, n, f), (phys, ucast (sz - 24), True)])"
  proof (rule heap_list_replace [OF h1])
    from heap_list_append_D [OF h1] have "block_at ?m1 (a, n, f)" "a \<noteq> 0" by auto
    moreover have "?m2 phys = ?nb" using r(4) by auto
    ultimately show "heap_list ?m2 a [(a, n, f), (phys, ucast (sz - 24), True)]"
      using r(3) by (simp add: block_at_def)
  qed (use dist in auto)
  moreover define s1 where "s1 = s\<lparr>regions := (regions s)[region_count s := \<lparr>hr_phys_addr = phys, hr_size = sz\<rparr>],
      region_count := Suc (region_count s), heap_mem := ?m1, heap_total_size := heap_total_size s + ucast sz\<rparr>"
  ultimately obtain m' where m': "coalesce_blocks (s1\<lparr>heap_mem := ?m2\<rparr>) = Some (s1\<lparr>heap_mem := m'\<rparr>)"
    "heap_list m' (heap_head s) (merge (xs @ [(a, n, f), (phys, ucast (sz - 24), True)]))"
    using coalesce_blocks_spec [of "s1\<lparr>heap_mem := ?m2\<rparr>"] by auto
  have "last_block ?m1 (heap_head s) = Some a" by (rule last_block_spec [OF h1])
  then have "heap_add_region phys sz s = Some (True, s1\<lparr>heap_mem := m'\<rparr>)"
    using r hd m'(1) by (simp add: heap_add_region_def Let_def s1_def)
  with m'(2) show ?thesis by (auto simp: s1_def)
qed

lemma heap_walk_spec:
  "heap_list mem p bs \<Longrightarrow>
   heap_walk mem p st = Some (st\<lparr>
     block_count := block_count st + of_nat (length bs),
     used_size := used_size st + (\<Sum>(a, n, f) \<leftarrow> bs. if f then 0 else n),
     free_size := free_size st + (\<Sum>(a, n, f) \<leftarrow> bs. if f then n else 0),
     free_block_count := free_block_count st + of_nat (length (filter (\<lambda>(a, n, f). f) bs))\<rparr>)"
proof (induction bs arbitrary: p st)
  case Nil
  then show ?case by (subst heap_walk.simps) simp
next
  case (Cons b bs)
  obtain a n f where b: "b = (a, n, f)" by (cases b)
  with Cons show ?case
    by (subst heap_walk.simps) (auto simp: block_at_def Let_def add.assoc add.commute add.left_commute)
qed


lemma mark_range_heap:
  "heap_head (mark_range a n u s) = heap_head s"
  "region_count (mark_range a n u s) = region_count s"
proof -
  have one: "heap_head (mark_frame f u s) = heap_head s \<and> region_count (mark_frame f u s) = region_count s"
    for f and s :: "'a heap_st_scheme"
    by (simp add: mark_frame_def Let_def)
  have "heap_head (fold (\<lambda>f. mark_frame f u) fs s) = heap_head s \<and>
        region_count (fold (\<lambda>f. mark_frame f u) fs s) = region_count s" for fs
    by (induction fs arbitrary: s) (simp_all add: one)
  then show "heap_head (mark_range a n u s) = heap_head s"
    "region_count (mark_range a n u s) = region_count s"
    by (simp_all add: mark_range_def Let_def)
qed

text \<open>\<^verbatim>\<open>heap_init\<close> leaves one free block that spans the first region.\<close>

lemma heap_init_ok:
  assumes inv: "physmem_inv s"
    and al: "physmem_alloc_region HEAP_INITIAL_SIZE 4096
               (s\<lparr>heap_head := 0, region_count := 0, heap_total_size := 0\<rparr>) = (phys, s1)" "phys \<noteq> 0"
  shows "\<exists>s'. heap_init s = Some s' \<and>
     heap_ok s' (unat phys) [(ucast phys, 0x3FFFE8, True)] (unat phys + 0x400000)"
proof -
  let ?s0 = "s\<lparr>heap_head := 0, region_count := 0, heap_total_size := 0\<rparr>"
  have inv0: "physmem_inv ?s0"
    using inv by (simp add: physmem_inv_def free_set_def frame_is_marked_def)
  have sz: "HEAP_INITIAL_SIZE \<noteq> 0" "unat HEAP_INITIAL_SIZE \<le> 0xFFFFF000" "unat HEAP_INITIAL_SIZE = 0x400000"
    by (simp_all add: HEAP_INITIAL_SIZE_def)
  from inv0 sz(1,2) al(1) obtain sf where sf: "phys = of_nat (sf * 4096)" "sf + 1024 < PHYSMEM_MAX_FRAMES" "256 \<le> sf"
    by (cases rule: alloc_region_cases) (use al(2) sz(3) in \<open>auto simp del: of_nat_mult\<close>)
  then have u: "unat phys = sf * 4096" using unat_frame_addr [of sf] by (simp del: of_nat_mult)
  have lim: "sf * 4096 + 0x400000 \<le> 2 ^ 32" using sf(2) by (simp add: PHYSMEM_MAX_FRAMES_def)
  have frame: "heap_head s1 = 0" "region_count s1 = 0"
    using al(1) by (auto simp: physmem_alloc_region_def mark_range_heap Let_def split: if_splits option.splits)
  have "(ucast phys :: u64) \<noteq> 0" using al(2) by (simp add: ucast_0_u64)
  then show ?thesis
    using al frame u lim sf(3)
    by (auto simp: heap_init_def heap_add_region_def HEAP_MAX_REGIONS_def HEAP_INITIAL_SIZE_def Let_def
        heap_ok_def block_at_def slab_init_def unat_ucast_u32)
qed

section \<open>The blocks handed out\<close>

definition heap_used :: "blk list \<Rightarrow> (u64 \<times> nat) set" where
  "heap_used bs = {(a + 24, unat n) |a n. (a, n, False) \<in> set bs}"

lemma unat_payload:
  "tiled lo bs hi \<Longrightarrow> hi \<le> 2 ^ 32 \<Longrightarrow> (a, n, f) \<in> set bs \<Longrightarrow> unat (a + 24) = unat a + 24"
  using tiled_mem [of lo bs hi a n f] by (simp add: unat_word_ariths)

lemma tiled_apart:
  "tiled lo bs hi \<Longrightarrow> (a, n, f) \<in> set bs \<Longrightarrow> (b, m, g) \<in> set bs \<Longrightarrow> (a, n, f) \<noteq> (b, m, g) \<Longrightarrow>
   unat a + 24 + unat n \<le> unat b \<or> unat b + 24 + unat m \<le> unat a"
proof (induction lo bs hi rule: tiled.induct)
  case (2 lo c k h bs hi)
  then show ?case using tiled_mem [of "lo + 24 + unat k" bs hi] by fastforce
qed simp

lemma heap_used_apart:
  assumes "tiled lo bs hi" "hi \<le> 2 ^ 32" "(p, m) \<in> heap_used bs" "(q, k) \<in> heap_used bs" "p \<noteq> q"
  shows "unat p + m \<le> unat q \<or> unat q + k \<le> unat p"
proof -
  obtain a n b l where ab: "p = a + 24" "m = unat n" "(a, n, False) \<in> set bs"
    "q = b + 24" "k = unat l" "(b, l, False) \<in> set bs"
    using assms(3,4) by (auto simp: heap_used_def)
  then have "(a, n, False) \<noteq> (b, l, False)" using assms(5) by auto
  from tiled_apart [OF assms(1) ab(3,6) this] show ?thesis
    using unat_payload [OF assms(1,2) ab(3)] unat_payload [OF assms(1,2) ab(6)] ab by auto
qed

lemma heap_used_append: "heap_used (xs @ ys) = heap_used xs \<union> heap_used ys"
  by (auto simp: heap_used_def)

lemma heap_used_cut:
  "heap_used (cut sz (a, n, True)) = {(a + 24, if unat n \<le> unat sz + 40 then unat n else unat sz)}"
  by (auto simp: heap_used_def cut_def)

lemma unat_heap_align_up:
  "unat sz \<le> 0xFFFFFFF0 \<Longrightarrow> unat (heap_align_up sz) = (unat sz + 15) div 16 * 16"
  using unat_and_not_mask [of 4 "sz + 15"]
  by (simp add: heap_align_up_def HEAP_ALIGNMENT_def Let_def unat_word_ariths)

lemma heap_align_up_wraps: "0xFFFFFFF0 < unat sz \<Longrightarrow> heap_align_up sz = 0"
proof -
  assume "0xFFFFFFF0 < unat sz"
  then have "unat (sz + 15) = unat sz + 15 - 2 ^ 32"
    using unat_u32_less [of sz] by (simp add: unat_word_ariths mod_if)
  moreover have "unat sz + 15 - 2 ^ 32 < 16" using unat_u32_less [of sz] by simp
  ultimately have "unat (heap_align_up sz) = 0"
    using unat_and_not_mask [of 4 "sz + 15"]
    by (simp add: heap_align_up_def HEAP_ALIGNMENT_def Let_def)
  then show ?thesis by (simp add: unat_eq_0)
qed

lemma find_split:
  "find P bs = Some b \<Longrightarrow> \<exists>xs ys. bs = xs @ b # ys \<and> P b \<and> (\<forall>x \<in> set xs. \<not> P x)"
proof (induction bs)
  case (Cons c bs)
  show ?case
  proof (cases "P c")
    case True
    with Cons.prems show ?thesis by (intro exI [of _ "[]"] exI [of _ bs]) auto
  next
    case False
    with Cons obtain xs ys where "bs = xs @ b # ys" "P b" "\<forall>x \<in> set xs. \<not> P x" by auto
    with False show ?thesis by (intro exI [of _ "c # xs"] exI [of _ ys]) auto
  qed
qed simp

lemma kmalloc_take:
  assumes ok: "heap_ok s lo bs hi" and sz: "2048 < unat sz"
    and fit: "find (fits (heap_align_up sz)) bs = Some (a, k, True)"
  obtains s' xs ys where "kmalloc sz s = Some (a + 24, s')" "bs = xs @ (a, k, True) # ys"
    "heap_align_up sz \<le> k" "heap_ok s' lo (xs @ cut (heap_align_up sz) (a, k, True) @ ys) hi"
    "s' = s\<lparr>heap_mem := heap_mem s'\<rparr>"
proof -
  obtain xs ys where bs: "bs = xs @ (a, k, True) # ys" "heap_align_up sz \<le> k"
    "\<forall>b \<in> set xs. \<not> fits (heap_align_up sz) b"
    using find_split [OF fit] by auto
  from heap_take_spec [OF ok [unfolded bs(1)] bs(2,3)] obtain s' where s':
    "heap_take (heap_align_up sz) s = Some (a + 24, s')"
    "heap_ok s' lo (xs @ cut (heap_align_up sz) (a, k, True) @ ys) hi" "s' = s\<lparr>heap_mem := heap_mem s'\<rparr>"
    by blast
  have t: "tiled lo bs hi" "hi \<le> 2 ^ 32" using ok by (auto simp: heap_ok_def)
  have "unat (a + 24) = unat a + 24" by (rule unat_payload [OF t, of a k True]) (simp add: bs)
  then have "a + 24 \<noteq> 0" by (metis unat_0 add_is_0 zero_neq_numeral)
  moreover have "heap_head s \<noteq> 0" using ok bs(1) by (auto simp: heap_ok_def heap_list_def Cons_eq_append_conv
        neq_Nil_conv chain_0 simp del: chain.simps)
  moreover have "sz \<noteq> 0" "\<not> sz \<le> SLAB_MAX_OBJ" using sz by (auto simp: SLAB_MAX_OBJ_def word_le_nat_alt)
  ultimately have "kmalloc sz s = Some (a + 24, s')"
    using s'(1) by (simp add: kmalloc_def kmalloc_blocks_def)
  with bs(1,2) s'(2,3) show thesis by (intro that)
qed


section \<open>What the allocators do not write\<close>

lemma physmem_more_slab: "physmem.more s = physmem.more t \<Longrightarrow> slab_st.more s = slab_st.more t"
  by (cases s, cases t) simp

lemma physmem_more_heap: "physmem.more s = physmem.more t \<Longrightarrow> heap_st.more s = heap_st.more t"
  by (cases s, cases t) simp

lemma slab_more_heap: "slab_st.more s = slab_st.more t \<Longrightarrow> heap_st.more s = heap_st.more t"
  by (cases s, cases t) simp

lemma alloc_frame_more: "physmem_alloc_frame s = (a, s') \<Longrightarrow> physmem.more s' = physmem.more s"
  by (auto simp: physmem_alloc_frame_def Let_def split: option.splits)

lemma alloc_region_more: "physmem_alloc_region sz al s = (a, s') \<Longrightarrow> physmem.more s' = physmem.more s"
  by (auto simp: physmem_alloc_region_def Let_def split: option.splits if_splits)

lemma slab_pop_more: "slab_pop ci page s = (r, s') \<Longrightarrow> slab_st.more s' = slab_st.more s"
  by (auto simp: slab_pop_def Let_def split: if_splits)

lemma slab_page_create_more: "slab_page_create ci s = (r, s') \<Longrightarrow> slab_st.more s' = slab_st.more s"
  by (auto simp: slab_page_create_def Let_def split: if_splits prod.splits
      dest!: alloc_frame_more [THEN physmem_more_slab])

lemma slab_alloc_more: "slab_alloc sz s = (r, s') \<Longrightarrow> slab_st.more s' = slab_st.more s"
  by (fastforce simp: slab_alloc_def Let_def split: if_splits prod.splits
      dest: slab_pop_more slab_page_create_more)

lemma slab_free_more: "slab_free p s = Some s' \<Longrightarrow> slab_st.more s' = slab_st.more s"
  by (auto simp: slab_free_def slab_move_to_partial_def Let_def split: if_splits prod.splits)

lemma coalesce_blocks_more: "coalesce_blocks s = Some s' \<Longrightarrow> heap_st.more s' = heap_st.more s"
  by (auto simp: coalesce_blocks_def)

lemma heap_add_region_more: "heap_add_region phys sz s = Some (r, s') \<Longrightarrow> heap_st.more s' = heap_st.more s"
  by (auto simp: heap_add_region_def Let_def bind_eq_Some_conv split: if_splits dest!: coalesce_blocks_more)

lemma heap_grow_more: "heap_grow s = Some (r, s') \<Longrightarrow> heap_st.more s' = heap_st.more s"
  by (auto simp: heap_grow_def split: if_splits prod.splits
      dest!: heap_add_region_more alloc_region_more [THEN physmem_more_heap])

lemma heap_take_more: "heap_take sz s = Some (r, s') \<Longrightarrow> heap_st.more s' = heap_st.more s"
  by (auto simp: heap_take_def Let_def split: if_splits)

lemma kmalloc_blocks_more: "kmalloc_blocks sz s = Some (r, s') \<Longrightarrow> heap_st.more s' = heap_st.more s"
  by (auto simp: kmalloc_blocks_def bind_eq_Some_conv split: if_splits dest!: heap_take_more heap_grow_more)

lemma kmalloc_more: "kmalloc sz s = Some (r, s') \<Longrightarrow> heap_st.more s' = heap_st.more s"
  by (auto simp: kmalloc_def split: if_splits prod.splits
      dest!: kmalloc_blocks_more slab_alloc_more [THEN slab_more_heap])

lemma kfree_more: "kfree p s = Some s' \<Longrightarrow> heap_st.more s' = heap_st.more s"
  by (auto simp: kfree_def Let_def split: if_splits
      dest!: coalesce_blocks_more slab_free_more [THEN slab_more_heap])

section \<open>Properties\<close>

definition small_heap :: heap_st where
  "small_heap =
     \<lparr>frame_bitmap = frame_bitmap small_mem, frame_refcount = frame_refcount small_mem,
      total_frames = 264, free_frames = 8, highest_address = 0x108000,
      slab_mem = slab_mem small_slab, obj_next = (\<lambda>_. 0), slab_caches = slab_caches small_slab, slab_ready = True,
      heap_mem = (\<lambda>_. \<lparr>hb_magic = HEAP_BLOCK_MAGIC, hb_size = 0x3FFFE8, hb_free = True, hb_next = 0\<rparr>),
      heap_head = 0x200000, regions = [], region_count = 1, heap_total_size = 0x400000\<rparr>"

lemma small_heap_ok: "heap_ok small_heap 0x200000 [(0x200000, 0x3FFFE8, True)] 0x600000"
  by (simp add: heap_ok_def small_heap_def block_at_def)

lemma small_heap_not_slab: "\<not> slab_owns p (small_heap\<lparr>heap_mem := m\<rparr>)"
  by (simp add: slab_owns_def small_heap_def small_slab_def slab_init_def SLAB_MAGIC_def)

text \<open>C23: a large \<^verbatim>\<open>kmalloc\<close> takes the first free block that is large enough: it returns a
  pointer that was not handed out, to at least the number of bytes asked for; the blocks
  handed out are the old ones and the new one, and no two of them overlap.\<close>

theorem kmalloc_first_fit:
  assumes ok: "heap_ok s lo bs hi" and sz: "2048 < unat sz" "unat sz \<le> 0xFFFFFFF0"
    and fit: "find (fits (heap_align_up sz)) bs = Some (a, k, True)"
  shows "\<exists>s' bs' m. kmalloc sz s = Some (a + 24, s') \<and> heap_ok s' lo bs' hi \<and> unat sz \<le> m \<and>
     heap_used bs' = insert (a + 24, m) (heap_used bs) \<and> a + 24 \<notin> fst ` heap_used bs \<and>
     (\<forall>(p, m) \<in> heap_used bs'. \<forall>(q, k) \<in> heap_used bs'. p \<noteq> q \<longrightarrow> unat p + m \<le> unat q \<or> unat q + k \<le> unat p)"
proof -
  obtain s' xs ys where k: "kmalloc sz s = Some (a + 24, s')" "bs = xs @ (a, k, True) # ys"
    "heap_align_up sz \<le> k" "heap_ok s' lo (xs @ cut (heap_align_up sz) (a, k, True) @ ys) hi"
    using ok sz(1) fit by (rule kmalloc_take) blast
  let ?bs' = "xs @ cut (heap_align_up sz) (a, k, True) @ ys"
  let ?m = "if unat k \<le> unat (heap_align_up sz) + 40 then unat k else unat (heap_align_up sz)"
  have "unat sz \<le> unat (heap_align_up sz)" unfolding unat_heap_align_up [OF sz(2)] by simp
  then have m: "unat sz \<le> ?m" using k(3) by (simp add: word_le_nat_alt)
  have used: "heap_used ?bs' = insert (a + 24, ?m) (heap_used bs)"
  proof -
    have "heap_used bs = heap_used xs \<union> heap_used ys" by (auto simp: k(2) heap_used_def)
    then show ?thesis unfolding heap_used_append heap_used_cut by simp
  qed
  have t: "tiled lo bs hi" "hi \<le> 2 ^ 32" and t': "tiled lo ?bs' hi" using ok k(4) by (auto simp: heap_ok_def)
  have "a + 24 \<notin> fst ` heap_used bs"
  proof
    assume "a + 24 \<in> fst ` heap_used bs"
    then obtain n where "(a, n, False) \<in> set bs" by (auto simp: heap_used_def)
    then show False using tiled_apart [OF t(1), of a n False a k True] k(2) by auto
  qed
  moreover have "\<forall>(p, m) \<in> heap_used ?bs'. \<forall>(q, k) \<in> heap_used ?bs'. p \<noteq> q \<longrightarrow> unat p + m \<le> unat q \<or> unat q + k \<le> unat p"
    using heap_used_apart [OF t' t(2)] by fast
  ultimately show ?thesis using k(1,4) m used by blast
qed

theorem kmalloc_first_fit_witness:
  "\<exists>s' bs' m. kmalloc 5000 small_heap = Some (0x200018, s') \<and> heap_ok s' 0x200000 bs' 0x600000 \<and>
     5000 \<le> m \<and> heap_used bs' = {(0x200018, m)}"
proof -
  have "find (fits (heap_align_up 5000)) [(0x200000, 0x3FFFE8, True)] = Some (0x200000, 0x3FFFE8, True)"
    by (simp add: heap_align_up_def HEAP_ALIGNMENT_def)
  from kmalloc_first_fit [OF small_heap_ok _ _ this] obtain s' bs' m where
    "kmalloc 5000 small_heap = Some (0x200000 + 24, s')" "heap_ok s' 0x200000 bs' 0x600000" "5000 \<le> m"
    "heap_used bs' = insert (0x200000 + 24, m) (heap_used [(0x200000, 0x3FFFE8, True)])"
    by auto
  moreover have "heap_used [(0x200000, 0x3FFFE8, True)] = {}" by (simp add: heap_used_def)
  ultimately show ?thesis by auto
qed

text \<open>C24: for a request above the sizes of the slab allocator that a block of the list can hold, in a heap of one
  contiguous range, \<^verbatim>\<open>kfree\<close> of the pointer that \<^verbatim>\<open>kmalloc\<close> returns gives back the very same list of
  blocks, split blocks rejoined, when the list had no two neighbouring free blocks. (A request that makes the heap grow
  leaves the new region in the list.)\<close>

theorem kmalloc_kfree_round_trip:
  assumes ok: "heap_ok s lo bs hi" and nfp: "no_free_pair bs" and sz: "2048 < unat sz"
    and fit: "find (fits (heap_align_up sz)) bs = Some (a, k, True)" and slab: "\<not> slab_owns (a + 24) s"
  shows "\<exists>s' s''. kmalloc sz s = Some (a + 24, s') \<and> kfree (a + 24) s' = Some s'' \<and> heap_ok s'' lo bs hi"
proof -
  obtain s' xs ys where m: "kmalloc sz s = Some (a + 24, s')" "bs = xs @ (a, k, True) # ys"
    "heap_align_up sz \<le> k" "heap_ok s' lo (xs @ cut (heap_align_up sz) (a, k, True) @ ys) hi"
    "s' = s\<lparr>heap_mem := heap_mem s'\<rparr>"
    using ok sz fit by (rule kmalloc_take)
  have "\<exists>n f. (a, n, f) \<in> set (xs @ cut (heap_align_up sz) (a, k, True) @ ys)" by (auto simp: cut_def)
  then obtain n f where "(a, n, f) \<in> set (xs @ cut (heap_align_up sz) (a, k, True) @ ys)" by blast
  moreover have "\<not> slab_owns (a + 24) s'" using slab by (subst m(5)) (auto simp: slab_owns_def split: if_splits)
  ultimately obtain s'' where "kfree (a + 24) s' = Some s''"
    "heap_ok s'' lo (release (a + 24) (xs @ cut (heap_align_up sz) (a, k, True) @ ys)) hi"
    using kfree_release [OF m(4)] by blast
  with cut_release [OF m(4,3) nfp [unfolded m(2)]] m(1,2) show ?thesis by auto
qed

theorem kmalloc_kfree_round_trip_witness:
  "\<exists>s' s''. kmalloc 5000 small_heap = Some (0x200018, s') \<and> kfree 0x200018 s' = Some s'' \<and>
     heap_ok s'' 0x200000 [(0x200000, 0x3FFFE8, True)] 0x600000"
proof -
  have "find (fits (heap_align_up 5000)) [(0x200000, 0x3FFFE8, True)] = Some (0x200000, 0x3FFFE8, True)"
    by (simp add: heap_align_up_def HEAP_ALIGNMENT_def)
  moreover have "\<not> slab_owns (0x200000 + 24) small_heap"
    using small_heap_not_slab [of _ "heap_mem small_heap"] by simp
  ultimately show ?thesis using kmalloc_kfree_round_trip [OF small_heap_ok _ _, of 5000] by simp
qed

text \<open>C25: \<^verbatim>\<open>kfree\<close> of a pointer to a block of the heap keeps the blocks tiling the same range,
  takes exactly that block out of the blocks handed out and leaves no two neighbouring free
  blocks.\<close>

theorem kfree_spec:
  assumes ok: "heap_ok s lo bs hi" and b: "(a, n, False) \<in> set bs" and slab: "\<not> slab_owns (a + 24) s"
  shows "\<exists>s' bs'. kfree (a + 24) s = Some s' \<and> heap_ok s' lo bs' hi \<and> no_free_pair bs' \<and>
     heap_used bs' = heap_used bs - {(a + 24, unat n)}"
proof -
  have t: "tiled lo bs hi" using ok by (simp add: heap_ok_def)
  have "(c, k, False) \<in> set (release (a + 24) bs) \<longleftrightarrow> (c, k, False) \<in> set bs \<and> c \<noteq> a" for c k
    by (auto simp: release_def merge_used image_iff split: prod.splits)
  then have "heap_used (release (a + 24) bs) = {(c + 24, unat k) |c k. (c, k, False) \<in> set bs \<and> c \<noteq> a}"
    by (simp add: heap_used_def)
  also have "\<dots> = heap_used bs - {(a + 24, unat n)}"
    using tiled_apart [OF t _ b] by (fastforce simp: heap_used_def)
  finally have "heap_used (release (a + 24) bs) = heap_used bs - {(a + 24, unat n)}" .
  with kfree_release [OF ok b slab] show ?thesis by blast
qed


definition small_heap_used :: heap_st where
  "small_heap_used = small_heap\<lparr>heap_mem :=
     (\<lambda>_. \<lparr>hb_magic = HEAP_BLOCK_MAGIC, hb_size = 0x3FFFE8, hb_free = False, hb_next = 0\<rparr>)\<rparr>"

lemma small_heap_used_ok: "heap_ok small_heap_used 0x200000 [(0x200000, 0x3FFFE8, False)] 0x600000"
  by (simp add: heap_ok_def small_heap_used_def small_heap_def block_at_def)

theorem kfree_spec_witness:
  "\<exists>s' bs'. kfree 0x200018 small_heap_used = Some s' \<and> heap_ok s' 0x200000 bs' 0x600000 \<and> heap_used bs' = {}"
proof -
  have "\<not> slab_owns (0x200000 + 24) small_heap_used"
    unfolding small_heap_used_def by (rule small_heap_not_slab)
  from kfree_spec [OF small_heap_used_ok _ this] obtain s' bs' where
    "kfree (0x200000 + 24) small_heap_used = Some s'" "heap_ok s' 0x200000 bs' 0x600000"
    "heap_used bs' = heap_used [(0x200000, 0x3FFFE8, False)] - {(0x200000 + 24, unat (0x3FFFE8 :: u32))}"
    by auto
  moreover have "heap_used [(0x200000, 0x3FFFE8, False)] = {(0x200000 + 24, unat (0x3FFFE8 :: u32))}"
    by (auto simp: heap_used_def)
  ultimately show ?thesis by auto
qed

lemma sizes_fit:
  assumes "tiled lo bs hi" "hi \<le> 2 ^ 32" "0 < lo"
  shows "unat (\<Sum>(a, n, f) \<leftarrow> bs. if f = v then n else 0) = (\<Sum>(a, n, f) \<leftarrow> bs. if f = v then unat n else 0)"
    "(\<Sum>(a, n, f) \<leftarrow> bs. if f = True then unat n else 0) + (\<Sum>(a, n, f) \<leftarrow> bs. if f = False then unat n else 0) + 24 * length bs = hi - lo"
proof -
  have all: "(\<Sum>(a, n, f) \<leftarrow> bs. if f = True then unat n else 0) + (\<Sum>(a, n, f) \<leftarrow> bs. if f = False then unat n else 0)
      + 24 * length bs + lo = hi" if "tiled lo bs hi" for lo bs
    using that
  proof (induction bs arbitrary: lo)
    case (Cons b bs)
    obtain a n f where b: "b = (a, n, f)" by (cases b)
    then have "tiled (lo + 24 + unat n) bs hi" using Cons.prems by simp
    from Cons.IH [OF this] show ?case by (simp add: b)
  qed simp
  from all [OF assms(1)] show "(\<Sum>(a, n, f) \<leftarrow> bs. if f = True then unat n else 0) +
      (\<Sum>(a, n, f) \<leftarrow> bs. if f = False then unat n else 0) + 24 * length bs = hi - lo" by simp
  show "unat (\<Sum>(a, n, f) \<leftarrow> bs. if f = v then n else 0) = (\<Sum>(a, n, f) \<leftarrow> bs. if f = v then unat n else 0)"
    using assms
  proof (induction bs arbitrary: lo)
    case (Cons b bs)
    obtain a n f where b: "b = (a, n, f)" by (cases b)
    with Cons.prems have tl: "tiled (lo + 24 + unat n) bs hi" by simp
    have "(\<Sum>(a, n, f) \<leftarrow> bs. if f = v then unat n else 0) + unat n < 2 ^ 32"
      using all [OF tl] Cons.prems(2,3) by (cases v) simp_all
    then show ?case using Cons.IH [OF tl] Cons.prems b by (simp add: unat_word_ariths(1))
  qed simp
qed

text \<open>\<^verbatim>\<open>heap_get_stats\<close> reports the total size of the blocks in use, the total size of the free blocks and the numbers of
  both, and the figures account for every byte: with a header per block they add up to the extent of the heap.\<close>

lemma heap_get_stats_spec:
  assumes "heap_ok s lo bs hi"
  shows "\<exists>st. heap_get_stats s = Some st \<and> total_size st = heap_total_size s \<and>
     unat (used_size st) = (\<Sum>(a, n, f) \<leftarrow> bs. if f = False then unat n else 0) \<and>
     unat (free_size st) = (\<Sum>(a, n, f) \<leftarrow> bs. if f = True then unat n else 0) \<and>
     unat (used_size st) + unat (free_size st) + 24 * length bs = hi - lo \<and>
     unat (block_count st) = length bs \<and> unat (free_block_count st) = length (filter (\<lambda>(a, n, f). f) bs)"
proof -
  have h: "heap_list (heap_mem s) (heap_head s) bs" and t: "tiled lo bs hi" "hi \<le> 2 ^ 32" "0 < lo"
    using assms by (auto simp: heap_ok_def)
  note sum = sizes_fit [OF t]
  have lt: "length bs < 2 ^ 32" using sum(2) t by simp
  then have len: "unat (of_nat n :: u32) = n" if "n \<le> length bs" for n
    using that by (simp add: unat_of_nat take_bit_nat_eq_self)
  have "(if f then (0 :: u32) else n) = (if f = False then n else 0)" "(if f then n else (0 :: u32)) = (if f = True then n else 0)" for f n
    by simp_all
  then show ?thesis
    using heap_walk_spec [OF h] sum(1) [of True] sum(1) [of False] sum(2) len [of "length bs"] len [OF length_filter_le]
    by (simp add: heap_get_stats_def)
qed

text \<open>C26: \<^verbatim>\<open>kmalloc\<close> of more than \<open>0xFFFFFFF0\<close> bytes rounds the size to zero. In a heap of one contiguous range with a free
  block anywhere, it succeeds with a pointer to the first free block, whatever its size: the block handed out has no bytes at
  all, or as many as the free block had if that had at most 40, too few to split.\<close>

theorem kmalloc_size_wraps:
  assumes ok: "heap_ok s lo (xs @ (a, k, True) # ys) hi" and used: "\<forall>(b, n, f) \<in> set xs. \<not> f" and sz: "0xFFFFFFF0 < unat sz"
  shows "\<exists>s'. kmalloc sz s = Some (a + 24, s') \<and>
     heap_ok s' lo (xs @ (if unat k \<le> 40 then [(a, k, False)] else [(a, 0, False), (a + 24, k - 24, True)]) @ ys) hi"
proof -
  have fit: "find (fits (heap_align_up sz)) (xs @ (a, k, True) # ys) = Some (a, k, True)"
    using used by (induction xs) (auto simp: heap_align_up_wraps [OF sz])
  have "2048 < unat sz" using sz by simp
  from ok this fit obtain s' us zs where m: "kmalloc sz s = Some (a + 24, s')"
    "xs @ (a, k, True) # ys = us @ (a, k, True) # zs"
    "heap_ok s' lo (us @ cut (heap_align_up sz) (a, k, True) @ zs) hi"
    by (rule kmalloc_take)
  have "heap_list (heap_mem s) (heap_head s) (xs @ (a, k, True) # ys)" using ok unfolding heap_ok_def by blast
  then have "distinct (map fst (xs @ (a, k, True) # ys))" by (rule heap_list_distinct)
  then have "(a, k, True) \<notin> set xs \<and> (a, k, True) \<notin> set ys" by force
  then have "us = xs" "zs = ys" using m(2) append_Cons_eq_iff [of "(a, k, True)" xs ys us zs] by simp_all
  with m(1,3) show ?thesis by (auto simp: cut_def heap_align_up_wraps [OF sz])
qed

theorem kmalloc_size_wraps_witness:
  "\<exists>s'. kmalloc 0xFFFFFFF8 small_heap = Some (0x200018, s') \<and>
     heap_ok s' 0x200000 [(0x200000, 0, False), (0x200018, 0x3FFFD0, True)] 0x600000"
  using kmalloc_size_wraps [of small_heap "0x200000" "[]" "0x200000" "0x3FFFE8" "[]" "0x600000" "0xFFFFFFF8"] small_heap_ok by simp

text \<open>C27: when the heap grows behind a free last block, the block and the new region are
  merged whether or not they are neighbours: the merged block starts at the old one, has
  the size of both, and so covers the bytes behind the old block, which belong to neither.\<close>

theorem heap_add_region_merges_gap:
  assumes h: "heap_list (heap_mem s) (heap_head s) (xs @ [(a, n, True)])" "no_free_pair (xs @ [(a, n, True)])"
    and r: "region_count s < HEAP_MAX_REGIONS" "24 < sz" "phys \<noteq> 0" "phys \<notin> fst ` set (xs @ [(a, n, True)])"
    and gap: "unat a + 24 + unat n < unat phys"
  shows "\<exists>s'. heap_add_region phys sz s = Some (True, s') \<and>
     heap_list (heap_mem s') (heap_head s') (xs @ [(a, n + 24 + ucast (sz - 24), True)])"
proof -
  have "merge (xs @ [(a, n, True), (phys, ucast (sz - 24), True)]) = xs @ [(a, n + 24 + ucast (sz - 24), True)]"
  proof (rule merge_rejoin)
    show "no_free_pair (xs @ (a, n + 24 + ucast (sz - 24), True) # [])"
      using h(2) by (induction xs rule: no_free_pair.induct) auto
  qed simp
  with heap_add_region_spec [OF h(1) r] show ?thesis by auto
qed

theorem heap_add_region_merges_gap_witness:
  "\<exists>s'. heap_add_region 0x900000 0x200000 small_heap = Some (True, s') \<and>
     heap_list (heap_mem s') (heap_head s') [(0x200000, 0x5FFFE8, True)]"
proof -
  have "heap_list (heap_mem small_heap) (heap_head small_heap) ([] @ [(0x200000, 0x3FFFE8, True)])"
    using small_heap_ok by (simp add: heap_ok_def)
  from heap_add_region_merges_gap [OF this, where sz = "0x200000" and phys = "0x900000"] show ?thesis
    by (simp add: HEAP_MAX_REGIONS_def small_heap_def)
qed

end
