(* ===== verification/Vfs_Node.thy ===== *)
theory Vfs_Node
  imports Heap
begin

text \<open>
  The nodes of the virtual file system as the kernel objects that sit behind file
  descriptors use them (\<^verbatim>\<open>include/fs/vfs.h\<close>): the structure of a node, which lives in memory
  from \<^verbatim>\<open>kmalloc\<close>, and the open flags. The operation table of a node is identified by name.
\<close>

definition VFS_FLAG_FILE :: u32 where "VFS_FLAG_FILE = 0x01"
definition VFS_FLAG_DYNAMIC :: u32 where "VFS_FLAG_DYNAMIC = 0x10"
definition VFS_NAME_MAX :: nat where "VFS_NAME_MAX = 64"
definition VFS_O_RDONLY :: u32 where "VFS_O_RDONLY = 0x0001"
definition VFS_O_WRONLY :: u32 where "VFS_O_WRONLY = 0x0002"
definition VFS_O_NONBLOCK :: u32 where "VFS_O_NONBLOCK = 0x0200"
definition VFS_O_ACCMODE :: u32 where "VFS_O_ACCMODE = VFS_O_RDONLY OR VFS_O_WRONLY"

datatype vfs_ops = Null_ops | Pipe_ops | Mqueue_ops | Other_ops nat

record vfs_node =
  vn_name :: string
  vn_flags :: u32
  vn_size :: u32
  vn_ref_count :: u32
  vn_impl :: u64
  vn_ops :: vfs_ops
  vn_mountpoint :: u64

definition sizeof_vfs_node :: u32 where "sizeof_vfs_node = 104"

record vfs_st = heap_st +
  node_mem :: "u64 \<Rightarrow> vfs_node"

end
