(* ===== verification/Fifo.thy ===== *)
theory Fifo
  imports Lyth_Prelude
begin

text \<open>
  The contract of the kernel's bounded queues (the bytes of a pipe, the messages of a
  message queue): \<open>items\<close> is the sequence of elements in the queue, \<open>put\<close> appends one when
  there is room and \<open>get\<close> takes the oldest.
\<close>

locale fifo =
  fixes put :: "'a \<Rightarrow> 'q \<Rightarrow> 'q"
    and get :: "'q \<Rightarrow> 'a \<times> 'q"
    and inv :: "'q \<Rightarrow> bool"
    and items :: "'q \<Rightarrow> 'a list"
    and cap :: "'q \<Rightarrow> nat"
    and ok :: "'q \<Rightarrow> 'a \<Rightarrow> bool"
  assumes bound: "inv q \<Longrightarrow> length (items q) \<le> cap q"
    and put_law: "inv q \<Longrightarrow> length (items q) < cap q \<Longrightarrow> ok q x \<Longrightarrow>
          inv (put x q) \<and> items (put x q) = items q @ [x] \<and> cap (put x q) = cap q \<and> ok (put x q) = ok q"
    and get_law: "inv q \<Longrightarrow> items q = x # xs \<Longrightarrow>
          \<exists>q'. get q = (x, q') \<and> inv q' \<and> items q' = xs \<and> cap q' = cap q \<and> ok q' = ok q"
begin

lemma put_all:
  assumes "inv q" "length (items q) + length xs \<le> cap q" "\<forall>x \<in> set xs. ok q x"
  shows "inv (fold put xs q) \<and> items (fold put xs q) = items q @ xs \<and> cap (fold put xs q) = cap q"
  using assms
proof (induction xs arbitrary: q)
  case (Cons x xs)
  then have "inv (put x q)" "items (put x q) = items q @ [x]" "cap (put x q) = cap q" "ok (put x q) = ok q"
    using put_law [of q x] by auto
  with Cons.IH [of "put x q"] Cons.prems show ?case by simp
qed simp

text \<open>Taking \<open>n\<close> elements one after the other.\<close>

fun get_n :: "nat \<Rightarrow> 'q \<Rightarrow> 'a list \<times> 'q" where
  "get_n 0 q = ([], q)"
| "get_n (Suc n) q = (let (x, q1) = get q; (xs, q2) = get_n n q1 in (x # xs, q2))"

lemma get_all:
  assumes "inv q" "n \<le> length (items q)"
  shows "\<exists>q'. get_n n q = (take n (items q), q') \<and> inv q' \<and> items q' = drop n (items q) \<and> cap q' = cap q"
  using assms
proof (induction n arbitrary: q)
  case (Suc n)
  then obtain x xs where q: "items q = x # xs" by (cases "items q") auto
  then obtain q1 where q1: "get q = (x, q1)" "inv q1" "items q1 = xs" "cap q1 = cap q"
    using get_law Suc.prems(1) by blast
  with Suc.IH [of q1] Suc.prems(2) q show ?case by auto
qed simp

text \<open>First in, first out: what comes out of a queue into which \<open>xs\<close> was put is the old
  content followed by \<open>xs\<close>.\<close>

lemma through:
  assumes "inv q" "length (items q) + length xs \<le> cap q" "\<forall>x \<in> set xs. ok q x"
    "n = length (items q) + length xs"
  shows "\<exists>q'. get_n n (fold put xs q) = (items q @ xs, q') \<and> inv q' \<and> items q' = []"
  using put_all [OF assms(1-3)] get_all [of "fold put xs q" n] assms(4) by auto

end

section \<open>Indices modulo the capacity\<close>

text \<open>The content of a ring: \<open>n\<close> cells from \<open>tail\<close> on.\<close>

definition ring :: "nat \<Rightarrow> (nat \<Rightarrow> 'a) \<Rightarrow> nat \<Rightarrow> nat \<Rightarrow> 'a list" where
  "ring N f t n = map (\<lambda>i. f ((t + i) mod N)) [0..<n]"

lemma ring_length [simp]: "length (ring N f t n) = n"
  by (simp add: ring_def)

lemma ring_cong: "0 < N \<Longrightarrow> (\<And>j. j < N \<Longrightarrow> f j = g j) \<Longrightarrow> ring N f t n = ring N g t n"
  by (simp add: ring_def)

lemma ring_index_inj:
  assumes "(n :: nat) < N" "i < n"
  shows "(t + i) mod N \<noteq> (t + n) mod N"
proof
  assume eq: "(t + i) mod N = (t + n) mod N"
  define r where "r = t mod N"
  have r: "r < N" using assms by (simp add: r_def)
  have m: "(t + k) mod N = (if r + k < N then r + k else r + k - N)" if "k < N" for k
  proof -
    have "(t + k) mod N = (r + k) mod N" unfolding r_def by (rule mod_add_left_eq [symmetric])
    moreover have "r + k - N < N" using r that by linarith
    ultimately show ?thesis by (simp add: le_mod_geq not_less)
  qed
  show False using eq m [of i] m [of n] r assms by (simp split: if_splits)
qed

lemma ring_put:
  assumes "n < N" "t < N"
  shows "ring N (f((t + n) mod N := x)) t (Suc n) = ring N f t n @ [x]"
  using ring_index_inj [OF assms(1)] by (simp add: ring_def)

lemma ring_get:
  assumes "0 < n"
  shows "ring N f t n = f (t mod N) # ring N f ((t + 1) mod N) (n - 1)"
proof -
  obtain m where m: "n = Suc m" using assms by (cases n) auto
  have "[0..<Suc m] = 0 # map Suc [0..<m]" by (simp add: map_Suc_upt upt_conv_Cons del: upt_Suc)
  then show ?thesis unfolding ring_def m by (simp add: mod_add_left_eq del: upt_Suc)
qed

end
