(* ===== verification/Pipe.thy ===== *)
theory Pipe
  imports Vfs_Node Fifo
begin

text \<open>
  Pipes, \<^verbatim>\<open>fs/pipe.c\<close>: a ring of 4096 bytes shared by a read end and a write end, both nodes
  of the file system. The operations run with interrupts off, one attempt at a time; a
  blocking read or write sleeps between attempts, and what the other tasks do meanwhile is a
  schedule: a list of state changes, one per sleep. An operation whose schedule runs out is
  still blocked and gives \<open>None\<close>.
\<close>

section \<open>State and operations\<close>

definition PIPE_BUFFER_SIZE :: u32 where "PIPE_BUFFER_SIZE = 4096"
definition PIPE_E_WOULD_BLOCK :: int where "PIPE_E_WOULD_BLOCK = -2"
definition PIPE_E_BROKEN :: int where "PIPE_E_BROKEN = -3"
definition PIPE_FLAG_NONBLOCK :: u32 where "PIPE_FLAG_NONBLOCK = 1"

record pipe_shared =
  p_buffer :: "nat \<Rightarrow> u8"
  p_head :: u32
  p_tail :: u32
  p_count :: u32
  readers_open :: bool
  writers_open :: bool

record pipe_end =
  pe_shared :: u64
  pe_is_read_end :: bool
  pe_nonblock :: bool

record pipe_st = vfs_st +
  shared_mem :: "u64 \<Rightarrow> pipe_shared"
  end_mem :: "u64 \<Rightarrow> pipe_end"

text \<open>The copy loops of read and write, one byte per round.\<close>

definition pipe_get_byte :: "pipe_shared \<Rightarrow> u8 \<times> pipe_shared" where
  "pipe_get_byte sh = (p_buffer sh (unat (p_tail sh)), sh\<lparr>p_tail := (p_tail sh + 1) mod PIPE_BUFFER_SIZE\<rparr>)"

definition pipe_put_byte :: "u8 \<Rightarrow> pipe_shared \<Rightarrow> pipe_shared" where
  "pipe_put_byte b sh = sh\<lparr>p_buffer := (p_buffer sh)(unat (p_head sh) := b),
                          p_head := (p_head sh + 1) mod PIPE_BUFFER_SIZE\<rparr>"

fun pipe_copy_out :: "nat \<Rightarrow> pipe_shared \<Rightarrow> u8 list \<times> pipe_shared" where
  "pipe_copy_out 0 sh = ([], sh)"
| "pipe_copy_out (Suc n) sh =
     (let (b, sh1) = pipe_get_byte sh; (bs, sh2) = pipe_copy_out n sh1 in (b # bs, sh2))"

definition pipe_copy_in :: "bytes_at \<Rightarrow> nat \<Rightarrow> pipe_shared \<Rightarrow> pipe_shared" where
  "pipe_copy_in buf n sh = fold (\<lambda>i. pipe_put_byte (buf i)) [0..<n] sh"

text \<open>One attempt on the shared ring: \<open>None\<close> means the caller has to sleep.\<close>

definition pipe_read_attempt :: "u32 \<Rightarrow> bool \<Rightarrow> pipe_shared \<Rightarrow> (int \<times> u8 list \<times> pipe_shared) option" where
  "pipe_read_attempt sz nonblock sh =
     (if p_count sh > 0 then
        (let tk = (if sz < p_count sh then sz else p_count sh);
             (bs, sh1) = pipe_copy_out (unat tk) sh
         in Some (sint tk, bs, sh1\<lparr>p_count := p_count sh1 - tk\<rparr>))
      else if \<not> writers_open sh then Some (0, [], sh)
      else if nonblock then Some (PIPE_E_WOULD_BLOCK, [], sh)
      else None)"

definition pipe_write_attempt :: "u32 \<Rightarrow> bytes_at \<Rightarrow> bool \<Rightarrow> pipe_shared \<Rightarrow> (int \<times> pipe_shared) option" where
  "pipe_write_attempt sz buf nonblock sh =
     (if \<not> readers_open sh then Some (PIPE_E_BROKEN, sh)
      else if p_count sh < PIPE_BUFFER_SIZE then
        (let space = PIPE_BUFFER_SIZE - p_count sh;
             put = (if sz < space then sz else space);
             sh1 = pipe_copy_in buf (unat put) sh
         in Some (sint put, sh1\<lparr>p_count := p_count sh1 + put\<rparr>))
      else if nonblock then Some (PIPE_E_WOULD_BLOCK, sh)
      else None)"

fun pipe_read_loop :: "u64 \<Rightarrow> u32 \<Rightarrow> ('a pipe_st_scheme \<Rightarrow> 'a pipe_st_scheme) list \<Rightarrow> 'a pipe_st_scheme \<Rightarrow>
    (int \<times> u8 list \<times> 'a pipe_st_scheme) option" where
  "pipe_read_loop pe sz sched s =
     (let e = end_mem s pe; sh = pe_shared e in
      case pipe_read_attempt sz (pe_nonblock e) (shared_mem s sh) of
        Some (r, bs, sh') \<Rightarrow> Some (r, bs, s\<lparr>shared_mem := (shared_mem s)(sh := sh')\<rparr>)
      | None \<Rightarrow> (case sched of [] \<Rightarrow> None | other # rest \<Rightarrow> pipe_read_loop pe sz rest (other s)))"

fun pipe_write_loop :: "u64 \<Rightarrow> u32 \<Rightarrow> bytes_at \<Rightarrow> ('a pipe_st_scheme \<Rightarrow> 'a pipe_st_scheme) list \<Rightarrow> 'a pipe_st_scheme \<Rightarrow>
    (int \<times> 'a pipe_st_scheme) option" where
  "pipe_write_loop pe sz buf sched s =
     (let e = end_mem s pe; sh = pe_shared e in
      case pipe_write_attempt sz buf (pe_nonblock e) (shared_mem s sh) of
        Some (r, sh') \<Rightarrow> Some (r, s\<lparr>shared_mem := (shared_mem s)(sh := sh')\<rparr>)
      | None \<Rightarrow> (case sched of [] \<Rightarrow> None | other # rest \<Rightarrow> pipe_write_loop pe sz buf rest (other s)))"

definition pipe_read_op :: "u64 \<Rightarrow> u32 \<Rightarrow> bool \<Rightarrow> ('a pipe_st_scheme \<Rightarrow> 'a pipe_st_scheme) list \<Rightarrow> 'a pipe_st_scheme \<Rightarrow>
    (int \<times> u8 list \<times> 'a pipe_st_scheme) option" where
  "pipe_read_op node sz buf_null sched s =
     (if node = 0 \<or> buf_null \<or> sz = 0 then Some (-1, [], s)
      else
        let pe = vn_impl (node_mem s node) in
        if pe = 0 \<or> pe_shared (end_mem s pe) = 0 \<or> \<not> pe_is_read_end (end_mem s pe) then Some (-1, [], s)
        else pipe_read_loop pe sz sched s)"

definition pipe_write_op :: "u64 \<Rightarrow> u32 \<Rightarrow> bytes_at option \<Rightarrow> ('a pipe_st_scheme \<Rightarrow> 'a pipe_st_scheme) list \<Rightarrow> 'a pipe_st_scheme \<Rightarrow>
    (int \<times> 'a pipe_st_scheme) option" where
  "pipe_write_op node sz buf sched s =
     (if node = 0 \<or> buf = None \<or> sz = 0 then Some (0, s)
      else
        let pe = vn_impl (node_mem s node) in
        if pe = 0 \<or> pe_shared (end_mem s pe) = 0 \<or> pe_is_read_end (end_mem s pe) then Some (-1, s)
        else pipe_write_loop pe sz (the buf) sched s)"

definition pipe_close_op :: "u64 \<Rightarrow> 'a pipe_st_scheme \<Rightarrow> 'a pipe_st_scheme option" where
  "pipe_close_op node s =
     (if node = 0 then Some s
      else
        let pe = vn_impl (node_mem s node) in
        if pe = 0 then Some s
        else
          let sh = pe_shared (end_mem s pe);
              freed =
                (if sh \<noteq> 0 then
                   (let p = shared_mem s sh;
                        p1 = (if pe_is_read_end (end_mem s pe) then p\<lparr>readers_open := False\<rparr>
                              else p\<lparr>writers_open := False\<rparr>);
                        s1 = s\<lparr>shared_mem := (shared_mem s)(sh := p1)\<rparr>
                    in if \<not> readers_open p1 \<and> \<not> writers_open p1 then kfree sh s1 else Some s1)
                 else Some s)
          in Option.bind freed (\<lambda>s2.
             map_option (\<lambda>s3. s3\<lparr>node_mem := (node_mem s3)(node := (node_mem s3 node)\<lparr>vn_impl := 0\<rparr>)\<rparr>)
               (kfree pe s2)))"

definition sizeof_pipe_shared :: u32 where "sizeof_pipe_shared = 4116"
definition sizeof_pipe_end :: u32 where "sizeof_pipe_end = 16"

definition pipe_make_end_node :: "string \<Rightarrow> u64 \<Rightarrow> bool \<Rightarrow> bool \<Rightarrow> 'a pipe_st_scheme \<Rightarrow>
    (u64 \<times> 'a pipe_st_scheme) option" where
  "pipe_make_end_node name shared is_read_end nonblock s =
     Option.bind (kmalloc sizeof_vfs_node s) (\<lambda>(node, s1).
       if node = 0 then Some (0, s1)
       else Option.bind (kmalloc sizeof_pipe_end s1) (\<lambda>(pe, s2).
         if pe = 0 then map_option (Pair 0) (kfree node s2)
         else Some (node, s2\<lparr>
           node_mem := (node_mem s2)(node := \<lparr>vn_name = take (VFS_NAME_MAX - 1) name,
              vn_flags = VFS_FLAG_FILE OR VFS_FLAG_DYNAMIC, vn_size = 0, vn_ref_count = 0,
              vn_impl = pe, vn_ops = Pipe_ops, vn_mountpoint = 0\<rparr>),
           end_mem := (end_mem s2)(pe := \<lparr>pe_shared = shared, pe_is_read_end = is_read_end,
              pe_nonblock = nonblock\<rparr>)\<rparr>)))"

definition pipe_create :: "u32 \<Rightarrow> 'a pipe_st_scheme \<Rightarrow> (int \<times> u64 \<times> u64 \<times> 'a pipe_st_scheme) option" where
  "pipe_create flags s =
     Option.bind (kmalloc sizeof_pipe_shared s) (\<lambda>(sh, s1).
       if sh = 0 then Some (-1, 0, 0, s1)
       else
         let s2 = s1\<lparr>shared_mem := (shared_mem s1)(sh := (shared_mem s1 sh)\<lparr>p_head := 0, p_tail := 0, p_count := 0,
                      readers_open := True, writers_open := True\<rparr>)\<rparr>;
             nonblock = (flags AND PIPE_FLAG_NONBLOCK \<noteq> 0)
         in Option.bind (pipe_make_end_node ''pipe-r'' sh True nonblock s2) (\<lambda>(rd, s3).
              if rd = 0 then map_option (\<lambda>s4. (-1, 0, 0, s4)) (kfree sh s3)
              else Option.bind (pipe_make_end_node ''pipe-w'' sh False nonblock s3) (\<lambda>(wr, s4).
                if wr = 0 then
                  Option.bind (pipe_close_op rd s4) (\<lambda>s5. map_option (\<lambda>s6. (-1, 0, 0, s6)) (kfree rd s5))
                else Some (0, rd, wr, s4))))"

definition pipe_node_is_pipe :: "u64 \<Rightarrow> 'a pipe_st_scheme \<Rightarrow> bool" where
  "pipe_node_is_pipe node s = (if node = 0 then False else vn_ops (node_mem s node) = Pipe_ops)"

definition pipe_read_ready :: "u64 \<Rightarrow> 'a pipe_st_scheme \<Rightarrow> bool" where
  "pipe_read_ready node s =
     (if \<not> pipe_node_is_pipe node s then False
      else
        let pe = vn_impl (node_mem s node); e = end_mem s pe in
        if pe = 0 \<or> pe_shared e = 0 \<or> \<not> pe_is_read_end e then False
        else let sh = shared_mem s (pe_shared e) in p_count sh > 0 \<or> \<not> writers_open sh)"

definition pipe_write_ready :: "u64 \<Rightarrow> 'a pipe_st_scheme \<Rightarrow> bool" where
  "pipe_write_ready node s =
     (if \<not> pipe_node_is_pipe node s then False
      else
        let pe = vn_impl (node_mem s node); e = end_mem s pe in
        if pe = 0 \<or> pe_shared e = 0 \<or> pe_is_read_end e then False
        else let sh = shared_mem s (pe_shared e) in readers_open sh \<and> p_count sh < PIPE_BUFFER_SIZE)"

definition pipe_write_has_readers :: "u64 \<Rightarrow> 'a pipe_st_scheme \<Rightarrow> bool" where
  "pipe_write_has_readers node s =
     (if \<not> pipe_node_is_pipe node s then False
      else
        let pe = vn_impl (node_mem s node); e = end_mem s pe in
        if pe = 0 \<or> pe_shared e = 0 \<or> pe_is_read_end e then False
        else readers_open (shared_mem s (pe_shared e)))"


section \<open>The ring is a queue of bytes\<close>

definition pipe_inv :: "pipe_shared \<Rightarrow> bool" where
  "pipe_inv sh \<longleftrightarrow> unat (p_tail sh) < 4096 \<and> unat (p_count sh) \<le> 4096 \<and>
     unat (p_head sh) = (unat (p_tail sh) + unat (p_count sh)) mod 4096"

definition pipe_items :: "pipe_shared \<Rightarrow> u8 list" where
  "pipe_items sh = ring 4096 (p_buffer sh) (unat (p_tail sh)) (unat (p_count sh))"

definition pipe_push :: "u8 \<Rightarrow> pipe_shared \<Rightarrow> pipe_shared" where
  "pipe_push b sh = (pipe_put_byte b sh)\<lparr>p_count := p_count sh + 1\<rparr>"

definition pipe_pop :: "pipe_shared \<Rightarrow> u8 \<times> pipe_shared" where
  "pipe_pop sh = (let (b, sh1) = pipe_get_byte sh in (b, sh1\<lparr>p_count := p_count sh - 1\<rparr>))"

lemma unat_next_index: "unat x < 4096 \<Longrightarrow> unat ((x + 1 :: u32) mod 4096) = (unat x + 1) mod 4096"
  by (simp add: unat_mod_distrib unat_word_ariths)

lemma pipe_push_law:
  assumes "pipe_inv sh" "unat (p_count sh) < 4096"
  shows "pipe_inv (pipe_push b sh) \<and> pipe_items (pipe_push b sh) = pipe_items sh @ [b]"
proof -
  have h: "unat (p_head sh) < 4096" using assms(1) by (simp add: pipe_inv_def)
  have c: "unat (p_count sh + 1) = Suc (unat (p_count sh))"
    using assms(2) by (simp add: unat_word_ariths)
  have "unat ((p_head sh + 1) mod 4096) = (unat (p_tail sh) + Suc (unat (p_count sh))) mod 4096"
    using assms(1) unat_next_index [OF h] by (simp add: pipe_inv_def mod_Suc_eq)
  moreover have "ring 4096 ((p_buffer sh)(unat (p_head sh) := b)) (unat (p_tail sh)) (Suc (unat (p_count sh)))
      = pipe_items sh @ [b]"
    using assms ring_put [of "unat (p_count sh)" 4096 "unat (p_tail sh)" "p_buffer sh" b]
    by (simp add: pipe_inv_def pipe_items_def)
  ultimately show ?thesis
    using assms c by (simp add: pipe_inv_def pipe_items_def pipe_push_def pipe_put_byte_def PIPE_BUFFER_SIZE_def)
qed

lemma pipe_pop_law:
  assumes "pipe_inv sh" "pipe_items sh = b # bs"
  shows "\<exists>sh'. pipe_pop sh = (b, sh') \<and> pipe_inv sh' \<and> pipe_items sh' = bs"
proof -
  let ?t = "unat (p_tail sh)" and ?n = "unat (p_count sh)"
  have n: "0 < ?n" using arg_cong [OF assms(2), of length] by (simp add: pipe_items_def)
  then have c: "unat (p_count sh - 1) = ?n - 1" by (simp add: unat_minus_one unat_gt_0)
  have t: "?t < 4096" using assms(1) by (simp add: pipe_inv_def)
  have "pipe_items sh = p_buffer sh (?t mod 4096) # ring 4096 (p_buffer sh) ((?t + 1) mod 4096) (?n - 1)"
    unfolding pipe_items_def by (rule ring_get [OF n])
  then have "b # bs = p_buffer sh ?t # ring 4096 (p_buffer sh) ((?t + 1) mod 4096) (?n - 1)"
    using assms(2) t by simp
  moreover have "((?t + 1) mod 4096 + (?n - 1)) mod 4096 = (?t + ?n) mod 4096"
  proof -
    have "((?t + 1) mod 4096 + (?n - 1)) mod 4096 = (?t + 1 + (?n - 1)) mod 4096" by (rule mod_add_left_eq)
    also have "?t + 1 + (?n - 1) = ?t + ?n" using n by simp
    finally show ?thesis .
  qed
  moreover have "?n - 1 \<le> 4096" using assms(1) unfolding pipe_inv_def by linarith
  ultimately show ?thesis
    using assms(1) c unat_next_index [OF t]
    by (simp add: pipe_inv_def pipe_items_def pipe_pop_def pipe_get_byte_def PIPE_BUFFER_SIZE_def)
qed

interpretation pipe: fifo pipe_push pipe_pop pipe_inv pipe_items "\<lambda>_. 4096" "\<lambda>_ _. True"
proof
  show "pipe_inv q \<Longrightarrow> length (pipe_items q) \<le> 4096" for q by (simp add: pipe_inv_def pipe_items_def)
next
  fix q x
  assume "pipe_inv q" "length (pipe_items q) < 4096"
  then show "pipe_inv (pipe_push x q) \<and> pipe_items (pipe_push x q) = pipe_items q @ [x] \<and>
      (4096 :: nat) = 4096 \<and> (\<lambda>_. True) = (\<lambda>_. True)"
    using pipe_push_law [of q x] by (simp add: pipe_items_def)
next
  fix q x xs
  assume "pipe_inv q" "pipe_items q = x # xs"
  then show "\<exists>q'. pipe_pop q = (x, q') \<and> pipe_inv q' \<and> pipe_items q' = xs \<and>
      (4096 :: nat) = 4096 \<and> (\<lambda>_. True) = (\<lambda>_. True)"
    using pipe_pop_law by simp
qed

text \<open>The code counts once per call; the queue counts once per byte.\<close>

lemma pipe_push_count: "pipe_push b (sh\<lparr>p_count := c\<rparr>) = (pipe_put_byte b sh)\<lparr>p_count := c + 1\<rparr>"
  by (simp add: pipe_push_def pipe_put_byte_def)

lemma pipe_copy_in_Suc: "pipe_copy_in buf (Suc n) sh = pipe_put_byte (buf n) (pipe_copy_in buf n sh)"
  by (simp add: pipe_copy_in_def)

lemma pipe_copy_in_push:
  "(pipe_copy_in buf n sh)\<lparr>p_count := p_count sh + of_nat n\<rparr> = fold pipe_push (map buf [0..<n]) sh"
proof (induction n)
  case (Suc n)
  have "fold pipe_push (map buf [0..<Suc n]) sh = pipe_push (buf n) (fold pipe_push (map buf [0..<n]) sh)"
    by simp
  also have "\<dots> = (pipe_put_byte (buf n) (pipe_copy_in buf n sh))\<lparr>p_count := p_count sh + of_nat n + 1\<rparr>"
    unfolding Suc [symmetric] by (rule pipe_push_count)
  finally show ?case by (simp add: pipe_copy_in_Suc add.assoc add.commute)
qed (simp add: pipe_copy_in_def)

lemma pipe_copy_in_fields [simp]:
  "p_count (pipe_copy_in buf n sh) = p_count sh"
  "readers_open (pipe_copy_in buf n sh) = readers_open sh"
  "writers_open (pipe_copy_in buf n sh) = writers_open sh"
  by (induction n) (simp_all add: pipe_copy_in_Suc pipe_put_byte_def, simp_all add: pipe_copy_in_def)

lemma pipe_copy_out_pop:
  assumes "pipe_copy_out n sh = (bs, sh')"
  shows "pipe.get_n n sh = (bs, sh'\<lparr>p_count := p_count sh - of_nat n\<rparr>) \<and> p_count sh' = p_count sh"
proof -
  have "pipe.get_n n (sh\<lparr>p_count := c\<rparr>) = (fst (pipe_copy_out n sh), (snd (pipe_copy_out n sh))\<lparr>p_count := c - of_nat n\<rparr>) \<and>
        p_count (snd (pipe_copy_out n sh)) = p_count sh" for c
  proof (induction n arbitrary: sh c)
    case (Suc n)
    have "pipe_pop (sh\<lparr>p_count := c\<rparr>) = (fst (pipe_get_byte sh), (snd (pipe_get_byte sh))\<lparr>p_count := c - 1\<rparr>)"
      "p_count (snd (pipe_get_byte sh)) = p_count sh"
      by (simp_all add: pipe_get_byte_def pipe_pop_def)
    with Suc [where sh = "snd (pipe_get_byte sh)" and c = "c - 1"] show ?case
      by (simp add: split_beta diff_diff_eq add.commute)
  qed simp
  from this [of "p_count sh"] assms show ?thesis by simp
qed

lemma pipe_copy_out_fields:
  "readers_open (snd (pipe_copy_out n sh)) = readers_open sh \<and>
   writers_open (snd (pipe_copy_out n sh)) = writers_open sh"
proof (induction n arbitrary: sh)
  case (Suc n)
  then show ?case by (simp add: split_beta) (simp add: pipe_get_byte_def)
qed simp

lemma pipe_items_length: "length (pipe_items sh) = unat (p_count sh)"
  by (simp add: pipe_items_def)

lemma pipe_read_some:
  assumes inv: "pipe_inv sh" and ne: "pipe_items sh \<noteq> []"
  shows "\<exists>sh'. pipe_read_attempt sz nb sh =
       Some (int (min (unat sz) (length (pipe_items sh))), take (unat sz) (pipe_items sh), sh') \<and>
     pipe_inv sh' \<and> pipe_items sh' = drop (unat sz) (pipe_items sh) \<and>
     readers_open sh' = readers_open sh \<and> writers_open sh' = writers_open sh"
proof -
  define tk where "tk = (if sz < p_count sh then sz else p_count sh)"
  define n where "n = min (unat sz) (length (pipe_items sh))"
  have tk: "unat tk = n" "n \<le> length (pipe_items sh)"
    unfolding tk_def n_def pipe_items_length by (auto simp: word_less_nat_alt min_def)
  obtain bs sh1 where co: "pipe_copy_out n sh = (bs, sh1)" by fastforce
  define sh' where "sh' = sh1\<lparr>p_count := p_count sh1 - tk\<rparr>"
  have "tk = of_nat n" using tk(1) by (metis of_nat_unat_id)
  with pipe_copy_out_pop [OF co] have "pipe.get_n n sh = (bs, sh')" by (simp add: sh'_def)
  moreover obtain q' where "pipe.get_n n sh = (take n (pipe_items sh), q')" "pipe_inv q'"
    "pipe_items q' = drop n (pipe_items sh)"
    using pipe.get_all [OF inv tk(2)] by auto
  ultimately have r: "bs = take n (pipe_items sh)" "pipe_inv sh'" "pipe_items sh' = drop n (pipe_items sh)"
    by auto
  have cnt: "p_count sh > 0"
    using ne unfolding word_less_nat_alt pipe_items_length [symmetric] by simp
  have "sint tk = int n"
    using tk inv unfolding pipe_items_length by (simp add: sint_u32_small pipe_inv_def)
  then have "pipe_read_attempt sz nb sh = Some (int n, bs, sh')"
    using cnt co tk(1) unfolding pipe_read_attempt_def tk_def [symmetric] by (simp add: sh'_def)
  moreover have "take n (pipe_items sh) = take (unat sz) (pipe_items sh)"
    "drop n (pipe_items sh) = drop (unat sz) (pipe_items sh)"
    by (auto simp: n_def min_def)
  ultimately show ?thesis
    using r pipe_copy_out_fields [of n sh] co by (simp add: n_def sh'_def)
qed

lemma pipe_read_empty:
  assumes "pipe_items sh = []"
  shows "pipe_read_attempt sz nb sh =
    (if \<not> writers_open sh then Some (0, [], sh) else if nb then Some (PIPE_E_WOULD_BLOCK, [], sh) else None)"
proof -
  have "p_count sh = 0" using assms pipe_items_length [of sh] by (simp add: unat_eq_0)
  then show ?thesis by (simp add: pipe_read_attempt_def)
qed

lemma pipe_write_room:
  assumes inv: "pipe_inv sh" and room: "length (pipe_items sh) < 4096" "readers_open sh"
  shows "\<exists>sh'. pipe_write_attempt sz buf nb sh =
       Some (int (min (unat sz) (4096 - length (pipe_items sh))), sh') \<and> pipe_inv sh' \<and>
     pipe_items sh' = pipe_items sh @ map buf [0..<min (unat sz) (4096 - length (pipe_items sh))] \<and>
     readers_open sh' = readers_open sh \<and> writers_open sh' = writers_open sh"
proof -
  define put where "put = (if sz < PIPE_BUFFER_SIZE - p_count sh then sz else PIPE_BUFFER_SIZE - p_count sh)"
  define n where "n = min (unat sz) (4096 - length (pipe_items sh))"
  have lt: "p_count sh < PIPE_BUFFER_SIZE"
    using room(1) by (simp add: pipe_items_length word_less_nat_alt PIPE_BUFFER_SIZE_def)
  then have "unat (PIPE_BUFFER_SIZE - p_count sh) = 4096 - length (pipe_items sh)"
    by (simp add: pipe_items_length unat_sub PIPE_BUFFER_SIZE_def)
  then have put: "unat put = n" unfolding put_def n_def by (auto simp: word_less_nat_alt min_def)
  then have putn: "put = of_nat n" by (metis of_nat_unat_id)
  define sh' where "sh' = (pipe_copy_in buf n sh)\<lparr>p_count := p_count sh + put\<rparr>"
  have "sh' = fold pipe_push (map buf [0..<n]) sh"
    unfolding sh'_def putn by (rule pipe_copy_in_push)
  moreover have "length (pipe_items sh) + n \<le> 4096" using room(1) by (simp add: n_def)
  ultimately have "pipe_inv sh'" "pipe_items sh' = pipe_items sh @ map buf [0..<n]"
    using pipe.put_all [OF inv, of "map buf [0..<n]"] by simp_all
  moreover have "sint put = int n" using put by (simp add: sint_u32_small n_def)
  then have "pipe_write_attempt sz buf nb sh = Some (int n, sh')"
    using lt room(2) put unfolding pipe_write_attempt_def put_def [symmetric] by (simp add: sh'_def Let_def put_def)
  ultimately show ?thesis by (simp add: n_def sh'_def)
qed

lemma pipe_write_full:
  assumes "pipe_inv sh" "length (pipe_items sh) = 4096" "readers_open sh"
  shows "pipe_write_attempt sz buf nb sh = (if nb then Some (PIPE_E_WOULD_BLOCK, sh) else None)"
  using assms by (simp add: pipe_write_attempt_def pipe_items_length word_less_nat_alt PIPE_BUFFER_SIZE_def)


section \<open>Properties\<close>

text \<open>A sequence of attempts on one pipe by its readers and writers; an attempt that has to
  sleep changes nothing. The results are the bytes accepted and the bytes delivered.\<close>

datatype pipe_cmd = Write_bytes u32 bytes_at | Read_bytes u32

fun pipe_run :: "bool \<Rightarrow> pipe_cmd list \<Rightarrow> pipe_shared \<Rightarrow> u8 list \<times> u8 list \<times> pipe_shared" where
  "pipe_run nb [] sh = ([], [], sh)"
| "pipe_run nb (Write_bytes sz buf # cs) sh =
     (case pipe_write_attempt sz buf nb sh of
        None \<Rightarrow> pipe_run nb cs sh
      | Some (r, sh1) \<Rightarrow> (let (w, d, sh2) = pipe_run nb cs sh1 in (map buf [0..<nat r] @ w, d, sh2)))"
| "pipe_run nb (Read_bytes sz # cs) sh =
     (case pipe_read_attempt sz nb sh of
        None \<Rightarrow> pipe_run nb cs sh
      | Some (r, bs, sh1) \<Rightarrow> (let (w, d, sh2) = pipe_run nb cs sh1 in (w, bs @ d, sh2)))"

text \<open>C28: a pipe is a stream: whatever reads and writes are made on it, of whatever sizes, the
  bytes delivered so far followed by those still in the ring are the bytes that were in the
  ring followed by the bytes accepted, in order; and the ring never holds more than 4096.\<close>

theorem pipe_stream:
  assumes "pipe_inv sh" "pipe_run nb cs sh = (w, d, sh')"
  shows "pipe_items sh @ w = d @ pipe_items sh' \<and> pipe_inv sh' \<and> length (pipe_items sh') \<le> 4096"
  using assms
proof (induction cs arbitrary: sh w d sh')
  case Nil
  then show ?case using pipe.bound by auto
next
  case (Cons c cs)
  show ?case
  proof (cases c)
    case (Write_bytes sz buf)
    consider "\<not> readers_open sh" | "readers_open sh" "length (pipe_items sh) < 4096"
      | "readers_open sh" "length (pipe_items sh) = 4096"
      using pipe.bound [OF Cons.prems(1)] by linarith
    then show ?thesis
    proof cases
      case 1
      then have "pipe_write_attempt sz buf nb sh = Some (PIPE_E_BROKEN, sh)" by (simp add: pipe_write_attempt_def)
      with Cons Write_bytes show ?thesis by (auto simp: PIPE_E_BROKEN_def split: prod.splits)
    next
      case 2
      from pipe_write_room [OF Cons.prems(1) 2(2,1), of sz buf nb] obtain sh1 where
        w: "pipe_write_attempt sz buf nb sh = Some (int (min (unat sz) (4096 - length (pipe_items sh))), sh1)"
        "pipe_inv sh1" "pipe_items sh1 = pipe_items sh @ map buf [0..<min (unat sz) (4096 - length (pipe_items sh))]"
        by blast
      obtain w1 d1 sh2 where r: "pipe_run nb cs sh1 = (w1, d1, sh2)" by (metis prod_cases3)
      with Cons.IH [OF w(2) r] Cons.prems(2) Write_bytes w show ?thesis by auto
    next
      case 3
      with Cons Write_bytes pipe_write_full [OF Cons.prems(1) 3(2,1), of sz buf nb] show ?thesis
        by (auto simp: PIPE_E_WOULD_BLOCK_def split: prod.splits if_splits)
    qed
  next
    case (Read_bytes sz)
    show ?thesis
    proof (cases "pipe_items sh = []")
      case True
      then have "pipe_run nb cs sh = (w, d, sh')"
        using Cons.prems(2) Read_bytes pipe_read_empty [OF True, of sz nb]
        by (auto split: prod.splits if_splits)
      from Cons.IH [OF Cons.prems(1) this] show ?thesis .
    next
      case False
      from pipe_read_some [OF Cons.prems(1) False, of sz nb] obtain sh1 where
        r: "pipe_read_attempt sz nb sh = Some (int (min (unat sz) (length (pipe_items sh))), take (unat sz) (pipe_items sh), sh1)"
        "pipe_inv sh1" "pipe_items sh1 = drop (unat sz) (pipe_items sh)"
        by blast
      obtain w1 d1 sh2 where r1: "pipe_run nb cs sh1 = (w1, d1, sh2)" by (metis prod_cases3)
      with Cons.IH [OF r(2) r1] Cons.prems(2) Read_bytes r
      have "w = w1" "d = take (unat sz) (pipe_items sh) @ d1" "sh' = sh2"
        "drop (unat sz) (pipe_items sh) @ w1 = d1 @ pipe_items sh2" "pipe_inv sh2" "length (pipe_items sh2) \<le> 4096"
        by auto
      then show ?thesis by (metis append.assoc append_take_drop_id)
    qed
  qed
qed

definition empty_pipe :: pipe_shared where
  "empty_pipe = \<lparr>p_buffer = (\<lambda>_. 0), p_head = 4094, p_tail = 4094, p_count = 0, readers_open = True, writers_open = True\<rparr>"

theorem pipe_stream_witness:
  "\<exists>w d sh'. pipe_run False [Write_bytes 3 (\<lambda>i. of_nat i + 7), Read_bytes 2] empty_pipe = (w, d, sh') \<and>
     w = d @ pipe_items sh'"
proof -
  obtain w d sh' where r: "pipe_run False [Write_bytes 3 (\<lambda>i. of_nat i + 7), Read_bytes 2] empty_pipe = (w, d, sh')"
    by (metis prod_cases3)
  have "pipe_inv empty_pipe" "pipe_items empty_pipe = []"
    by (simp_all add: pipe_inv_def empty_pipe_def pipe_items_def ring_def)
  with pipe_stream [OF _ r] r show ?thesis by simp
qed

text \<open>The state after the other tasks ran \<open>k\<close> times.\<close>

definition after :: "nat \<Rightarrow> ('s \<Rightarrow> 's) list \<Rightarrow> 's \<Rightarrow> 's" where
  "after k sched s = fold (\<lambda>f. f) (take k sched) s"

definition read_end_ready :: "u64 \<Rightarrow> 'a pipe_st_scheme \<Rightarrow> bool" where
  "read_end_ready pe s = (let sh = shared_mem s (pe_shared (end_mem s pe)) in p_count sh > 0 \<or> \<not> writers_open sh)"

lemma pipe_read_attempt_None:
  "pipe_read_attempt sz nb sh = None \<longleftrightarrow> \<not> (p_count sh > 0 \<or> \<not> writers_open sh) \<and> \<not> nb"
  by (simp add: pipe_read_attempt_def Let_def split_beta)

text \<open>C29: a blocking read returns as soon as the other tasks have put a byte into the pipe or
  have closed its write end: it never sleeps through its wake-up condition.\<close>

theorem pipe_read_returns:
  assumes "k \<le> length sched" "read_end_ready pe (after k sched s)"
  shows "\<exists>r. pipe_read_loop pe sz sched s = Some r"
  using assms
proof (induction sched arbitrary: s k)
  case Nil
  then have "read_end_ready pe s" by (simp add: after_def)
  then show ?case
    by (auto simp: read_end_ready_def Let_def pipe_read_attempt_None split: option.splits)
next
  case (Cons f sched)
  have "\<exists>r. pipe_read_loop pe sz sched (f s) = Some r" if nr: "\<not> read_end_ready pe s"
  proof -
    obtain j where "k = Suc j" using nr Cons.prems(2) by (cases k) (auto simp: after_def)
    with Cons.prems show ?thesis by (intro Cons.IH [of j]) (auto simp: after_def)
  qed
  then show ?case
    by (auto simp: read_end_ready_def Let_def pipe_read_attempt_None split: option.splits)
qed

definition pipe_world :: pipe_st where
  "pipe_world =
     vfs_st.extend (heap_st.extend small_heap (vfs_st.fields
       (\<lambda>_. \<lparr>vn_name = [], vn_flags = 0, vn_size = 0, vn_ref_count = 0, vn_impl = 0x2000, vn_ops = Pipe_ops,
             vn_mountpoint = 0\<rparr>)))
     (pipe_st.fields (\<lambda>_. empty_pipe)
       (\<lambda>_. \<lparr>pe_shared = 0x3000, pe_is_read_end = True, pe_nonblock = False\<rparr>))"

lemma pipe_world_fields [simp]:
  "shared_mem pipe_world = (\<lambda>_. empty_pipe)"
  "end_mem pipe_world = (\<lambda>_. \<lparr>pe_shared = 0x3000, pe_is_read_end = True, pe_nonblock = False\<rparr>)"
  "vn_impl (node_mem pipe_world n) = 0x2000" "vn_ops (node_mem pipe_world n) = Pipe_ops"
  by (simp_all add: pipe_world_def pipe_st.defs vfs_st.defs heap_st.defs)

theorem pipe_read_returns_witness:
  "\<exists>r. pipe_read_loop 0x2000 10
     [\<lambda>s. s, \<lambda>s. s\<lparr>shared_mem := (shared_mem s)(0x3000 := pipe_push 65 (shared_mem s 0x3000))\<rparr>, \<lambda>s. s] pipe_world = Some r"
  by (rule pipe_read_returns [where k = 2])
     (simp_all add: after_def read_end_ready_def pipe_push_def pipe_put_byte_def empty_pipe_def)

lemma read_ready_exact:
  assumes "pipe_node_is_pipe node s" "pe = vn_impl (node_mem s node)" "pe \<noteq> 0"
    and "pe_shared (end_mem s pe) = sh" "sh \<noteq> 0" "pipe_inv (shared_mem s sh)" "sz \<noteq> 0"
    and "pe_is_read_end (end_mem s pe)"
  shows "pipe_read_ready node s \<longleftrightarrow> (\<exists>r bs s'. pipe_read_op node sz False [] s = Some (r, bs, s') \<and> 0 \<le> r)"
proof -
  let ?p = "shared_mem s sh" and ?nb = "pe_nonblock (end_mem s pe)"
  have nz: "node \<noteq> 0" using assms(1) by (auto simp: pipe_node_is_pipe_def)
  have op: "pipe_read_op node sz False [] s =
      (case pipe_read_attempt sz ?nb ?p of None \<Rightarrow> None
       | Some (r, bs, sh') \<Rightarrow> Some (r, bs, s\<lparr>shared_mem := (shared_mem s)(sh := sh')\<rparr>))"
    using assms nz by (simp add: pipe_read_op_def Let_def cong: option.case_cong)
  have rd: "pipe_read_ready node s \<longleftrightarrow> pipe_items ?p \<noteq> [] \<or> \<not> writers_open ?p"
    using assms pipe_items_length [of ?p]
    by (auto simp: pipe_read_ready_def word_less_nat_alt simp flip: length_greater_0_conv)
  show ?thesis
  proof (cases "pipe_items ?p = []")
    case True
    then show ?thesis by (auto simp: op rd pipe_read_empty PIPE_E_WOULD_BLOCK_def)
  next
    case False
    from pipe_read_some [OF assms(6) False, of sz ?nb] False show ?thesis by (auto simp: op rd)
  qed
qed

lemma write_ready_exact:
  assumes "pipe_node_is_pipe node s" "pe = vn_impl (node_mem s node)" "pe \<noteq> 0"
    and "pe_shared (end_mem s pe) = sh" "sh \<noteq> 0" "pipe_inv (shared_mem s sh)" "sz \<noteq> 0"
    and "\<not> pe_is_read_end (end_mem s pe)"
  shows "pipe_write_ready node s \<longleftrightarrow> (\<exists>r s'. pipe_write_op node sz (Some buf) [] s = Some (r, s') \<and> 0 < r)"
proof -
  let ?p = "shared_mem s sh" and ?nb = "pe_nonblock (end_mem s pe)"
  have nz: "node \<noteq> 0" using assms(1) by (auto simp: pipe_node_is_pipe_def)
  have op: "pipe_write_op node sz (Some buf) [] s =
      (case pipe_write_attempt sz buf ?nb ?p of None \<Rightarrow> None
       | Some (r, sh') \<Rightarrow> Some (r, s\<lparr>shared_mem := (shared_mem s)(sh := sh')\<rparr>))"
    using assms nz by (simp add: pipe_write_op_def Let_def cong: option.case_cong)
  have rd: "pipe_write_ready node s \<longleftrightarrow> readers_open ?p \<and> length (pipe_items ?p) < 4096"
    using assms pipe_items_length [of ?p]
    by (auto simp: pipe_write_ready_def word_less_nat_alt PIPE_BUFFER_SIZE_def Let_def)
  have sz: "0 < unat sz" using assms(7) by (simp add: unat_gt_0)
  consider "\<not> readers_open ?p" | "readers_open ?p" "length (pipe_items ?p) < 4096"
    | "readers_open ?p" "length (pipe_items ?p) = 4096"
    using pipe.bound [OF assms(6)] by linarith
  then show ?thesis
  proof cases
    case 1
    then show ?thesis by (simp add: op rd pipe_write_attempt_def PIPE_E_BROKEN_def)
  next
    case 2
    from pipe_write_room [OF assms(6) 2(2,1), of sz buf ?nb] 2 sz show ?thesis by (auto simp: op rd)
  next
    case 3
    from pipe_write_full [OF assms(6) 3(2,1), of sz buf ?nb] 3 show ?thesis
      by (auto simp: op rd PIPE_E_WOULD_BLOCK_def)
  qed
qed

text \<open>C30: \<^verbatim>\<open>pipe_read_ready\<close> and \<^verbatim>\<open>pipe_write_ready\<close>, which poll and select use, are exact: the
  read end of a pipe is ready exactly when a read would return without sleeping and without
  \<^verbatim>\<open>PIPE_E_WOULD_BLOCK\<close>, and an open pipe's write end exactly when a write would accept bytes.\<close>

theorem pipe_ready_exact:
  assumes "pipe_node_is_pipe node s" "pe = vn_impl (node_mem s node)" "pe \<noteq> 0"
    and "pe_shared (end_mem s pe) = sh" "sh \<noteq> 0" "pipe_inv (shared_mem s sh)" "sz \<noteq> 0"
  shows "if pe_is_read_end (end_mem s pe)
         then pipe_read_ready node s \<longleftrightarrow> (\<exists>r bs s'. pipe_read_op node sz False [] s = Some (r, bs, s') \<and> 0 \<le> r)
         else pipe_write_ready node s \<longleftrightarrow> (\<exists>r s'. pipe_write_op node sz (Some buf) [] s = Some (r, s') \<and> 0 < r)"
proof (cases "pe_is_read_end (end_mem s pe)")
  case True
  then show ?thesis using read_ready_exact [OF assms(1-7) True] by simp
next
  case False
  then show ?thesis using write_ready_exact [OF assms(1-7) False] by simp
qed

theorem pipe_ready_exact_witness:
  "pipe_node_is_pipe 0x1000 pipe_world \<and>
   (pipe_read_ready 0x1000 pipe_world \<longleftrightarrow>
      (\<exists>r bs s'. pipe_read_op 0x1000 5 False [] pipe_world = Some (r, bs, s') \<and> 0 \<le> r))"
proof -
  have n: "pipe_node_is_pipe 0x1000 pipe_world" by (simp add: pipe_node_is_pipe_def)
  have "pipe_inv (shared_mem pipe_world 0x3000)" by (simp add: pipe_inv_def empty_pipe_def)
  with pipe_ready_exact [OF n, where sh = "0x3000" and sz = 5] n show ?thesis by simp
qed

end
