(* ===== verification/Mqueue.thy ===== *)
theory Mqueue
  imports Vfs_Node Fifo
begin

text \<open>
  Message queues, \<^verbatim>\<open>kernel/mqueue.c\<close>: a table of 16 queues, each a ring of slots in memory
  from \<^verbatim>\<open>kmalloc\<close>. \<open>byte_mem\<close> is the memory of the slots. Waking waiting tasks is recorded in
  the list \<open>signals\<close> of the events signalled. Blocking reads and writes sleep between
  attempts; what the other tasks do meanwhile is a schedule, as for pipes.
\<close>

section \<open>State and operations\<close>

definition MQ_MAX_QUEUES :: nat where "MQ_MAX_QUEUES = 16"
definition MQ_MAX_MESSAGES :: u32 where "MQ_MAX_MESSAGES = 32"
definition MQ_MAX_MESSAGE_SIZE :: u32 where "MQ_MAX_MESSAGE_SIZE = 256"
definition MQ_E_FULL :: int where "MQ_E_FULL = -2"
definition MQ_E_EMPTY :: int where "MQ_E_EMPTY = -3"
definition MQ_EVENT_BASE :: u32 where "MQ_EVENT_BASE = 0x40000000"

record mqueue =
  mq_used :: bool
  mq_id :: int
  max_messages :: u32
  msg_size :: u32
  mq_head :: u32
  mq_tail :: u32
  mq_count :: u32
  mq_lengths :: "nat \<Rightarrow> u32"
  mq_storage :: u64

record mqueue_fd =
  mf_queue_id :: int
  mf_open_flags :: u32

record mq_st = vfs_st +
  queues :: "mqueue list"
  next_queue_id :: int
  fd_mem :: "u64 \<Rightarrow> mqueue_fd"
  byte_mem :: "u64 \<Rightarrow> u8"
  signals :: "int list"

definition mqueue_zero_memory :: "u64 \<Rightarrow> u32 \<Rightarrow> (u64 \<Rightarrow> u8) \<Rightarrow> (u64 \<Rightarrow> u8)" where
  "mqueue_zero_memory buffer sz m = fold (\<lambda>i m. m(buffer + of_nat i := 0)) [0..<unat sz] m"

definition mqueue_copy_memory :: "u64 \<Rightarrow> bytes_at \<Rightarrow> u32 \<Rightarrow> (u64 \<Rightarrow> u8) \<Rightarrow> (u64 \<Rightarrow> u8)" where
  "mqueue_copy_memory dst src sz m = fold (\<lambda>i m. m(dst + of_nat i := src i)) [0..<unat sz] m"

definition mqueue_find :: "int \<Rightarrow> 'a mq_st_scheme \<Rightarrow> nat option" where
  "mqueue_find queue_id s = first_idx (\<lambda>q. mq_used q \<and> mq_id q = queue_id) (queues s)"

definition mqueue_event_id_for :: "mqueue option \<Rightarrow> u32 \<Rightarrow> int" where
  "mqueue_event_id_for queue offset =
     (case queue of None \<Rightarrow> -1
      | Some q \<Rightarrow> if \<not> mq_used q \<or> mq_id q \<le> 0 then -1
                  else sint (MQ_EVENT_BASE + word_of_int (mq_id q) * 2 + offset))"

definition mqueue_read_event_id :: "int \<Rightarrow> 'a mq_st_scheme \<Rightarrow> int" where
  "mqueue_read_event_id queue_id s = mqueue_event_id_for (map_option ((!) (queues s)) (mqueue_find queue_id s)) 0"

definition mqueue_write_event_id :: "int \<Rightarrow> 'a mq_st_scheme \<Rightarrow> int" where
  "mqueue_write_event_id queue_id s = mqueue_event_id_for (map_option ((!) (queues s)) (mqueue_find queue_id s)) 1"

definition emit_event :: "int \<Rightarrow> 'a mq_st_scheme \<Rightarrow> 'a mq_st_scheme" where
  "emit_event e s = s\<lparr>signals := signals s @ [e]\<rparr>"

definition zero_queue :: mqueue where
  "zero_queue = \<lparr>mq_used = False, mq_id = 0, max_messages = 0, msg_size = 0, mq_head = 0, mq_tail = 0,
     mq_count = 0, mq_lengths = (\<lambda>_. 0), mq_storage = 0\<rparr>"

definition mqueue_init :: "'a mq_st_scheme \<Rightarrow> 'a mq_st_scheme" where
  "mqueue_init s = s\<lparr>queues := replicate MQ_MAX_QUEUES zero_queue, next_queue_id := 1\<rparr>"

definition mqueue_create :: "u32 \<Rightarrow> u32 \<Rightarrow> 'a mq_st_scheme \<Rightarrow> (int \<times> 'a mq_st_scheme) option" where
  "mqueue_create max_m msg_sz s =
     (if max_m = 0 \<or> max_m > MQ_MAX_MESSAGES \<or> msg_sz = 0 \<or> msg_sz > MQ_MAX_MESSAGE_SIZE then Some (-1, s)
      else
        let bytes = max_m * msg_sz in
        if bytes div msg_sz \<noteq> max_m then Some (-1, s)
        else case first_idx (\<lambda>q. \<not> mq_used q) (queues s) of
               None \<Rightarrow> Some (-1, s)
             | Some slot \<Rightarrow>
                 Option.bind (kmalloc bytes s) (\<lambda>(storage, s1).
                   if storage = 0 then Some (-1, s1)
                   else Some (next_queue_id s1, s1\<lparr>
                     byte_mem := mqueue_zero_memory storage bytes (byte_mem s1),
                     queues := (queues s1)[slot := (queues s1 ! slot)\<lparr>mq_used := True, mq_id := next_queue_id s1,
                        max_messages := max_m, msg_size := msg_sz, mq_head := 0, mq_tail := 0, mq_count := 0,
                        mq_storage := storage,
                        mq_lengths := fold (\<lambda>i l. l(i := 0)) [0..<unat max_m] (mq_lengths (queues s1 ! slot))\<rparr>],
                     next_queue_id := next_queue_id s1 + 1\<rparr>)))"

text \<open>The copy of a message into the slot at the head, and out of the slot at the tail.\<close>

definition mq_slot :: "mqueue \<Rightarrow> u32 \<Rightarrow> u64" where
  "mq_slot q j = mq_storage q + ucast (j * msg_size q)"

definition mq_put :: "bytes_at \<Rightarrow> u32 \<Rightarrow> mqueue \<times> (u64 \<Rightarrow> u8) \<Rightarrow> mqueue \<times> (u64 \<Rightarrow> u8)" where
  "mq_put message sz qm =
     (let (q, m) = qm; slot = mq_slot q (mq_head q);
          m1 = mqueue_zero_memory slot (msg_size q) m;
          m2 = mqueue_copy_memory slot message sz m1
      in (q\<lparr>mq_lengths := (mq_lengths q)(unat (mq_head q) := sz),
            mq_head := (mq_head q + 1) mod max_messages q,
            mq_count := mq_count q + 1\<rparr>, m2))"

definition mq_take :: "mqueue \<times> (u64 \<Rightarrow> u8) \<Rightarrow> u8 list \<times> mqueue \<times> (u64 \<Rightarrow> u8)" where
  "mq_take qm =
     (let (q, m) = qm; sz = mq_lengths q (unat (mq_tail q)); slot = mq_slot q (mq_tail q)
      in (map (\<lambda>i. m (slot + of_nat i)) [0..<unat sz],
          q\<lparr>mq_lengths := (mq_lengths q)(unat (mq_tail q) := 0),
            mq_tail := (mq_tail q + 1) mod max_messages q,
            mq_count := mq_count q - 1\<rparr>, m))"

definition mqueue_send :: "int \<Rightarrow> bytes_at option \<Rightarrow> u32 \<Rightarrow> 'a mq_st_scheme \<Rightarrow> int \<times> 'a mq_st_scheme" where
  "mqueue_send queue_id message sz s =
     (if message = None \<or> sz = 0 then (-1, s)
      else case mqueue_find queue_id s of
             None \<Rightarrow> (-1, s)
           | Some i \<Rightarrow>
               let q = queues s ! i in
               if \<not> mq_used q \<or> mq_storage q = 0 then (-1, s)
               else if sz > msg_size q then (-1, s)
               else if mq_count q \<ge> max_messages q then (MQ_E_FULL, s)
               else let (q1, m1) = mq_put (the message) sz (q, byte_mem s)
                    in (0, s\<lparr>queues := (queues s)[i := q1], byte_mem := m1\<rparr>))"

text \<open>The result of a receive: the code, and on success the bytes copied to the buffer.\<close>

definition mqueue_receive :: "int \<Rightarrow> bool \<Rightarrow> u32 \<Rightarrow> 'a mq_st_scheme \<Rightarrow> int \<times> u8 list \<times> 'a mq_st_scheme" where
  "mqueue_receive queue_id buffer_null buffer_size s =
     (if buffer_null then (-1, [], s)
      else case mqueue_find queue_id s of
             None \<Rightarrow> (-1, [], s)
           | Some i \<Rightarrow>
               let q = queues s ! i in
               if \<not> mq_used q \<or> mq_storage q = 0 then (-1, [], s)
               else if mq_count q = 0 then (MQ_E_EMPTY, [], s)
               else if buffer_size < mq_lengths q (unat (mq_tail q)) then (-1, [], s)
               else let (bs, q1, m1) = mq_take (q, byte_mem s)
                    in (0, bs, s\<lparr>queues := (queues s)[i := q1], byte_mem := m1\<rparr>))"

definition mqueue_unlink :: "int \<Rightarrow> 'a mq_st_scheme \<Rightarrow> (int \<times> 'a mq_st_scheme) option" where
  "mqueue_unlink queue_id s =
     (case mqueue_find queue_id s of
        None \<Rightarrow> Some (-1, s)
      | Some i \<Rightarrow>
          map_option (\<lambda>s1. (0, s1\<lparr>queues := (queues s1)[i := (queues s1 ! i)\<lparr>mq_used := False, mq_id := 0,
               max_messages := 0, msg_size := 0, mq_head := 0, mq_tail := 0, mq_count := 0, mq_storage := 0,
               mq_lengths := fold (\<lambda>j l. l(j := 0)) [0..<unat MQ_MAX_MESSAGES] (mq_lengths (queues s1 ! i))\<rparr>]\<rparr>))
            (if mq_storage (queues s ! i) \<noteq> 0 then kfree (mq_storage (queues s ! i)) s else Some s))"

record mqueue_info =
  mi_used :: bool
  mi_id :: int
  mi_max_messages :: u32
  mi_msg_size :: u32
  mi_count :: u32

definition mqueue_list :: "bool \<Rightarrow> int \<Rightarrow> 'a mq_st_scheme \<Rightarrow> int \<times> mqueue_info list" where
  "mqueue_list out_null max_queues s =
     (if out_null \<or> max_queues \<le> 0 then (0, [])
      else
        let out = fold (\<lambda>q out. if int (length out) < max_queues \<and> mq_used q
                   then out @ [\<lparr>mi_used = True, mi_id = mq_id q, mi_max_messages = max_messages q,
                                mi_msg_size = msg_size q, mi_count = mq_count q\<rparr>]
                   else out) (queues s) []
        in (int (length out), out))"

text \<open>The file descriptor end of a queue. Installing the node in the descriptor table of the
  task is \<^verbatim>\<open>vfs_fd_install_node\<close>, an argument here.\<close>

definition sizeof_mqueue_fd :: u32 where "sizeof_mqueue_fd = 8"

definition mqueue_make_fd_node :: "int \<Rightarrow> u32 \<Rightarrow> 'a mq_st_scheme \<Rightarrow> (u64 \<times> 'a mq_st_scheme) option" where
  "mqueue_make_fd_node queue_id open_flags s =
     Option.bind (kmalloc sizeof_vfs_node s) (\<lambda>(node, s1).
       if node = 0 then Some (0, s1)
       else Option.bind (kmalloc sizeof_mqueue_fd s1) (\<lambda>(endpoint, s2).
         if endpoint = 0 then map_option (Pair 0) (kfree node s2)
         else Some (node, s2\<lparr>
           node_mem := (node_mem s2)(node := \<lparr>vn_name = ''mq'',
              vn_flags = VFS_FLAG_FILE OR VFS_FLAG_DYNAMIC, vn_size = 0, vn_ref_count = 0,
              vn_impl = endpoint, vn_ops = Mqueue_ops, vn_mountpoint = 0\<rparr>),
           fd_mem := (fd_mem s2)(endpoint := \<lparr>mf_queue_id = queue_id, mf_open_flags = open_flags\<rparr>)\<rparr>)))"

definition mqueue_open_fd ::
    "(u64 \<Rightarrow> u32 \<Rightarrow> 'a mq_st_scheme \<Rightarrow> int \<times> 'a mq_st_scheme) \<Rightarrow> int \<Rightarrow> u32 \<Rightarrow> 'a mq_st_scheme \<Rightarrow>
     (int \<times> 'a mq_st_scheme) option" where
  "mqueue_open_fd vfs_fd_install_node queue_id open_flags s =
     (if mqueue_find queue_id s = None then Some (-1, s)
      else if open_flags AND VFS_O_ACCMODE = 0 then Some (-1, s)
      else if open_flags AND NOT (VFS_O_RDONLY OR VFS_O_WRONLY OR VFS_O_NONBLOCK) \<noteq> 0 then Some (-1, s)
      else map_option (\<lambda>(node, s1). if node = 0 then (-1, s1) else vfs_fd_install_node node open_flags s1)
             (mqueue_make_fd_node queue_id open_flags s))"

definition mqueue_endpoint_queue_id :: "u64 \<Rightarrow> 'a mq_st_scheme \<Rightarrow> int" where
  "mqueue_endpoint_queue_id node s =
     (if node = 0 \<or> vn_ops (node_mem s node) \<noteq> Mqueue_ops \<or> vn_impl (node_mem s node) = 0 then -1
      else mf_queue_id (fd_mem s (vn_impl (node_mem s node))))"

text \<open>One round of the loops of the read and write operations: \<open>None\<close> means the caller has to
  sleep.\<close>

definition mqueue_read_attempt :: "int \<Rightarrow> u32 \<Rightarrow> u32 \<Rightarrow> 'a mq_st_scheme \<Rightarrow> (int \<times> u8 list \<times> 'a mq_st_scheme) option" where
  "mqueue_read_attempt queue_id open_flags sz s =
     (if mqueue_find queue_id s = None then Some (-1, [], s)
      else
        let (rc, bs, s1) = mqueue_receive queue_id False sz s in
        if rc = 0 then
          (let e = mqueue_write_event_id queue_id s1
           in Some (int (length bs), bs, if e \<ge> 0 then emit_event e s1 else s1))
        else if rc \<noteq> MQ_E_EMPTY then Some (-1, [], s1)
        else if open_flags AND VFS_O_NONBLOCK \<noteq> 0 then Some (MQ_E_FULL, [], s1)
        else None)"

definition mqueue_write_attempt :: "int \<Rightarrow> u32 \<Rightarrow> u32 \<Rightarrow> bytes_at \<Rightarrow> 'a mq_st_scheme \<Rightarrow> (int \<times> 'a mq_st_scheme) option" where
  "mqueue_write_attempt queue_id open_flags sz buf s =
     (if mqueue_find queue_id s = None then Some (-1, s)
      else
        let (rc, s1) = mqueue_send queue_id (Some buf) sz s in
        if rc = 0 then
          (let e = mqueue_read_event_id queue_id s1
           in Some (sint sz, if e \<ge> 0 then emit_event e s1 else s1))
        else if rc \<noteq> MQ_E_FULL then Some (-1, s1)
        else if open_flags AND VFS_O_NONBLOCK \<noteq> 0 then Some (MQ_E_FULL, s1)
        else None)"

fun mqueue_read_loop :: "u64 \<Rightarrow> int \<Rightarrow> u32 \<Rightarrow> ('a mq_st_scheme \<Rightarrow> 'a mq_st_scheme) list \<Rightarrow> 'a mq_st_scheme \<Rightarrow>
    (int \<times> u8 list \<times> 'a mq_st_scheme) option" where
  "mqueue_read_loop endpoint queue_id sz sched s =
     (case mqueue_read_attempt queue_id (mf_open_flags (fd_mem s endpoint)) sz s of
        Some r \<Rightarrow> Some r
      | None \<Rightarrow> (case sched of [] \<Rightarrow> None | other # rest \<Rightarrow> mqueue_read_loop endpoint queue_id sz rest (other s)))"

fun mqueue_write_loop :: "u64 \<Rightarrow> int \<Rightarrow> u32 \<Rightarrow> bytes_at \<Rightarrow> ('a mq_st_scheme \<Rightarrow> 'a mq_st_scheme) list \<Rightarrow> 'a mq_st_scheme \<Rightarrow>
    (int \<times> 'a mq_st_scheme) option" where
  "mqueue_write_loop endpoint queue_id sz buf sched s =
     (case mqueue_write_attempt queue_id (mf_open_flags (fd_mem s endpoint)) sz buf s of
        Some r \<Rightarrow> Some r
      | None \<Rightarrow> (case sched of [] \<Rightarrow> None | other # rest \<Rightarrow> mqueue_write_loop endpoint queue_id sz buf rest (other s)))"

definition mqueue_read_op :: "u64 \<Rightarrow> u32 \<Rightarrow> bool \<Rightarrow> ('a mq_st_scheme \<Rightarrow> 'a mq_st_scheme) list \<Rightarrow> 'a mq_st_scheme \<Rightarrow>
    (int \<times> u8 list \<times> 'a mq_st_scheme) option" where
  "mqueue_read_op node sz buf_null sched s =
     (if buf_null \<or> sz = 0 \<or> node = 0 \<or> vn_impl (node_mem s node) = 0 then Some (-1, [], s)
      else let endpoint = vn_impl (node_mem s node)
           in mqueue_read_loop endpoint (mf_queue_id (fd_mem s endpoint)) sz sched s)"

definition mqueue_write_op :: "u64 \<Rightarrow> u32 \<Rightarrow> bytes_at option \<Rightarrow> ('a mq_st_scheme \<Rightarrow> 'a mq_st_scheme) list \<Rightarrow> 'a mq_st_scheme \<Rightarrow>
    (int \<times> 'a mq_st_scheme) option" where
  "mqueue_write_op node sz buf sched s =
     (if buf = None \<or> sz = 0 \<or> node = 0 \<or> vn_impl (node_mem s node) = 0 then Some (-1, s)
      else let endpoint = vn_impl (node_mem s node)
           in mqueue_write_loop endpoint (mf_queue_id (fd_mem s endpoint)) sz (the buf) sched s)"

definition mqueue_close_op :: "u64 \<Rightarrow> 'a mq_st_scheme \<Rightarrow> 'a mq_st_scheme option" where
  "mqueue_close_op node s =
     (if node = 0 \<or> vn_impl (node_mem s node) = 0 then Some s
      else map_option (\<lambda>s1. s1\<lparr>node_mem := (node_mem s1)(node := (node_mem s1 node)\<lparr>vn_impl := 0\<rparr>)\<rparr>)
             (kfree (vn_impl (node_mem s node)) s))"

definition mqueue_node_is_queue :: "u64 \<Rightarrow> 'a mq_st_scheme \<Rightarrow> bool" where
  "mqueue_node_is_queue node s \<longleftrightarrow> node \<noteq> 0 \<and> vn_ops (node_mem s node) = Mqueue_ops"

definition mqueue_node_is_valid :: "u64 \<Rightarrow> 'a mq_st_scheme \<Rightarrow> bool" where
  "mqueue_node_is_valid node s \<longleftrightarrow> mqueue_find (mqueue_endpoint_queue_id node s) s \<noteq> None"

definition mqueue_fd_read_ready :: "u64 \<Rightarrow> 'a mq_st_scheme \<Rightarrow> bool" where
  "mqueue_fd_read_ready node s =
     (case mqueue_find (mqueue_endpoint_queue_id node s) s of
        None \<Rightarrow> False | Some i \<Rightarrow> mq_count (queues s ! i) > 0)"

definition mqueue_fd_write_ready :: "u64 \<Rightarrow> 'a mq_st_scheme \<Rightarrow> bool" where
  "mqueue_fd_write_ready node s =
     (case mqueue_find (mqueue_endpoint_queue_id node s) s of
        None \<Rightarrow> False | Some i \<Rightarrow> mq_count (queues s ! i) < max_messages (queues s ! i))"

section \<open>A queue of messages\<close>

lemma mqueue_zero_memory_at:
  "mqueue_zero_memory p sz m a = (if unat (a - p) < unat sz then 0 else m a)"
  unfolding mqueue_zero_memory_def
  by (subst fold_write_bytes) (use unat_u32_less [of sz] in auto)

lemma mqueue_copy_memory_at:
  "mqueue_copy_memory p src sz m a = (if unat (a - p) < unat sz then src (unat (a - p)) else m a)"
  unfolding mqueue_copy_memory_def
  by (subst fold_write_bytes) (use unat_u32_less [of sz] in auto)

text \<open>The messages of a queue, and the invariant of its ring.\<close>

definition mq_message :: "mqueue \<Rightarrow> (u64 \<Rightarrow> u8) \<Rightarrow> nat \<Rightarrow> u8 list" where
  "mq_message q m j = map (\<lambda>k. m (mq_storage q + of_nat (j * unat (msg_size q) + k))) [0..<unat (mq_lengths q j)]"

definition mq_items :: "mqueue \<times> (u64 \<Rightarrow> u8) \<Rightarrow> u8 list list" where
  "mq_items qm = ring (unat (max_messages (fst qm))) (mq_message (fst qm) (snd qm))
     (unat (mq_tail (fst qm))) (unat (mq_count (fst qm)))"

definition mq_inv :: "mqueue \<Rightarrow> bool" where
  "mq_inv q \<longleftrightarrow> 0 < unat (max_messages q) \<and> unat (max_messages q) \<le> 32 \<and>
     0 < unat (msg_size q) \<and> unat (msg_size q) \<le> 256 \<and>
     unat (mq_tail q) < unat (max_messages q) \<and> unat (mq_count q) \<le> unat (max_messages q) \<and>
     unat (mq_head q) = (unat (mq_tail q) + unat (mq_count q)) mod unat (max_messages q) \<and>
     (\<forall>j < unat (max_messages q). unat (mq_lengths q j) \<le> unat (msg_size q))"

definition mq_ok :: "mqueue \<times> (u64 \<Rightarrow> u8) \<Rightarrow> u8 list \<Rightarrow> bool" where
  "mq_ok qm x \<longleftrightarrow> 0 < length x \<and> length x \<le> unat (msg_size (fst qm))"

text \<open>The addresses of the ring of a queue.\<close>

definition mq_area :: "mqueue \<Rightarrow> u64 \<Rightarrow> bool" where
  "mq_area q a \<longleftrightarrow> unat (a - mq_storage q) < unat (max_messages q) * unat (msg_size q)"

lemma mq_slot_nat:
  assumes "mq_inv q" "unat j < unat (max_messages q)"
  shows "mq_slot q j = mq_storage q + of_nat (unat j * unat (msg_size q))"
proof -
  have "unat j * unat (msg_size q) \<le> 32 * 256"
    using assms by (intro mult_mono) (auto simp: mq_inv_def)
  then have "unat (j * msg_size q) = unat j * unat (msg_size q)"
    by (simp add: unat_word_ariths)
  then have "(ucast (j * msg_size q) :: u64) = of_nat (unat j * unat (msg_size q))"
    by (metis of_nat_unat)
  then show ?thesis by (simp add: mq_slot_def)
qed

lemma unat_offset_diff:
  assumes "x \<le> 8192" "y \<le> 8192"
  shows "unat ((p + of_nat x) - (p + of_nat y) :: u64) = (if y \<le> x then x - y else 2 ^ 64 - (y - x))"
proof -
  have "unat (of_nat x :: u64) = x" "unat (of_nat y :: u64) = y"
    using assms by (simp_all add: unat_of_nat take_bit_nat_eq_self)
  moreover have "(p + of_nat x) - (p + of_nat y) = (of_nat x - of_nat y :: u64)" by simp
  ultimately show ?thesis
    by (simp only: unat_sub_if') (simp, linarith)
qed

lemma mq_cell_le:
  assumes "mq_inv q" "j < unat (max_messages q)" "k \<le> unat (msg_size q)"
  shows "j * unat (msg_size q) + k \<le> 8192"
proof -
  have "j * unat (msg_size q) + k \<le> Suc j * unat (msg_size q)" using assms(3) by simp
  also have "\<dots> \<le> 32 * 256" using assms by (intro mult_mono) (auto simp: mq_inv_def)
  finally show ?thesis by simp
qed

text \<open>A slot of the ring contains exactly the addresses of its own message.\<close>

lemma mq_cell_in_slot:
  assumes inv: "mq_inv q" and j: "j < unat (max_messages q)" and h: "unat h < unat (max_messages q)"
    and k: "k < unat (msg_size q)"
  shows "unat ((mq_storage q + of_nat (j * unat (msg_size q) + k)) - mq_slot q h) =
     (if j = unat h then k else if j < unat h then 2 ^ 64 - (unat h * unat (msg_size q) - (j * unat (msg_size q) + k))
      else (j - unat h) * unat (msg_size q) + k)"
proof -
  let ?n = "unat (msg_size q)"
  have le: "j * ?n + k \<le> 8192" "unat h * ?n \<le> 8192"
    using mq_cell_le [OF inv j, of k] mq_cell_le [OF inv h, of 0] k by simp_all
  have "unat h * ?n \<le> j * ?n + k \<longleftrightarrow> unat h \<le> j"
  proof
    assume "unat h * ?n \<le> j * ?n + k"
    then have "unat h * ?n < Suc j * ?n" using k by simp
    then have "unat h < Suc j" by (simp only: mult_less_cancel2)
    then show "unat h \<le> j" by simp
  next
    assume "unat h \<le> j"
    then have "unat h * ?n \<le> j * ?n" by (rule mult_le_mono1)
    then show "unat h * ?n \<le> j * ?n + k" by (rule trans_le_add1)
  qed
  moreover have "j * ?n + k - unat h * ?n = (j - unat h) * ?n + k" if "unat h \<le> j"
    using mult_le_mono1 [OF that, of ?n] by (simp add: diff_mult_distrib)
  ultimately show ?thesis
    using unat_offset_diff [OF le, of "mq_storage q"] mq_slot_nat [OF inv h] by auto
qed

lemma mq_cell_other_slot:
  assumes "mq_inv q" "j < unat (max_messages q)" "unat h < unat (max_messages q)" "j \<noteq> unat h"
    and k: "k < unat (msg_size q)"
  shows "\<not> unat ((mq_storage q + of_nat (j * unat (msg_size q) + k)) - mq_slot q h) < unat (msg_size q)"
proof (cases "j < unat h")
  case True
  have "unat h * unat (msg_size q) \<le> 8192" using mq_cell_le [OF assms(1,3), of 0] by simp
  moreover have "unat (msg_size q) \<le> 256" using assms(1) by (simp add: mq_inv_def)
  ultimately show ?thesis using mq_cell_in_slot [OF assms(1-3) k] True by simp
next
  case False
  then have "1 * unat (msg_size q) \<le> (j - unat h) * unat (msg_size q)"
    using assms(4) by (intro mult_le_mono1) simp
  then show ?thesis using mq_cell_in_slot [OF assms(1-3) k] False assms(4) by (simp only: if_False)
qed

lemma mq_put_message:
  assumes inv: "mq_inv q" and j: "j < unat (max_messages q)" and sz: "unat sz \<le> unat (msg_size q)"
    and r: "mq_put f sz (q, m) = (q', m')"
  shows "mq_message q' m' j = ((mq_message q m)(unat (mq_head q) := map f [0..<unat sz])) j"
proof -
  have h: "unat (mq_head q) < unat (max_messages q)" using inv by (auto simp: mq_inv_def)
  have q': "mq_storage q' = mq_storage q" "msg_size q' = msg_size q"
      "mq_lengths q' = (mq_lengths q)(unat (mq_head q) := sz)"
    and m': "m' = mqueue_copy_memory (mq_slot q (mq_head q)) f sz (mqueue_zero_memory (mq_slot q (mq_head q)) (msg_size q) m)"
    using r by (auto simp: mq_put_def Let_def)
  show ?thesis
  proof (cases "j = unat (mq_head q)")
    case True
    have "m' (mq_storage q + of_nat (j * unat (msg_size q) + k)) = f k" if "k < unat sz" for k
      using mq_cell_in_slot [OF inv j h, of k] that sz True
      by (simp only: m' mqueue_copy_memory_at) simp
    then show ?thesis using True by (simp add: mq_message_def q')
  next
    case False
    have "m' (mq_storage q + of_nat (j * unat (msg_size q) + k)) = m (mq_storage q + of_nat (j * unat (msg_size q) + k))"
      if "k < unat (mq_lengths q j)" for k
    proof -
      have "k < unat (msg_size q)" using that inv j by (auto simp: mq_inv_def intro: less_le_trans)
      from mq_cell_other_slot [OF inv j h False this] sz show ?thesis
        by (simp only: m' mqueue_copy_memory_at mqueue_zero_memory_at) simp
    qed
    then show ?thesis using False by (simp add: mq_message_def q')
  qed
qed

lemma mq_put_fields:
  assumes "mq_put f sz (q, m) = (q', m')"
  shows "mq_used q' = mq_used q" "mq_id q' = mq_id q" "mq_storage q' = mq_storage q"
    "msg_size q' = msg_size q" "max_messages q' = max_messages q" "mq_tail q' = mq_tail q"
    "mq_count q' = mq_count q + 1" "mq_head q' = (mq_head q + 1) mod max_messages q"
    "mq_lengths q' = (mq_lengths q)(unat (mq_head q) := sz)"
  using assms by (auto simp: mq_put_def Let_def)

lemma unat_next_mod:
  assumes "unat (h :: u32) < 32"
  shows "unat ((h + 1) mod n) = (unat h + 1) mod unat n"
  using assms by (simp add: unat_mod_distrib unat_word_ariths)

lemma mq_put_law:
  assumes inv: "mq_inv q" and room: "unat (mq_count q) < unat (max_messages q)"
    and sz: "unat sz \<le> unat (msg_size q)" and r: "mq_put f sz (q, m) = (q', m')"
  shows "mq_inv q'" "mq_items (q', m') = mq_items (q, m) @ [map f [0..<unat sz]]"
proof -
  let ?N = "unat (max_messages q)" and ?t = "unat (mq_tail q)" and ?n = "unat (mq_count q)"
  have N: "0 < ?N" "?N \<le> 32" and t: "?t < ?N" using inv by (auto simp: mq_inv_def)
  have h: "unat (mq_head q) = (?t + ?n) mod ?N" using inv by (simp add: mq_inv_def)
  have c: "unat (mq_count q + 1) = Suc ?n" using room N by (simp add: unat_word_ariths)
  have "unat (mq_head q) < ?N" using h N(1) by simp
  then have "unat ((mq_head q + 1) mod max_messages q) = (?t + Suc ?n) mod ?N"
    using unat_next_mod [of "mq_head q"] N(2) h by (simp add: mod_Suc_eq)
  then show "mq_inv q'"
    using inv room sz c by (simp add: mq_inv_def mq_put_fields [OF r])
  have "mq_items (q', m') = ring ?N ((mq_message q m)((?t + ?n) mod ?N := map f [0..<unat sz])) ?t (Suc ?n)"
    unfolding mq_items_def fst_conv snd_conv mq_put_fields [OF r] c
    using mq_put_message [OF inv _ sz r] h N(1) by (intro ring_cong) auto
  then show "mq_items (q', m') = mq_items (q, m) @ [map f [0..<unat sz]]"
    using ring_put [OF room t] by (simp add: mq_items_def)
qed

lemma mq_take_law:
  assumes inv: "mq_inv q" and ne: "0 < unat (mq_count q)" and r: "mq_take (q, m) = (x, q', m')"
  shows "mq_inv q'" "mq_items (q, m) = x # mq_items (q', m')" "m' = m" "length x = unat (mq_lengths q (unat (mq_tail q)))"
proof -
  let ?N = "unat (max_messages q)" and ?t = "unat (mq_tail q)" and ?n = "unat (mq_count q)"
  have N: "0 < ?N" "?N \<le> 32" and t: "?t < ?N" and n: "?n \<le> ?N" using inv by (auto simp: mq_inv_def)
  have q': "q' = q\<lparr>mq_lengths := (mq_lengths q)(?t := 0), mq_tail := (mq_tail q + 1) mod max_messages q,
      mq_count := mq_count q - 1\<rparr>" and m': "m' = m"
    and x: "x = mq_message q m ?t"
    using r mq_slot_nat [OF inv t] by (auto simp: mq_take_def Let_def mq_message_def add.assoc)
  show "m' = m" "length x = unat (mq_lengths q ?t)" by (simp_all add: m' x mq_message_def)
  have c: "unat (mq_count q - 1) = ?n - 1" using ne by (simp add: unat_minus_one unat_gt_0)
  have t': "unat ((mq_tail q + 1) mod max_messages q) = (?t + 1) mod ?N"
    using unat_next_mod [of "mq_tail q"] t N(2) by simp
  have e: "((?t + 1) mod ?N + (?n - 1)) mod ?N = (?t + ?n) mod ?N"
  proof -
    have "((?t + 1) mod ?N + (?n - 1)) mod ?N = (?t + 1 + (?n - 1)) mod ?N" by (rule mod_add_left_eq)
    also have "?t + 1 + (?n - 1) = ?t + ?n" using ne by simp
    finally show ?thesis .
  qed
  show "mq_inv q'" using inv n N(1) c t' e by (simp add: mq_inv_def q')
  have "ring ?N (mq_message q m) ((?t + 1) mod ?N) (?n - 1) = ring ?N (mq_message q' m') ((?t + 1) mod ?N) (?n - 1)"
    unfolding ring_def
  proof (rule map_cong [OF refl])
    fix i assume "i \<in> set [0..<?n - 1]"
    then have i: "Suc i < ?N" using n by simp
    have "((?t + 1) mod ?N + i) mod ?N = (?t + Suc i) mod ?N" by (simp add: mod_add_left_eq)
    also have "\<dots> = (if ?t + Suc i < ?N then ?t + Suc i else ?t + Suc i - ?N)" using i t by (simp add: mod_if)
    finally have "((?t + 1) mod ?N + i) mod ?N \<noteq> ?t" using i t by (simp split: if_splits)
    then show "mq_message q m (((?t + 1) mod ?N + i) mod ?N) = mq_message q' m' (((?t + 1) mod ?N + i) mod ?N)"
      by (simp add: mq_message_def q' m')
  qed
  then show "mq_items (q, m) = x # mq_items (q', m')"
    using ring_get [OF ne, of ?N "mq_message q m" ?t] t c t' by (simp add: mq_items_def q' x)
qed

lemma mq_items_length [simp]: "length (mq_items (q, m)) = unat (mq_count q)"
  by (simp add: mq_items_def)

interpretation messages: fifo "\<lambda>x. mq_put ((!) x) (of_nat (length x))" mq_take "\<lambda>qm. mq_inv (fst qm)" mq_items
  "\<lambda>qm. unat (max_messages (fst qm))" mq_ok
proof
  show "mq_inv (fst qm) \<Longrightarrow> length (mq_items qm) \<le> unat (max_messages (fst qm))" for qm
    by (simp add: mq_items_def mq_inv_def)
next
  fix qm :: "mqueue \<times> (u64 \<Rightarrow> u8)" and x
  assume a: "mq_inv (fst qm)" "length (mq_items qm) < unat (max_messages (fst qm))" "mq_ok qm x"
  obtain q m where qm: "qm = (q, m)" by (cases qm)
  obtain q' m' where r: "mq_put ((!) x) (of_nat (length x)) (q, m) = (q', m')" by fastforce
  have "unat (of_nat (length x) :: u32) = length x"
    using a(1,3) by (simp add: mq_ok_def mq_inv_def qm unat_of_nat take_bit_nat_eq_self)
  then show "mq_inv (fst (mq_put ((!) x) (of_nat (length x)) qm)) \<and>
      mq_items (mq_put ((!) x) (of_nat (length x)) qm) = mq_items qm @ [x] \<and>
      unat (max_messages (fst (mq_put ((!) x) (of_nat (length x)) qm))) = unat (max_messages (fst qm)) \<and>
      mq_ok (mq_put ((!) x) (of_nat (length x)) qm) = mq_ok qm"
    using a mq_put_law [OF _ _ _ r] mq_put_fields [OF r]
    by (auto simp: qm r mq_ok_def map_nth fun_eq_iff)
next
  fix qm :: "mqueue \<times> (u64 \<Rightarrow> u8)" and x xs
  assume a: "mq_inv (fst qm)" "mq_items qm = x # xs"
  obtain q m where qm: "qm = (q, m)" by (cases qm)
  obtain y q' m' where r: "mq_take (q, m) = (y, q', m')" by (metis prod_cases3)
  have ne: "0 < unat (mq_count q)" using arg_cong [OF a(2), of length] by (simp add: qm)
  have "max_messages q' = max_messages q" "msg_size q' = msg_size q" using r by (auto simp: mq_take_def Let_def)
  with mq_take_law [OF _ ne r] a r
  show "\<exists>q'. mq_take qm = (x, q') \<and> mq_inv (fst q') \<and> mq_items q' = xs \<and>
      unat (max_messages (fst q')) = unat (max_messages (fst qm)) \<and> mq_ok q' = mq_ok qm"
    by (simp add: qm mq_ok_def [abs_def])
qed

section \<open>The table of queues\<close>

text \<open>What the interface promises: a queue of messages per identifier, with a capacity and a
  largest message size.\<close>

record aqueue =
  a_cap :: nat
  a_width :: nat
  a_msgs :: "u8 list list"

definition spec_send :: "int \<Rightarrow> u8 list \<Rightarrow> (int \<rightharpoonup> aqueue) \<Rightarrow> int \<times> (int \<rightharpoonup> aqueue)" where
  "spec_send i x A =
     (case A i of
        None \<Rightarrow> (-1, A)
      | Some q \<Rightarrow>
          if x = [] \<or> length x > a_width q then (-1, A)
          else if length (a_msgs q) = a_cap q then (MQ_E_FULL, A)
          else (0, A(i \<mapsto> q\<lparr>a_msgs := a_msgs q @ [x]\<rparr>)))"

definition spec_receive :: "int \<Rightarrow> nat \<Rightarrow> (int \<rightharpoonup> aqueue) \<Rightarrow> int \<times> u8 list \<times> (int \<rightharpoonup> aqueue)" where
  "spec_receive i n A =
     (case A i of
        None \<Rightarrow> (-1, [], A)
      | Some q \<Rightarrow>
          (case a_msgs q of
             [] \<Rightarrow> (MQ_E_EMPTY, [], A)
           | x # xs \<Rightarrow> if n < length x then (-1, [], A) else (0, x, A(i \<mapsto> q\<lparr>a_msgs := xs\<rparr>))))"

definition mq_abs_queue :: "mqueue \<Rightarrow> (u64 \<Rightarrow> u8) \<Rightarrow> aqueue" where
  "mq_abs_queue q m = \<lparr>a_cap = unat (max_messages q), a_width = unat (msg_size q), a_msgs = mq_items (q, m)\<rparr>"

definition mq_abs :: "'a mq_st_scheme \<Rightarrow> int \<rightharpoonup> aqueue" where
  "mq_abs s i = map_option (\<lambda>k. mq_abs_queue (queues s ! k) (byte_mem s)) (mqueue_find i s)"

definition mq_wf :: "'a mq_st_scheme \<Rightarrow> bool" where
  "mq_wf s \<longleftrightarrow> length (queues s) = MQ_MAX_QUEUES \<and> 0 < next_queue_id s \<and>
     (\<forall>q \<in> set (queues s). mq_used q \<longrightarrow> mq_inv q \<and> mq_storage q \<noteq> 0 \<and> 0 < mq_id q \<and> mq_id q < next_queue_id s) \<and>
     (\<forall>i < MQ_MAX_QUEUES. \<forall>j < MQ_MAX_QUEUES. i \<noteq> j \<longrightarrow> mq_used (queues s ! i) \<longrightarrow> mq_used (queues s ! j) \<longrightarrow>
        mq_id (queues s ! i) \<noteq> mq_id (queues s ! j) \<and>
        (\<forall>a. \<not> (mq_area (queues s ! i) a \<and> mq_area (queues s ! j) a)))"

lemma mq_wfD:
  assumes "mq_wf s" "i < MQ_MAX_QUEUES" "mq_used (queues s ! i)"
  shows "mq_inv (queues s ! i)" "mq_storage (queues s ! i) \<noteq> 0" "0 < mq_id (queues s ! i)"
    "mq_id (queues s ! i) < next_queue_id s"
  using assms by (auto simp: mq_wf_def)

lemma mq_wf_apart:
  assumes "mq_wf s" "i < MQ_MAX_QUEUES" "j < MQ_MAX_QUEUES" "i \<noteq> j" "mq_used (queues s ! i)" "mq_used (queues s ! j)"
  shows "mq_id (queues s ! i) \<noteq> mq_id (queues s ! j)" "\<not> (mq_area (queues s ! i) a \<and> mq_area (queues s ! j) a)"
  using assms unfolding mq_wf_def by blast+

lemma mqueue_findD:
  assumes "mqueue_find k s = Some i"
  shows "i < length (queues s)" "mq_used (queues s ! i)" "mq_id (queues s ! i) = k"
  using first_idx_SomeD [OF assms [unfolded mqueue_find_def]] by auto

lemma mqueue_find_iff:
  assumes wf: "mq_wf s"
  shows "mqueue_find k s = Some i \<longleftrightarrow> i < MQ_MAX_QUEUES \<and> mq_used (queues s ! i) \<and> mq_id (queues s ! i) = k"
proof
  have len: "length (queues s) = MQ_MAX_QUEUES" using wf by (simp add: mq_wf_def)
  show "i < MQ_MAX_QUEUES \<and> mq_used (queues s ! i) \<and> mq_id (queues s ! i) = k" if "mqueue_find k s = Some i"
    using mqueue_findD [OF that] len by simp
  assume i: "i < MQ_MAX_QUEUES \<and> mq_used (queues s ! i) \<and> mq_id (queues s ! i) = k"
  then have "queues s ! i \<in> set (queues s)" using len by simp
  then obtain j where j: "mqueue_find k s = Some j"
    unfolding mqueue_find_def using first_idx_exists [of "queues s ! i" "queues s" "\<lambda>q. mq_used q \<and> mq_id q = k"] i
    by auto
  have "j = i" using mq_wf_apart(1) [OF wf, of j i] mqueue_findD [OF j] i len by auto
  with j show "mqueue_find k s = Some i" by simp
qed

lemma mqueue_find_None_iff:
  assumes "mq_wf s"
  shows "mqueue_find k s = None \<longleftrightarrow> (\<forall>i < MQ_MAX_QUEUES. mq_used (queues s ! i) \<longrightarrow> mq_id (queues s ! i) \<noteq> k)"
  using mqueue_find_iff [OF assms] by (metis option.exhaust option.simps(3))

lemma mq_items_frame:
  assumes inv: "mq_inv q" and eq: "\<And>a. mq_area q a \<Longrightarrow> m' a = m a"
  shows "mq_items (q, m') = mq_items (q, m)"
proof -
  have "mq_message q m' j = mq_message q m j" if j: "j < unat (max_messages q)" for j
  proof -
    have "m' (mq_storage q + of_nat (j * unat (msg_size q) + k)) = m (mq_storage q + of_nat (j * unat (msg_size q) + k))"
      if k: "k < unat (mq_lengths q j)" for k
    proof (rule eq)
      have k: "k < unat (msg_size q)" using k inv j by (auto simp: mq_inv_def intro: less_le_trans)
      have "j * unat (msg_size q) + k < Suc j * unat (msg_size q)" using k by simp
      also have "\<dots> \<le> unat (max_messages q) * unat (msg_size q)" using j by (intro mult_le_mono1) simp
      finally have "j * unat (msg_size q) + k < unat (max_messages q) * unat (msg_size q)" .
      moreover have "unat (of_nat (j * unat (msg_size q) + k) :: u64) = j * unat (msg_size q) + k"
        using mq_cell_le [OF inv j, of k] k by (intro unat_of_nat_small) simp
      ultimately show "mq_area q (mq_storage q + of_nat (j * unat (msg_size q) + k))"
        unfolding mq_area_def by (simp only: add_diff_cancel_left')
    qed
    then show ?thesis by (simp add: mq_message_def)
  qed
  then show ?thesis
    using inv unfolding mq_items_def fst_conv snd_conv by (intro ring_cong) (auto simp: mq_inv_def)
qed

lemma mq_put_frame:
  assumes inv: "mq_inv q" and sz: "unat sz \<le> unat (msg_size q)" and r: "mq_put f sz (q, m) = (q', m')"
    and a: "\<not> mq_area q a"
  shows "m' a = m a"
proof -
  let ?n = "unat (msg_size q)" and ?h = "unat (mq_head q)"
  have h: "?h < unat (max_messages q)" using inv by (auto simp: mq_inv_def)
  have slot: "mq_slot q (mq_head q) = mq_storage q + of_nat (?h * ?n)" by (rule mq_slot_nat [OF inv h])
  have "\<not> unat (a - mq_slot q (mq_head q)) < ?n"
  proof
    define d where "d = unat (a - mq_slot q (mq_head q))"
    assume "unat (a - mq_slot q (mq_head q)) < ?n"
    then have d: "d < ?n" by (simp add: d_def)
    have "of_nat d = a - mq_slot q (mq_head q)" by (simp add: d_def)
    then have "a - mq_storage q = of_nat (?h * ?n + d)" unfolding slot by (simp add: algebra_simps)
    moreover have "unat (of_nat (?h * ?n + d) :: u64) = ?h * ?n + d"
      using mq_cell_le [OF inv h, of d] d by (intro unat_of_nat_small) simp
    moreover have "?h * ?n + d < Suc ?h * ?n" using d by simp
    moreover have "Suc ?h * ?n \<le> unat (max_messages q) * ?n" using h by (intro mult_le_mono1) simp
    ultimately show False using a unfolding mq_area_def by (simp only:)
  qed
  then show ?thesis
    using r sz by (auto simp: mq_put_def Let_def mqueue_copy_memory_at mqueue_zero_memory_at)
qed

text \<open>Writing one entry of the table leaves the other queues as they were.\<close>

lemma mq_area_cong: "mq_storage q' = mq_storage q \<Longrightarrow> max_messages q' = max_messages q \<Longrightarrow> msg_size q' = msg_size q \<Longrightarrow>
  mq_area q' = mq_area q"
  by (simp add: mq_area_def [abs_def])

lemma mq_set:
  assumes wf: "mq_wf s" and i: "i < MQ_MAX_QUEUES" "mq_used (queues s ! i) \<longrightarrow> mq_id (queues s ! i) = k"
    and q': "mq_used q'" "mq_id q' = k" "mq_storage q' \<noteq> 0" "mq_inv q'" "0 < k" "k < n" "next_queue_id s \<le> n"
    and apart: "\<And>j a. j < MQ_MAX_QUEUES \<Longrightarrow> j \<noteq> i \<Longrightarrow> mq_used (queues s ! j) \<Longrightarrow>
       mq_id (queues s ! j) \<noteq> k \<and> \<not> (mq_area (queues s ! j) a \<and> mq_area q' a)"
    and m': "\<And>a. \<not> mq_area q' a \<Longrightarrow> m' a = byte_mem s a"
    and s': "queues s' = (queues s)[i := q']" "byte_mem s' = m'" "next_queue_id s' = n"
  shows "mq_wf s'" "mq_abs s' = (mq_abs s)(k \<mapsto> mq_abs_queue q' m')"
proof -
  have len: "length (queues s) = MQ_MAX_QUEUES" using wf by (simp add: mq_wf_def)
  have nth: "queues s' ! j = (if j = i then q' else queues s ! j)" if "j < MQ_MAX_QUEUES" for j
    using that len by (simp add: s' nth_list_update)
  show wf': "mq_wf s'"
    unfolding mq_wf_def
  proof (intro conjI allI impI ballI)
    show "length (queues s') = MQ_MAX_QUEUES" using len by (simp add: s')
    show "0 < next_queue_id s'" using q'(5,6) by (simp add: s')
  next
    fix q assume q: "q \<in> set (queues s')" "mq_used q"
    have "mq_inv q \<and> mq_storage q \<noteq> 0 \<and> 0 < mq_id q \<and> mq_id q < n"
    proof (cases "q = q'")
      case True
      then show ?thesis using q' by simp
    next
      case False
      then have "q \<in> set (queues s)"
        using subsetD [OF set_update_subset_insert, of q "queues s" i q'] q(1) by (auto simp: s')
      then have "mq_inv q \<and> mq_storage q \<noteq> 0 \<and> 0 < mq_id q \<and> mq_id q < next_queue_id s"
        using wf q(2) unfolding mq_wf_def by blast
      then show ?thesis using q'(7) by auto
    qed
    then show "mq_inv q" "mq_storage q \<noteq> 0" "0 < mq_id q" "mq_id q < next_queue_id s'" by (simp_all add: s')
  next
    fix j l assume jl: "j < MQ_MAX_QUEUES" "l < MQ_MAX_QUEUES" "j \<noteq> l" "mq_used (queues s' ! j)" "mq_used (queues s' ! l)"
    then consider "j = i" "mq_used (queues s ! l)" | "l = i" "mq_used (queues s ! j)"
      | "j \<noteq> i" "l \<noteq> i" "mq_used (queues s ! j)" "mq_used (queues s ! l)"
      using nth by (metis (no_types))
    then have "mq_id (queues s' ! j) \<noteq> mq_id (queues s' ! l) \<and>
        (\<forall>a. \<not> (mq_area (queues s' ! j) a \<and> mq_area (queues s' ! l) a))"
    proof cases
      case 1
      with apart [of l] jl show ?thesis by (auto simp: nth q'(2))
    next
      case 2
      with apart [of j] jl show ?thesis by (auto simp: nth q'(2))
    next
      case 3
      with mq_wf_apart [OF wf jl(1-3)] jl show ?thesis by (simp add: nth)
    qed
    then show "mq_id (queues s' ! j) \<noteq> mq_id (queues s' ! l)"
      "\<not> (mq_area (queues s' ! j) a \<and> mq_area (queues s' ! l) a)" for a by simp_all
  qed
  show "mq_abs s' = (mq_abs s)(k \<mapsto> mq_abs_queue q' m')"
  proof
    fix x
    show "mq_abs s' x = ((mq_abs s)(k \<mapsto> mq_abs_queue q' m')) x"
    proof (cases "x = k")
      case True
      then have "mqueue_find x s' = Some i" using mqueue_find_iff [OF wf'] i q'(1,2) nth by simp
      then show ?thesis using True nth [OF i(1)] by (simp add: mq_abs_def s')
    next
      case False
      have same: "mqueue_find x s' = Some j \<longleftrightarrow> mqueue_find x s = Some j" for j
        unfolding mqueue_find_iff [OF wf'] mqueue_find_iff [OF wf] using nth [of j] i(2) q'(2) False by (cases "j = i") auto
      show ?thesis
      proof (cases "mqueue_find x s")
        case None
        then have "mqueue_find x s' = None" using same by (metis option.exhaust option.distinct(1))
        then show ?thesis using None False by (simp add: mq_abs_def)
      next
        case (Some j)
        then have j: "j < MQ_MAX_QUEUES" "mq_used (queues s ! j)" "mq_id (queues s ! j) = x" "j \<noteq> i"
          using mqueue_find_iff [OF wf] i(2) False by auto
        have "mq_items (queues s ! j, m') = mq_items (queues s ! j, byte_mem s)"
          using apart [OF j(1,4,2)] m' by (intro mq_items_frame [OF mq_wfD(1) [OF wf j(1,2)]]) blast
        then show ?thesis
          using Some same j nth False by (simp add: mq_abs_def mq_abs_queue_def s')
      qed
    qed
  qed
qed

lemma mq_update:
  assumes wf: "mq_wf s" and i: "mqueue_find k s = Some i"
    and q': "mq_used q'" "mq_id q' = k" "mq_storage q' = mq_storage (queues s ! i)"
      "max_messages q' = max_messages (queues s ! i)" "msg_size q' = msg_size (queues s ! i)" "mq_inv q'"
    and m': "\<And>a. \<not> mq_area (queues s ! i) a \<Longrightarrow> m' a = byte_mem s a"
  defines "s' \<equiv> s\<lparr>queues := (queues s)[i := q'], byte_mem := m'\<rparr>"
  shows "mq_wf s'" "mq_abs s' = (mq_abs s)(k \<mapsto> mq_abs_queue q' m')"
proof -
  have i': "i < MQ_MAX_QUEUES" "mq_used (queues s ! i)" "mq_id (queues s ! i) = k"
    using i mqueue_find_iff [OF wf] by auto
  have area: "mq_area q' = mq_area (queues s ! i)" using q' by (intro mq_area_cong) auto
  have "mq_storage q' \<noteq> 0" "0 < k" "k < next_queue_id s" using mq_wfD [OF wf i'(1,2)] i'(3) q' by auto
  note set = mq_set [OF wf i'(1) _ q'(1,2) this(1) q'(6) this(2,3) order_refl, of m' s', unfolded area, OF _ _ m']
  have apart: "mq_id (queues s ! j) \<noteq> k \<and> \<not> (mq_area (queues s ! j) a \<and> mq_area (queues s ! i) a)"
    if "j < MQ_MAX_QUEUES" "j \<noteq> i" "mq_used (queues s ! j)" for j a
    using mq_wf_apart [OF wf that(1) i'(1) that(2,3) i'(2)] i'(3) by auto
  show "mq_wf s'" "mq_abs s' = (mq_abs s)(k \<mapsto> mq_abs_queue q' m')"
    by (rule set; use i'(3) apart in \<open>auto simp: s'_def\<close>)+
qed

lemma mqueue_send_refines:
  assumes wf: "mq_wf s" and r: "mqueue_send k (Some f) sz s = (rc, s')"
  shows "mq_wf s'" "spec_send k (map f [0..<unat sz]) (mq_abs s) = (rc, mq_abs s')"
proof -
  have "mq_wf s' \<and> spec_send k (map f [0..<unat sz]) (mq_abs s) = (rc, mq_abs s')"
  proof (cases "mqueue_find k s")
    case None
    then show ?thesis using r wf by (auto simp: mqueue_send_def mq_abs_def spec_send_def split: if_splits)
  next
    case (Some i)
    let ?q = "queues s ! i"
    have i: "i < MQ_MAX_QUEUES" "mq_used ?q" "mq_id ?q = k" using Some mqueue_find_iff [OF wf] by auto
    have inv: "mq_inv ?q" "mq_storage ?q \<noteq> 0" using mq_wfD [OF wf i(1,2)] by auto
    have abs: "mq_abs s k = Some (mq_abs_queue ?q (byte_mem s))" using Some by (simp add: mq_abs_def)
    have cnt: "unat (mq_count ?q) \<le> unat (max_messages ?q)" using inv by (simp add: mq_inv_def)
    show ?thesis
    proof (cases "sz = 0 \<or> sz > msg_size ?q \<or> mq_count ?q \<ge> max_messages ?q")
      case True
      then show ?thesis
        using r wf i inv abs cnt Some
        by (auto simp: mqueue_send_def spec_send_def mq_abs_queue_def word_le_nat_alt word_less_nat_alt unat_eq_0
            Let_def split: if_splits)
    next
      case False
      obtain q1 m1 where put: "mq_put f sz (?q, byte_mem s) = (q1, m1)" by fastforce
      have s': "rc = 0" "s' = s\<lparr>queues := (queues s)[i := q1], byte_mem := m1\<rparr>"
        using r False i inv Some put by (auto simp: mqueue_send_def)
      have lt: "unat (mq_count ?q) < unat (max_messages ?q)" "unat sz \<le> unat (msg_size ?q)" "sz \<noteq> 0"
        using False by (auto simp: word_le_nat_alt word_less_nat_alt)
      note law = mq_put_law [OF inv(1) lt(1,2) put]
      note up = mq_update [OF wf Some, of q1 m1, unfolded mq_put_fields(1-6) [OF put], OF i(2,3) refl refl refl law(1)
          mq_put_frame [OF inv(1) lt(2) put], folded s'(2)]
      have "mq_abs_queue q1 m1 = (mq_abs_queue ?q (byte_mem s))\<lparr>a_msgs := mq_items (?q, byte_mem s) @ [map f [0..<unat sz]]\<rparr>"
        using law(2) by (simp add: mq_abs_queue_def mq_put_fields(4,5) [OF put])
      then show ?thesis
        using up abs lt s'(1) by (simp add: spec_send_def mq_abs_queue_def unat_eq_0)
    qed
  qed
  then show "mq_wf s'" "spec_send k (map f [0..<unat sz]) (mq_abs s) = (rc, mq_abs s')" by simp_all
qed

lemma mqueue_receive_refines:
  assumes wf: "mq_wf s" and r: "mqueue_receive k False n s = (rc, bs, s')"
  shows "mq_wf s'" "spec_receive k (unat n) (mq_abs s) = (rc, bs, mq_abs s')"
proof -
  have "mq_wf s' \<and> spec_receive k (unat n) (mq_abs s) = (rc, bs, mq_abs s')"
  proof (cases "mqueue_find k s")
    case None
    then show ?thesis using r wf by (auto simp: mqueue_receive_def mq_abs_def spec_receive_def split: if_splits)
  next
    case (Some i)
    let ?q = "queues s ! i"
    have i: "i < MQ_MAX_QUEUES" "mq_used ?q" "mq_id ?q = k" using Some mqueue_find_iff [OF wf] by auto
    have inv: "mq_inv ?q" "mq_storage ?q \<noteq> 0" using mq_wfD [OF wf i(1,2)] by auto
    have abs: "mq_abs s k = Some (mq_abs_queue ?q (byte_mem s))" using Some by (simp add: mq_abs_def)
    obtain x q1 m1 where tk: "mq_take (?q, byte_mem s) = (x, q1, m1)" by (metis prod_cases3)
    show ?thesis
    proof (cases "mq_count ?q = 0")
      case True
      then have "mq_items (?q, byte_mem s) = []" by (simp add: mq_items_def ring_def)
      then show ?thesis
        using r wf i inv abs Some True by (auto simp: mqueue_receive_def spec_receive_def mq_abs_queue_def)
    next
      case False
      then have "0 < unat (mq_count ?q)" by (simp add: unat_gt_0)
      note law = mq_take_law [OF inv(1) this tk]
      have f: "mq_used q1" "mq_id q1 = k" "mq_storage q1 = mq_storage ?q" "max_messages q1 = max_messages ?q"
        "msg_size q1 = msg_size ?q" using tk i by (auto simp: mq_take_def Let_def)
      have "mq_abs_queue q1 m1 = (mq_abs_queue ?q (byte_mem s))\<lparr>a_msgs := mq_items (q1, m1)\<rparr>"
        by (simp add: mq_abs_queue_def f)
      moreover note up = mq_update [OF wf Some f law(1), of m1]
      ultimately show ?thesis
        using r wf i inv abs Some False tk law up
        by (auto simp: mqueue_receive_def spec_receive_def mq_abs_queue_def word_less_nat_alt split: if_splits)
    qed
  qed
  then show "mq_wf s'" "spec_receive k (unat n) (mq_abs s) = (rc, bs, mq_abs s')" by simp_all
qed

section \<open>Properties\<close>

text \<open>A sequence of sends and receives on any of the queues, with the code and the message of
  each.\<close>

datatype mq_cmd = Send int u32 bytes_at | Receive int u32

fun mq_run :: "mq_cmd list \<Rightarrow> 'a mq_st_scheme \<Rightarrow> (int \<times> u8 list) list \<times> 'a mq_st_scheme" where
  "mq_run [] s = ([], s)"
| "mq_run (Send k sz f # cs) s =
     (let (rc, s1) = mqueue_send k (Some f) sz s; (rs, s2) = mq_run cs s1 in ((rc, []) # rs, s2))"
| "mq_run (Receive k n # cs) s =
     (let (rc, bs, s1) = mqueue_receive k False n s; (rs, s2) = mq_run cs s1 in ((rc, bs) # rs, s2))"

fun spec_run :: "mq_cmd list \<Rightarrow> (int \<rightharpoonup> aqueue) \<Rightarrow> (int \<times> u8 list) list \<times> (int \<rightharpoonup> aqueue)" where
  "spec_run [] A = ([], A)"
| "spec_run (Send k sz f # cs) A =
     (let (rc, A1) = spec_send k (map f [0..<unat sz]) A; (rs, A2) = spec_run cs A1 in ((rc, []) # rs, A2))"
| "spec_run (Receive k n # cs) A =
     (let (rc, bs, A1) = spec_receive k (unat n) A; (rs, A2) = spec_run cs A1 in ((rc, bs) # rs, A2))"

lemma mq_run_refines:
  "mq_wf s \<Longrightarrow> mq_run cs s = (rs, s') \<Longrightarrow> mq_wf s' \<and> spec_run cs (mq_abs s) = (rs, mq_abs s')"
proof (induction cs s arbitrary: rs s' rule: mq_run.induct)
  case (2 k sz f cs s)
  obtain rc s1 where s1: "mqueue_send k (Some f) sz s = (rc, s1)" by fastforce
  obtain rs2 s2 where s2: "mq_run cs s1 = (rs2, s2)" by fastforce
  from "2.IH" [OF s1 [symmetric] refl mqueue_send_refines(1) [OF "2.prems"(1) s1] s2] "2.prems" s1 s2
    mqueue_send_refines(2) [OF "2.prems"(1) s1]
  show ?case by simp
next
  case (3 k n cs s)
  obtain rc bs s1 where s1: "mqueue_receive k False n s = (rc, bs, s1)" by (metis prod_cases3)
  obtain rs2 s2 where s2: "mq_run cs s1 = (rs2, s2)" by fastforce
  have "mq_wf s2 \<and> spec_run cs (mq_abs s1) = (rs2, mq_abs s2)"
    using "3.IH" s1 mqueue_receive_refines(1) [OF "3.prems"(1) s1] s2 by simp
  with "3.prems" s1 s2 mqueue_receive_refines(2) [OF "3.prems"(1) s1]
  show ?case by simp
qed simp

definition mq_in_heap :: "'a mq_st_scheme \<Rightarrow> blk list \<Rightarrow> bool" where
  "mq_in_heap s bs \<longleftrightarrow> (\<forall>q \<in> set (queues s). mq_used q \<longrightarrow>
     (\<exists>m. (mq_storage q, m) \<in> heap_used bs \<and> unat (max_messages q) * unat (msg_size q) \<le> m))"

lemma area_interval:
  assumes "unat (a - p :: u64) < n" "unat p + n \<le> 2 ^ 64"
  shows "unat p \<le> unat a" "unat a < unat p + n"
proof -
  have "unat a = unat p + unat (a - p)"
    using assms unat_plus_if' [of p "a - p"] by simp
  then show "unat p \<le> unat a" "unat a < unat p + n" using assms(1) by simp_all
qed

lemma heap_areas_apart:
  assumes t: "tiled lo bs hi" "hi \<le> 2 ^ 32" and p: "(p, m) \<in> heap_used bs" and q: "(q, k) \<in> heap_used bs"
    and ne: "p \<noteq> q" and x: "unat (a - p) < x" "x \<le> m" and y: "unat (a - q) < y" "y \<le> k"
  shows False
proof -
  have lim: "unat p' + m' \<le> 2 ^ 64" if "(p', m') \<in> heap_used bs" for p' m'
  proof -
    from that obtain c n where c: "p' = c + 24" "m' = unat n" "(c, n, False) \<in> set bs" by (auto simp: heap_used_def)
    with tiled_mem [OF t(1) c(3)] unat_payload [OF t c(3)] t(2) show ?thesis by simp
  qed
  have "unat p \<le> unat a" "unat a < unat p + m" "unat q \<le> unat a" "unat a < unat q + k"
    using area_interval [of a p m] area_interval [of a q k] lim [OF p] lim [OF q] x y by simp_all
  with heap_used_apart [OF t p q ne] show False by linarith
qed

lemma fold_zero_lengths: "fold (\<lambda>i l. l(i := 0)) [0..<n] l j = (if j < n then 0 else l j)"
  by (induction n) auto

lemma heap_fresh_block:
  assumes t: "tiled lo bs hi" and a: "(a, k, True) \<in> set bs" and p: "(a + 24, m) \<in> heap_used bs"
  shows False
proof -
  obtain n where "(a, n, False) \<in> set bs" using p by (auto simp: heap_used_def)
  then show False using tiled_apart [OF t a] by force
qed

lemma heap_more_mq:
  assumes "heap_st.more s = heap_st.more t"
  shows "queues s = queues t" "byte_mem s = byte_mem t" "next_queue_id s = next_queue_id t" "fd_mem s = fd_mem t"
    "signals s = signals t"
  using assms by (cases s, cases t, simp)+

text \<open>The block that \<^verbatim>\<open>kmalloc\<close> hands out for a ring.\<close>

lemma mq_kmalloc:
  assumes ok: "heap_ok s lo bs hi" and args: "unat n \<le> 32" "unat w \<le> 256" "2048 < unat n * unat w"
    and fit: "find (fits (heap_align_up (n * w))) bs = Some (a, k, True)"
  obtains s1 bs' m where "kmalloc (n * w) s = Some (a + 24, s1)" "heap_ok s1 lo bs' hi" "s1 = s\<lparr>heap_mem := heap_mem s1\<rparr>"
    "heap_used bs' = insert (a + 24, m) (heap_used bs)" "unat n * unat w \<le> m" "a + 24 \<notin> fst ` heap_used bs"
    "unat (n * w) = unat n * unat w" "a + 24 \<noteq> 0"
proof -
  have le: "unat n * unat w \<le> 32 * 256" using args by (intro mult_mono) auto
  then have nw: "unat (n * w) = unat n * unat w" by (simp add: unat_word_ariths)
  obtain s1 xs ys where km: "kmalloc (n * w) s = Some (a + 24, s1)" "bs = xs @ (a, k, True) # ys"
      "heap_align_up (n * w) \<le> k" "heap_ok s1 lo (xs @ cut (heap_align_up (n * w)) (a, k, True) @ ys) hi"
      "s1 = s\<lparr>heap_mem := heap_mem s1\<rparr>"
    using kmalloc_take [OF ok _ fit] args(3) nw by auto
  define bs' where "bs' = xs @ cut (heap_align_up (n * w)) (a, k, True) @ ys"
  define m where "m = (if unat k \<le> unat (heap_align_up (n * w)) + 40 then unat k else unat (heap_align_up (n * w)))"
  have used: "heap_used bs' = insert (a + 24, m) (heap_used bs)"
    unfolding bs'_def km(2) heap_used_append heap_used_cut m_def by (auto simp: heap_used_def)
  have t: "tiled lo bs hi" "hi \<le> 2 ^ 32" using ok by (auto simp: heap_ok_def)
  have "a + 24 \<notin> fst ` heap_used bs"
    using heap_fresh_block [OF t(1), of a k] km(2) by auto
  moreover have "unat (heap_align_up (n * w)) = (unat n * unat w + 15) div 16 * 16"
    using unat_heap_align_up [of "n * w"] nw le by simp
  then have "unat n * unat w \<le> unat (heap_align_up (n * w))" by simp
  then have "unat n * unat w \<le> m" using km(3) by (auto simp: m_def word_le_nat_alt)
  moreover have "unat (a + 24) \<noteq> 0" using unat_payload [OF t, of a k True] km(2) by simp
  then have "a + 24 \<noteq> 0" by (metis unat_0)
  ultimately show thesis using that km(1) km(4) [folded bs'_def] km(5) used nw by blast
qed

lemma mq_block_apart:
  assumes wf: "mq_wf s" and ih: "mq_in_heap s bs" and ok: "heap_ok s1 lo bs' hi"
    and used: "heap_used bs' = insert (p, m) (heap_used bs)" "p \<notin> fst ` heap_used bs" and n: "n \<le> m"
    and j: "j < MQ_MAX_QUEUES" "mq_used (queues s ! j)"
  shows "\<not> (mq_area (queues s ! j) x \<and> unat (x - p) < n)"
proof -
  let ?q = "queues s ! j"
  have "?q \<in> set (queues s)" using j wf by (simp add: mq_wf_def)
  then obtain l where l: "(mq_storage ?q, l) \<in> heap_used bs" "unat (max_messages ?q) * unat (msg_size ?q) \<le> l"
    using ih j(2) unfolding mq_in_heap_def by blast
  have t: "tiled lo bs' hi" "hi \<le> 2 ^ 32" using ok by (auto simp: heap_ok_def)
  have "mq_storage ?q \<noteq> p" using used(2) l(1) by force
  moreover have "(mq_storage ?q, l) \<in> heap_used bs'" "(p, m) \<in> heap_used bs'" using l(1) used(1) by auto
  ultimately show ?thesis using heap_areas_apart [OF t, of "mq_storage ?q" l p m x] l(2) n by (auto simp: mq_area_def)
qed

lemma mq_in_heap_set:
  assumes ih: "mq_in_heap s bs" and used: "heap_used bs' = insert (p, m) (heap_used bs)"
    and s': "queues s' = (queues s)[i := q]"
    and q: "mq_storage q = p" "unat (max_messages q) * unat (msg_size q) \<le> m"
  shows "mq_in_heap s' bs'"
  unfolding mq_in_heap_def s'
proof (intro ballI impI)
  fix r assume r: "r \<in> set ((queues s)[i := q])" "mq_used r"
  show "\<exists>l. (mq_storage r, l) \<in> heap_used bs' \<and> unat (max_messages r) * unat (msg_size r) \<le> l"
  proof (cases "r = q")
    case True
    then show ?thesis using used q by auto
  next
    case False
    then have "r \<in> set (queues s)" using subsetD [OF set_update_subset_insert r(1)] by simp
    then show ?thesis using ih r(2) used unfolding mq_in_heap_def by blast
  qed
qed

definition small_mq :: mq_st where
  "small_mq =
     vfs_st.extend (heap_st.extend small_heap (vfs_st.fields
        (\<lambda>_. \<lparr>vn_name = ''mq'', vn_flags = 0, vn_size = 0, vn_ref_count = 0, vn_impl = 0x180000, vn_ops = Mqueue_ops,
              vn_mountpoint = 0\<rparr>)))
       (mq_st.fields
         (zero_queue\<lparr>mq_used := True, mq_id := 1, max_messages := 2, msg_size := 8, mq_storage := 0x100000\<rparr> #
          replicate 15 zero_queue)
         2 (\<lambda>_. \<lparr>mf_queue_id = 1, mf_open_flags = VFS_O_RDONLY OR VFS_O_NONBLOCK\<rparr>) (\<lambda>_. 0) [])"

lemma small_mq_fields:
  "queues small_mq = zero_queue\<lparr>mq_used := True, mq_id := 1, max_messages := 2, msg_size := 8, mq_storage := 0x100000\<rparr> #
          replicate 15 zero_queue"
  "next_queue_id small_mq = 2" "byte_mem small_mq = (\<lambda>_. 0)"
  "fd_mem small_mq = (\<lambda>_. \<lparr>mf_queue_id = 1, mf_open_flags = VFS_O_RDONLY OR VFS_O_NONBLOCK\<rparr>)"
  "vn_impl (node_mem small_mq p) = 0x180000"
  "heap_mem small_mq = heap_mem small_heap" "heap_head small_mq = heap_head small_heap"
  by (simp_all add: small_mq_def vfs_st.defs heap_st.defs mq_st.defs)

lemma small_mq_wf: "mq_wf small_mq"
  unfolding mq_wf_def MQ_MAX_QUEUES_def
proof (intro conjI)
  have u: "mq_used (queues small_mq ! i) \<Longrightarrow> i < 16 \<Longrightarrow> i = 0" for i
    by (cases i) (simp_all add: small_mq_fields zero_queue_def)
  then show "\<forall>i<16. \<forall>j<16. i \<noteq> j \<longrightarrow> mq_used (queues small_mq ! i) \<longrightarrow> mq_used (queues small_mq ! j) \<longrightarrow>
      mq_id (queues small_mq ! i) \<noteq> mq_id (queues small_mq ! j) \<and>
      (\<forall>a. \<not> (mq_area (queues small_mq ! i) a \<and> mq_area (queues small_mq ! j) a))" by blast
qed (simp_all add: small_mq_fields zero_queue_def mq_inv_def)

text \<open>C31: the queues implement their contract. Every sequence of sends and receives, on any
  identifiers, gives the codes and the messages that first-in first-out queues of bounded
  capacity give, with every message delivered whole and unchanged, and keeps the table
  well formed.\<close>

theorem mqueue_refines:
  assumes "mq_wf s" "mq_run cs s = (rs, s')"
  shows "mq_wf s' \<and> spec_run cs (mq_abs s) = (rs, mq_abs s')"
  using mq_run_refines [OF assms] .

lemma small_mq_abs:
  "mq_abs small_mq k = (if k = 1 then Some \<lparr>a_cap = 2, a_width = 8, a_msgs = []\<rparr> else None)"
  by (simp add: mq_abs_def mqueue_find_def small_mq_fields zero_queue_def mq_abs_queue_def mq_items_def ring_def
      first_idx_None_iff)

theorem mqueue_refines_witness:
  "mq_wf small_mq \<and>
   fst (mq_run [Send 1 3 (\<lambda>i. of_nat i + 5), Send 1 9 (\<lambda>_. 0), Send 4 1 (\<lambda>_. 0), Receive 1 8, Receive 1 8] small_mq) =
     [(0, []), (-1, []), (-1, []), (0, [5, 6, 7]), (MQ_E_EMPTY, [])]"
proof -
  let ?cs = "[Send 1 3 (\<lambda>i. of_nat i + 5), Send 1 9 (\<lambda>_. 0), Send 4 1 (\<lambda>_. 0), Receive 1 8, Receive 1 8]"
  obtain rs s' where r: "mq_run ?cs small_mq = (rs, s')" by fastforce
  have "fst (spec_run ?cs (mq_abs small_mq)) = [(0, []), (-1, []), (-1, []), (0, [5, 6, 7]), (MQ_E_EMPTY, [])]"
    by (simp add: spec_send_def spec_receive_def small_mq_abs upt_rec)
  with mqueue_refines [OF small_mq_wf r] r small_mq_wf show ?thesis by simp
qed

text \<open>Creating a queue whose ring is taken from the list of blocks, when the rings of all queues are. When the list has a
  free block for the ring and the table a free entry, \<^verbatim>\<open>mqueue_create\<close> returns the next identifier, which was not in use; the new queue is
  empty with the capacity and message size asked for, its storage is a block of its own, and
  the contents of all the other queues are unchanged.\<close>

lemma mqueue_create_spec:
  assumes wf: "mq_wf s" and ok: "heap_ok s lo bs hi" and ih: "mq_in_heap s bs"
    and args: "unat n \<le> 32" "unat w \<le> 256" "2048 < unat n * unat w"
    and slot: "\<exists>q \<in> set (queues s). \<not> mq_used q"
    and fit: "find (fits (heap_align_up (n * w))) bs = Some (a, k, True)"
  shows "\<exists>s' bs'. mqueue_create n w s = Some (next_queue_id s, s') \<and> mq_wf s' \<and> heap_ok s' lo bs' hi \<and>
     mq_in_heap s' bs' \<and> mq_abs s (next_queue_id s) = None \<and>
     mq_abs s' = (mq_abs s)(next_queue_id s \<mapsto> \<lparr>a_cap = unat n, a_width = unat w, a_msgs = []\<rparr>)"
proof -
  let ?k = "next_queue_id s"
  obtain s1 bs' m where km: "kmalloc (n * w) s = Some (a + 24, s1)" "heap_ok s1 lo bs' hi" "s1 = s\<lparr>heap_mem := heap_mem s1\<rparr>"
    "heap_used bs' = insert (a + 24, m) (heap_used bs)" "unat n * unat w \<le> m" "a + 24 \<notin> fst ` heap_used bs"
    "unat (n * w) = unat n * unat w" "a + 24 \<noteq> 0"
    using mq_kmalloc [OF ok args fit] by metis
  have pos: "0 < unat n" "0 < unat w" using args(3) by (auto intro: Nat.gr0I)
  then have guard: "n \<noteq> 0" "\<not> n > MQ_MAX_MESSAGES" "w \<noteq> 0" "\<not> w > MQ_MAX_MESSAGE_SIZE" "n * w div w = n"
    using args(1,2) km(7)
    by (auto simp: MQ_MAX_MESSAGES_def MQ_MAX_MESSAGE_SIZE_def word_less_nat_alt word_unat_eq_iff unat_div_distrib)
  obtain i where i: "first_idx (\<lambda>q. \<not> mq_used q) (queues s) = Some i"
    using slot first_idx_exists [of _ "queues s" "\<lambda>q. \<not> mq_used q"] by blast
  have i': "i < MQ_MAX_QUEUES" "\<not> mq_used (queues s ! i)"
    using first_idx_SomeD [OF i] wf by (auto simp: mq_wf_def)
  define q where "q = (queues s ! i)\<lparr>mq_used := True, mq_id := ?k, max_messages := n, msg_size := w, mq_head := 0,
      mq_tail := 0, mq_count := 0, mq_storage := a + 24,
      mq_lengths := fold (\<lambda>i l. l(i := 0)) [0..<unat n] (mq_lengths (queues s ! i))\<rparr>"
  define m' where "m' = mqueue_zero_memory (a + 24) (n * w) (byte_mem s)"
  define s' where "s' = s1\<lparr>byte_mem := m', queues := (queues s)[i := q], next_queue_id := ?k + 1\<rparr>"
  have s1: "queues s1 = queues s" "byte_mem s1 = byte_mem s" "next_queue_id s1 = ?k"
    using heap_more_mq [OF kmalloc_more [OF km(1)]] by simp_all
  have create: "mqueue_create n w s = Some (?k, s')"
    using guard i km(1,8) by (simp add: mqueue_create_def s'_def q_def m'_def s1)
  have area: "mq_area q x \<longleftrightarrow> unat (x - (a + 24)) < unat n * unat w" for x by (simp add: mq_area_def q_def)
  have apart: "mq_id (queues s ! j) \<noteq> ?k \<and> \<not> (mq_area (queues s ! j) x \<and> mq_area q x)"
    if "j < MQ_MAX_QUEUES" "mq_used (queues s ! j)" for j x
    using mq_block_apart [OF wf ih km(2,4,6,5) that] mq_wfD(4) [OF wf that] unfolding area by auto
  have inv: "mq_inv q" using pos args by (simp add: mq_inv_def q_def fold_zero_lengths)
  have k: "0 < ?k" using wf by (simp add: mq_wf_def)
  have mem: "m' x = byte_mem s x" if "\<not> mq_area q x" for x
    using that unfolding area by (simp only: m'_def mqueue_zero_memory_at km(7)) simp
  have set: "mq_wf s'" "mq_abs s' = (mq_abs s)(?k \<mapsto> mq_abs_queue q m')"
    by (rule mq_set [OF wf i'(1), of ?k q "?k + 1" m']; use i'(2) inv k km(8) apart mem in \<open>simp add: q_def s'_def\<close>)+
  moreover have "mq_abs_queue q m' = \<lparr>a_cap = unat n, a_width = unat w, a_msgs = []\<rparr>"
    by (simp add: mq_abs_queue_def mq_items_def q_def ring_def)
  moreover have "heap_ok s' lo bs' hi" using km(2) by (simp add: heap_ok_def s'_def)
  moreover have "mq_in_heap s' bs'"
    by (rule mq_in_heap_set [OF ih km(4), of _ i q]) (simp_all add: s'_def q_def km(5))
  moreover have "mqueue_find ?k s = None"
    using mq_wfD(4) [OF wf] unfolding mqueue_find_None_iff [OF wf] by (metis less_irrefl)
  ultimately show ?thesis using create by (intro exI [of _ s'] exI [of _ bs']) (simp add: mq_abs_def)
qed

lemma mqueue_init_wf: "mq_wf (mqueue_init s)"
  by (simp add: mq_wf_def mqueue_init_def zero_queue_def)

text \<open>C32: a non-blocking read of an empty queue fails with the code for a full queue,
  \<^verbatim>\<open>MQ_E_FULL\<close>, and not with \<^verbatim>\<open>MQ_E_EMPTY\<close>, which \<^verbatim>\<open>mqueue_receive\<close> gives for the same queue.\<close>

theorem mqueue_read_nonblock_empty:
  assumes wf: "mq_wf s" and node: "node \<noteq> 0" "vn_impl (node_mem s node) = e" "e \<noteq> 0" "sz \<noteq> 0"
    and nb: "mf_open_flags (fd_mem s e) AND VFS_O_NONBLOCK \<noteq> 0"
    and empty: "mq_abs s (mf_queue_id (fd_mem s e)) = Some q" "a_msgs q = []"
  shows "mqueue_read_op node sz False sched s = Some (MQ_E_FULL, [], s) \<and>
         fst (mqueue_receive (mf_queue_id (fd_mem s e)) False sz s) = MQ_E_EMPTY"
proof -
  let ?k = "mf_queue_id (fd_mem s e)"
  obtain i where i: "mqueue_find ?k s = Some i" "q = mq_abs_queue (queues s ! i) (byte_mem s)"
    using empty(1) by (auto simp: mq_abs_def)
  then have "i < MQ_MAX_QUEUES" "mq_used (queues s ! i)" using mqueue_find_iff [OF wf] by auto
  with mq_wfD(2) [OF wf] have u: "mq_used (queues s ! i)" "mq_storage (queues s ! i) \<noteq> 0" by auto
  have "length (mq_items (queues s ! i, byte_mem s)) = 0" using empty(2) i(2) by (simp add: mq_abs_queue_def)
  then have "mq_count (queues s ! i) = 0" by (simp add: unat_eq_0)
  then have "mqueue_receive ?k False sz s = (MQ_E_EMPTY, [], s)"
    using i(1) u by (simp add: mqueue_receive_def)
  then show ?thesis
    using node nb i(1) by (cases sched) (simp_all add: mqueue_read_op_def mqueue_read_attempt_def MQ_E_EMPTY_def)
qed

theorem mqueue_read_nonblock_empty_witness:
  "mqueue_read_op 0x1000 8 False [] small_mq = Some (MQ_E_FULL, [], small_mq) \<and>
   fst (mqueue_receive 1 False 8 small_mq) = MQ_E_EMPTY"
  using mqueue_read_nonblock_empty [OF small_mq_wf, of "0x1000" "0x180000" 8 _ "[]"]
  by (simp add: small_mq_fields small_mq_abs VFS_O_RDONLY_def VFS_O_NONBLOCK_def)

end
