(* ===== verification/Utf8.thy ===== *)
theory Utf8
  imports Lyth_Prelude
begin

text \<open>
  Text output, \<^verbatim>\<open>lib/utf8.c\<close>: the decoder of one UTF-8 sequence, and the table that maps code
  points to the glyphs of the console font, searched by bisection.
\<close>

section \<open>The decoder\<close>

text \<open>The result is the return value and what is written to \<^verbatim>\<open>*cp\<close>; the pointers may be null.\<close>

definition utf8_decode_one :: "bytes_at option \<Rightarrow> bool \<Rightarrow> int \<times> u32 option" where
  "utf8_decode_one sp cp_null =
     (case sp of None \<Rightarrow> (-1, None)
      | Some s \<Rightarrow>
        if cp_null then (-1, None)
        else
          let b0 = s 0 in
          if b0 = 0 then (0, Some 0)
          else if b0 < 0x80 then (1, Some (ucast b0))
          else if b0 < 0xC0 then (-1, Some 0xFFFD)
          else if b0 < 0xE0 then
            (if s 1 AND 0xC0 \<noteq> 0x80 then (-1, Some 0xFFFD)
             else let cp = push_bit 6 (ucast (b0 AND 0x1F)) OR ucast (s 1 AND 0x3F) in
                  if cp < 0x80 then (-1, Some 0xFFFD) else (2, Some cp))
          else if b0 < 0xF0 then
            (if s 1 AND 0xC0 \<noteq> 0x80 \<or> s 2 AND 0xC0 \<noteq> 0x80 then (-1, Some 0xFFFD)
             else let cp = push_bit 12 (ucast (b0 AND 0x0F)) OR push_bit 6 (ucast (s 1 AND 0x3F)) OR
                           ucast (s 2 AND 0x3F) in
                  if cp < 0x0800 then (-1, Some 0xFFFD) else (3, Some cp))
          else if b0 < 0xF8 then
            (if s 1 AND 0xC0 \<noteq> 0x80 \<or> s 2 AND 0xC0 \<noteq> 0x80 \<or> s 3 AND 0xC0 \<noteq> 0x80 then (-1, Some 0xFFFD)
             else let cp = push_bit 18 (ucast (b0 AND 0x07)) OR push_bit 12 (ucast (s 1 AND 0x3F)) OR
                           push_bit 6 (ucast (s 2 AND 0x3F)) OR ucast (s 3 AND 0x3F) in
                  if cp < 0x10000 then (-1, Some 0xFFFD) else (4, Some cp))
          else (-1, Some 0xFFFD))"

section \<open>The glyph table\<close>

definition cp437_table :: "(u32 \<times> u32) list" where
  "cp437_table = [
     (0x00A0, 255), (0x00A1, 173), (0x00A2, 155), (0x00A3, 156), (0x00A5, 157), (0x00A7, 21), (0x00AA, 166), (0x00AB, 174),
     (0x00AC, 170), (0x00B0, 248), (0x00B1, 241), (0x00B2, 253), (0x00B5, 230), (0x00B6, 20), (0x00B7, 250), (0x00BA, 167),
     (0x00BB, 175), (0x00BC, 172), (0x00BD, 171), (0x00BF, 168), (0x00C4, 142), (0x00C5, 143), (0x00C6, 146), (0x00C7, 128),
     (0x00C9, 144), (0x00D1, 165), (0x00D6, 153), (0x00DC, 154), (0x00DF, 225), (0x00E0, 133), (0x00E1, 160), (0x00E2, 131),
     (0x00E4, 132), (0x00E5, 134), (0x00E6, 145), (0x00E7, 135), (0x00E8, 138), (0x00E9, 130), (0x00EA, 136), (0x00EB, 137),
     (0x00EC, 141), (0x00ED, 161), (0x00EE, 140), (0x00EF, 139), (0x00F1, 164), (0x00F2, 149), (0x00F3, 162), (0x00F4, 147),
     (0x00F6, 148), (0x00F7, 246), (0x00F9, 151), (0x00FA, 163), (0x00FB, 150), (0x00FC, 129), (0x00FF, 152), (0x0192, 159),
     (0x0393, 226), (0x0398, 233), (0x03A3, 228), (0x03A6, 232), (0x03A9, 234), (0x03B1, 224), (0x03B4, 235), (0x03B5, 238),
     (0x03B7, 231), (0x03C0, 227), (0x03C3, 229), (0x03C4, 231), (0x03C6, 237), (0x207F, 252), (0x20A7, 158), (0x2019, 39),
     (0x201C, 34), (0x201D, 34), (0x2022, 7), (0x203C, 19), (0x2190, 27), (0x2191, 24), (0x2192, 26), (0x2193, 25),
     (0x2194, 29), (0x2195, 18), (0x21A8, 23), (0x21E6, 27), (0x21E7, 24), (0x21E8, 26), (0x21E9, 25), (0x21D2, 26),
     (0x2219, 249), (0x221A, 251), (0x221E, 236), (0x221F, 28), (0x2229, 239), (0x2248, 247), (0x2261, 240), (0x2264, 243),
     (0x2265, 242), (0x2310, 169), (0x2320, 244), (0x2321, 245), (0x2500, 196), (0x2502, 179), (0x250C, 218), (0x2510, 191),
     (0x2514, 192), (0x2518, 217), (0x251C, 195), (0x2524, 180), (0x252C, 194), (0x2534, 193), (0x253C, 197), (0x2550, 205),
     (0x2551, 186), (0x2552, 213), (0x2553, 214), (0x2554, 201), (0x2555, 184), (0x2556, 183), (0x2557, 187), (0x2558, 212),
     (0x2559, 211), (0x255A, 200), (0x255B, 190), (0x255C, 189), (0x255D, 188), (0x255E, 198), (0x255F, 199), (0x2560, 204),
     (0x2561, 181), (0x2562, 182), (0x2563, 185), (0x2564, 209), (0x2565, 210), (0x2566, 203), (0x2567, 207), (0x2568, 208),
     (0x2569, 202), (0x256A, 216), (0x256B, 215), (0x256C, 206), (0x2580, 223), (0x2584, 220), (0x2588, 219), (0x258C, 221),
     (0x2590, 222), (0x2591, 176), (0x2592, 177), (0x2593, 178), (0x25A0, 254), (0x25AC, 22), (0x25B2, 30), (0x25BA, 16),
     (0x25BC, 31), (0x25C4, 17), (0x25CB, 9), (0x25D8, 8), (0x25D9, 10), (0x2605, 4), (0x2640, 12), (0x2642, 11),
     (0x2660, 6), (0x2663, 5), (0x2665, 3), (0x2666, 4), (0x266A, 13), (0x266B, 14), (0x263A, 1), (0x263B, 2),
     (0x263C, 15)]"

function cp437_search :: "u32 \<Rightarrow> int \<Rightarrow> int \<Rightarrow> u32" where
  "cp437_search cp lo hi =
     (if lo \<le> hi then
        (let mid = (lo + hi) div 2; e = cp437_table ! nat mid in
         if fst e = cp then snd e
         else if cp < fst e then cp437_search cp lo (mid - 1)
         else cp437_search cp (mid + 1) hi)
      else 63)"
  by pat_completeness auto
termination
  by (relation "measure (\<lambda>(cp, lo, hi). nat (hi - lo + 1))") auto

declare cp437_search.simps [simp del]

definition unicode_to_cp437 :: "u32 \<Rightarrow> u32" where
  "unicode_to_cp437 cp =
     (if cp < 0x80 then cp else cp437_search cp 0 (int (length cp437_table) - 1))"

section \<open>The encoding\<close>

text \<open>The bytes of a code point, as the encoding defines them: the shortest form.\<close>

definition utf8_encode :: "nat \<Rightarrow> nat list" where
  "utf8_encode n =
     (if n < 0x80 then [n]
      else if n < 0x800 then [192 + n div 64, 128 + n mod 64]
      else if n < 0x10000 then [224 + n div 4096, 128 + n div 64 mod 64, 128 + n mod 64]
      else [240 + n div 262144, 128 + n div 4096 mod 64, 128 + n div 64 mod 64, 128 + n mod 64])"

lemma is_continuation: "(b :: u8) AND 0xC0 = 0x80 \<longleftrightarrow> unat b div 64 = 2"
proof -
  have "unat (b AND 0xC0) = unat b div 64 * 64"
  proof -
    have "(0xC0 :: u8) = NOT (2 ^ 6 - 1)" by (simp add: word_unat_eq_iff)
    then have "unat (b AND 0xC0) = unat b div 2 ^ 6 * 2 ^ 6" using unat_and_not_mask [of 6 b] by (simp only:) simp
    then show ?thesis by simp
  qed
  then have "b AND 0xC0 = 0x80 \<longleftrightarrow> unat b div 64 * 64 = 128" by (simp add: word_unat_eq_iff)
  then show ?thesis by auto
qed

lemma and_low_bits:
  "unat ((b :: u8) AND 0x3F) = unat b mod 64" "unat (b AND 0x1F) = unat b mod 32"
  "unat (b AND 0x0F) = unat b mod 16" "unat (b AND 0x07) = unat b mod 8"
proof -
  have t: "unat (take_bit k b) = unat b mod 2 ^ k" for k
    unfolding unsigned_take_bit_eq by (simp add: take_bit_eq_mod)
  have m: "b AND 0x3F = take_bit 6 b" "b AND 0x1F = take_bit 5 b" "b AND 0x0F = take_bit 4 b" "b AND 0x07 = take_bit 3 b"
    by (simp_all add: take_bit_eq_mask mask_eq_exp_minus_1)
  show "unat (b AND 0x3F) = unat b mod 64" "unat (b AND 0x1F) = unat b mod 32"
    "unat (b AND 0x0F) = unat b mod 16" "unat (b AND 0x07) = unat b mod 8"
    unfolding m t by simp_all
qed

lemma unat_join:
  assumes "unat (y :: u32) < 2 ^ k" "unat x * 2 ^ k + unat y < 2 ^ 32" "k < 32"
  shows "unat (push_bit k x OR y) = unat x * 2 ^ k + unat y"
proof -
  have "take_bit k y = y" using assms(1) by (simp add: word_unat_eq_iff unsigned_take_bit_eq take_bit_nat_eq_self)
  then have "\<not> bit y n" if "k \<le> n" for n using that by (metis bit_take_bit_iff not_le)
  then have "push_bit k x OR y = push_bit k x + y"
    by (intro disjunctive_add [symmetric]) (auto simp: bit_simps not_le)
  moreover have "unat (push_bit k x) = unat x * 2 ^ k"
    using assms by (simp add: unsigned_push_bit_eq) (simp add: push_bit_eq_mult take_bit_nat_eq_self)
  ultimately show ?thesis using assms(2) by (simp add: unat_plus_if')
qed

lemma unat_ucast_u8: "unat (ucast (b :: u8) :: u32) = unat b"
  using unat_u8_less [of b] by (simp add: unsigned_ucast_eq take_bit_nat_eq_self)

lemma decoded_value2:
  "unat (push_bit 6 (ucast (a :: u8)) OR ucast (b AND 0x3F :: u8) :: u32) = unat a * 64 + unat b mod 64"
  using unat_join [of "ucast (b AND 0x3F)" 6 "ucast a"] unat_u8_less [of a]
  by (simp add: unat_ucast_u8 and_low_bits)

lemma decoded_value3:
  "unat (push_bit 12 (ucast (a :: u8)) OR push_bit 6 (ucast (b AND 0x3F :: u8)) OR ucast (c AND 0x3F :: u8) :: u32) =
   unat a * 4096 + unat b mod 64 * 64 + unat c mod 64"
proof -
  let ?y = "push_bit 6 (ucast (b AND 0x3F)) OR ucast (c AND 0x3F) :: u32"
  have y: "unat ?y = unat b mod 64 * 64 + unat c mod 64" by (simp add: decoded_value2 and_low_bits)
  have "unat b mod 64 * 64 + unat c mod 64 < 4096"
    using mod_less_divisor [of 64 "unat b"] mod_less_divisor [of 64 "unat c"] by linarith
  then show ?thesis
    using unat_join [of ?y 12 "ucast a"] unat_u8_less [of a] y by (simp add: unat_ucast_u8 or.assoc)
qed

lemma decoded_value4:
  "unat (push_bit 18 (ucast (a :: u8)) OR push_bit 12 (ucast (b AND 0x3F :: u8)) OR
      push_bit 6 (ucast (c AND 0x3F :: u8)) OR ucast (d AND 0x3F :: u8) :: u32) =
   unat a * 262144 + unat b mod 64 * 4096 + unat c mod 64 * 64 + unat d mod 64"
proof -
  let ?y = "push_bit 12 (ucast (b AND 0x3F)) OR push_bit 6 (ucast (c AND 0x3F)) OR ucast (d AND 0x3F) :: u32"
  have y: "unat ?y = unat b mod 64 * 4096 + unat c mod 64 * 64 + unat d mod 64"
    by (simp add: decoded_value3 and_low_bits)
  have "unat b mod 64 * 4096 + unat c mod 64 * 64 + unat d mod 64 < 262144"
    using mod_less_divisor [of 64 "unat b"] mod_less_divisor [of 64 "unat c"] mod_less_divisor [of 64 "unat d"] by linarith
  then show ?thesis
    using unat_join [of ?y 18 "ucast a"] unat_u8_less [of a] y by (simp add: unat_ucast_u8 or.assoc)
qed

text \<open>The encoding of a number given by its groups of six bits.\<close>

lemma digit_split:
  assumes "(z :: nat) < c"
  shows "(a * c + z) div c = a" "(a * c + z) mod c = z"
  using assms by simp_all

lemma encode_groups:
  "0 < x \<Longrightarrow> x < 128 \<Longrightarrow> utf8_encode x = [x]"
  "x < 32 \<Longrightarrow> y < 64 \<Longrightarrow> 0x80 \<le> x * 64 + y \<Longrightarrow> utf8_encode (x * 64 + y) = [192 + x, 128 + y]"
  "x < 16 \<Longrightarrow> y < 64 \<Longrightarrow> z < 64 \<Longrightarrow> 0x800 \<le> x * 4096 + y * 64 + z \<Longrightarrow>
   utf8_encode (x * 4096 + y * 64 + z) = [224 + x, 128 + y, 128 + z]"
  "x < 8 \<Longrightarrow> y < 64 \<Longrightarrow> z < 64 \<Longrightarrow> w < 64 \<Longrightarrow> 0x10000 \<le> x * 262144 + y * 4096 + z * 64 + w \<Longrightarrow>
   utf8_encode (x * 262144 + y * 4096 + z * 64 + w) = [240 + x, 128 + y, 128 + z, 128 + w]"
proof -
  show "x < 128 \<Longrightarrow> utf8_encode x = [x]" by (simp add: utf8_encode_def)
  show "x < 32 \<Longrightarrow> y < 64 \<Longrightarrow> 0x80 \<le> x * 64 + y \<Longrightarrow> utf8_encode (x * 64 + y) = [192 + x, 128 + y]"
    by (simp add: utf8_encode_def)
  assume yz: "y < 64" "z < 64"
  have e3: "x * 4096 + y * 64 + z = (x * 64 + y) * 64 + z" "x * 4096 + y * 64 + z = x * 4096 + (y * 64 + z)" by simp_all
  have d3: "(x * 4096 + y * 64 + z) div 4096 = x" "(x * 4096 + y * 64 + z) div 64 mod 64 = y"
      "(x * 4096 + y * 64 + z) mod 64 = z"
    unfolding digit_split(2) [OF yz(2), of "x * 64 + y", folded e3] digit_split(1) [OF yz(2), of "x * 64 + y", folded e3]
      digit_split [OF yz(1)]
    using digit_split(1) [of "y * 64 + z" 4096 x, folded e3(2)] yz by simp_all
  show "x < 16 \<Longrightarrow> 0x800 \<le> x * 4096 + y * 64 + z \<Longrightarrow>
      utf8_encode (x * 4096 + y * 64 + z) = [224 + x, 128 + y, 128 + z]"
    using yz d3 by (simp add: utf8_encode_def)
  assume w: "w < 64"
  have e4: "x * 262144 + y * 4096 + z * 64 + w = (x * 4096 + y * 64 + z) * 64 + w"
    "x * 262144 + y * 4096 + z * 64 + w = (x * 64 + y) * 4096 + (z * 64 + w)"
    "x * 262144 + y * 4096 + z * 64 + w = x * 262144 + (y * 4096 + z * 64 + w)" by simp_all
  have d4: "(x * 262144 + y * 4096 + z * 64 + w) div 262144 = x"
    unfolding e4(3) by (rule digit_split) (use yz w in simp)
  have d5: "(x * 262144 + y * 4096 + z * 64 + w) div 4096 mod 64 = y"
    using digit_split(1) [of "z * 64 + w" 4096 "x * 64 + y"] digit_split(2) [OF yz(1), of x] yz(2) w
    unfolding e4(2) by simp
  have d6: "(x * 262144 + y * 4096 + z * 64 + w) div 64 mod 64 = z" "(x * 262144 + y * 4096 + z * 64 + w) mod 64 = w"
    unfolding e4(1) digit_split [OF w] by (rule d3) (rule refl)
  show "0x10000 \<le> x * 262144 + y * 4096 + z * 64 + w \<Longrightarrow>
      utf8_encode (x * 262144 + y * 4096 + z * 64 + w) = [240 + x, 128 + y, 128 + z, 128 + w]"
    using yz w d4 d5 d6 by (simp add: utf8_encode_def)
qed

lemma decode_one_byte:
  assumes "unat (s 0) = x" "0 < x" "x < 128"
  shows "utf8_decode_one (Some s) False = (1, Some (of_nat x))"
proof -
  have "(ucast (s 0) :: u32) = of_nat x" using assms(1) by (metis of_nat_unat)
  then show ?thesis using assms by (auto simp: utf8_decode_one_def word_less_nat_alt Let_def)
qed

lemma of_nat_unat_eq: "unat (w :: u32) = n \<Longrightarrow> w = of_nat n"
  by (metis of_nat_unat_id)

lemma decode_two_bytes:
  assumes "unat (s 0) = 192 + x" "x < 32"
  shows "utf8_decode_one (Some s) False =
    (if unat (s 1) div 64 = 2 \<and> 0x80 \<le> x * 64 + unat (s 1) mod 64
     then (2, Some (of_nat (x * 64 + unat (s 1) mod 64))) else (-1, Some 0xFFFD))"
proof -
  have v: "unat (push_bit 6 (ucast (s 0 AND 0x1F)) OR ucast (s 1 AND 0x3F) :: u32) = x * 64 + unat (s 1) mod 64"
    using assms digit_split(2) [of x 32 6] by (simp add: decoded_value2 and_low_bits)
  then show ?thesis
    using assms of_nat_unat_eq [OF v]
    by (simp add: utf8_decode_one_def word_less_nat_alt is_continuation v unat_eq_0 [symmetric] not_less Let_def)
qed

lemma decode_three_bytes:
  assumes "unat (s 0) = 224 + x" "x < 16"
  defines "v \<equiv> x * 4096 + unat (s 1) mod 64 * 64 + unat (s 2) mod 64"
  shows "utf8_decode_one (Some s) False =
    (if unat (s 1) div 64 = 2 \<and> unat (s 2) div 64 = 2 \<and> 0x800 \<le> v then (3, Some (of_nat v)) else (-1, Some 0xFFFD))"
proof -
  have v: "unat (push_bit 12 (ucast (s 0 AND 0x0F)) OR push_bit 6 (ucast (s 1 AND 0x3F)) OR ucast (s 2 AND 0x3F) :: u32) = v"
    using assms digit_split(2) [of x 16 14] by (simp add: decoded_value3 and_low_bits)
  then show ?thesis
    using assms(1,2) of_nat_unat_eq [OF v]
    by (simp add: utf8_decode_one_def word_less_nat_alt is_continuation v unat_eq_0 [symmetric] not_less Let_def)
qed

lemma decode_four_bytes:
  assumes "unat (s 0) = 240 + x" "x < 8"
  defines "v \<equiv> x * 262144 + unat (s 1) mod 64 * 4096 + unat (s 2) mod 64 * 64 + unat (s 3) mod 64"
  shows "utf8_decode_one (Some s) False =
    (if unat (s 1) div 64 = 2 \<and> unat (s 2) div 64 = 2 \<and> unat (s 3) div 64 = 2 \<and> 0x10000 \<le> v
     then (4, Some (of_nat v)) else (-1, Some 0xFFFD))"
proof -
  have v: "unat (push_bit 18 (ucast (s 0 AND 0x07)) OR push_bit 12 (ucast (s 1 AND 0x3F)) OR
      push_bit 6 (ucast (s 2 AND 0x3F)) OR ucast (s 3 AND 0x3F) :: u32) = v"
    using assms digit_split(2) [of x 8 30] by (simp add: decoded_value4 and_low_bits)
  then show ?thesis
    using assms(1,2) of_nat_unat_eq [OF v]
    by (simp add: utf8_decode_one_def word_less_nat_alt is_continuation v unat_eq_0 [symmetric] not_less Let_def)
qed

lemma decode_bad_lead:
  assumes "unat (s 0) = 0 \<or> 128 \<le> unat (s 0) \<and> unat (s 0) < 192 \<or> 248 \<le> unat (s 0)"
  shows "fst (utf8_decode_one (Some s) False) \<le> 0"
  using assms by (auto simp: utf8_decode_one_def word_less_nat_alt unat_eq_0 Let_def)

lemma continuation_byte: "unat (b :: u8) div 64 = 2 \<Longrightarrow> unat b = 128 + unat b mod 64"
  using div_mult_mod_eq [of "unat b" 64] by simp

lemma of_nat_cp: "n < 0x200000 \<Longrightarrow> unat (of_nat n :: u32) = n"
  by (simp add: unat_of_nat take_bit_nat_eq_self)

lemma upt_small: "[0..<2] = [0, Suc 0]" "[0..<3] = [0, Suc 0, 2]" "[0..<4] = [0, Suc 0, 2, 3 :: nat]"
  by (simp_all add: upt_rec)

text \<open>A sequence that the decoder accepts is the encoding of the code point it gives.\<close>

lemma decode_sound:
  assumes r: "utf8_decode_one (Some s) False = (int k, Some cp)" and k: "0 < k"
  shows "0 < unat cp \<and> unat cp < 0x200000 \<and> map (\<lambda>i. unat (s i)) [0..<k] = utf8_encode (unat cp)"
proof -
  let ?b = "\<lambda>i. unat (s i)"
  have m: "?b i mod 64 < 64" for i by simp
  consider (bad) "?b 0 = 0 \<or> 128 \<le> ?b 0 \<and> ?b 0 < 192 \<or> 248 \<le> ?b 0"
    | (one) "0 < ?b 0" "?b 0 < 128" | (two) x where "?b 0 = 192 + x" "x < 32"
    | (three) x where "?b 0 = 224 + x" "x < 16" | (four) x where "?b 0 = 240 + x" "x < 8"
  proof -
    have "?b 0 \<ge> 192 \<Longrightarrow> ?b 0 < 224 \<Longrightarrow> ?b 0 = 192 + (?b 0 - 192)" "?b 0 \<ge> 224 \<Longrightarrow> ?b 0 < 240 \<Longrightarrow> ?b 0 = 224 + (?b 0 - 224)"
      "?b 0 \<ge> 240 \<Longrightarrow> ?b 0 < 248 \<Longrightarrow> ?b 0 = 240 + (?b 0 - 240)" by simp_all
    then show thesis
      using that(1,2) that(3) [of "?b 0 - 192"] that(4) [of "?b 0 - 224"] that(5) [of "?b 0 - 240"] by linarith
  qed
  then show ?thesis
  proof cases
    case bad
    from decode_bad_lead [of s, OF this] r k show ?thesis by simp
  next
    case one
    from decode_one_byte [of s, OF refl this] r have "k = 1" "unat cp = ?b 0" by (auto simp: unat_ucast_u8)
    with one show ?thesis by (simp add: encode_groups)
  next
    case two
    let ?n = "x * 64 + ?b 1 mod 64"
    have n: "?n < 2048" using m [of 1] two(2) by linarith
    from decode_two_bytes [of s, OF two] r k have e: "?b 1 div 64 = 2" "0x80 \<le> ?n" "k = 2" "cp = of_nat ?n"
      by (auto split: if_splits)
    have "unat cp = ?n" using n e(4) of_nat_cp [of ?n] by simp
    moreover have "0 < ?n" using e(2) by linarith
    ultimately show ?thesis using encode_groups(2) [OF two(2) m e(2)] e n two(1) continuation_byte [OF e(1)]
      by (simp add: upt_small)
  next
    case three
    let ?n = "x * 4096 + ?b 1 mod 64 * 64 + ?b 2 mod 64"
    have n: "?n < 65536" using m [of 1] m [of 2] three(2) by linarith
    from decode_three_bytes [of s, OF three] r k have e: "?b 1 div 64 = 2" "?b 2 div 64 = 2" "0x800 \<le> ?n" "k = 3" "cp = of_nat ?n"
      by (auto split: if_splits)
    have "unat cp = ?n" using n e(5) of_nat_cp [of ?n] by simp
    moreover have "0 < ?n" using e(3) by linarith
    ultimately show ?thesis
      using encode_groups(3) [OF three(2) m m e(3)] e n three(1) continuation_byte [OF e(1)] continuation_byte [OF e(2)]
      by (simp add: upt_small)
  next
    case four
    let ?n = "x * 262144 + ?b 1 mod 64 * 4096 + ?b 2 mod 64 * 64 + ?b 3 mod 64"
    have n: "?n < 0x200000" using m [of 1] m [of 2] m [of 3] four(2) by linarith
    from decode_four_bytes [of s, OF four] r k have e: "?b 1 div 64 = 2" "?b 2 div 64 = 2" "?b 3 div 64 = 2" "0x10000 \<le> ?n"
        "k = 4" "cp = of_nat ?n"
      by (auto split: if_splits)
    have "unat cp = ?n" using n e(6) of_nat_cp [of ?n] by simp
    moreover have "0 < ?n" using e(4) by linarith
    ultimately show ?thesis
      using encode_groups(4) [OF four(2) m m m e(4)] e n four(1) continuation_byte [OF e(1)] continuation_byte [OF e(2)]
        continuation_byte [OF e(3)]
      by (simp add: upt_small)
  qed
qed

text \<open>Conversely, the decoder accepts every encoding.\<close>

lemma decode_complete:
  assumes n: "0 < n" "n < 0x200000" and enc: "map (\<lambda>i. unat (s i)) [0..<k] = utf8_encode n"
  shows "utf8_decode_one (Some s) False = (int k, Some (of_nat n)) \<and> 0 < k"
proof -
  have k: "k = length (utf8_encode n)" using arg_cong [OF enc, of length] by simp
  have mod: "(128 + y) div 64 = 2" "(128 + y) mod 64 = y" if "y < 64" for y :: nat
    using that digit_split [of y 64 2] by simp_all
  have d: "n div 64 div 64 = n div 4096" "n div 4096 div 64 = n div 262144" by (simp_all flip: div_mult2_eq)
  consider "n < 0x80" | "0x80 \<le> n" "n < 0x800" | "0x800 \<le> n" "n < 0x10000" | "0x10000 \<le> n" by linarith
  then show ?thesis
  proof cases
    case 1
    with enc k have "unat (s 0) = n" by (simp add: utf8_encode_def)
    from decode_one_byte [of s, OF this n(1)] 1 k show ?thesis by (simp add: utf8_encode_def)
  next
    case 2
    have b: "unat (s 0) = 192 + n div 64" "unat (s 1) = 128 + n mod 64"
      using enc k 2 by (simp_all add: utf8_encode_def upt_small)
    have "n div 64 * 64 + n mod 64 = n" by simp
    with decode_two_bytes [of s, OF b(1)] 2 k b(2) mod show ?thesis by (simp add: utf8_encode_def)
  next
    case 3
    have b: "unat (s 0) = 224 + n div 4096" "unat (s 1) = 128 + n div 64 mod 64" "unat (s 2) = 128 + n mod 64"
      using enc k 3 by (simp_all add: utf8_encode_def numeral_2_eq_2)
    have "n div 4096 * 4096 + n div 64 mod 64 * 64 + n mod 64 = n"
      using div_mult_mod_eq [of n 64] div_mult_mod_eq [of "n div 64" 64] unfolding d by linarith
    with decode_three_bytes [of s, OF b(1)] 3 k b(2,3) mod show ?thesis by (simp add: utf8_encode_def)
  next
    case 4
    have b: "unat (s 0) = 240 + n div 262144" "unat (s 1) = 128 + n div 4096 mod 64"
        "unat (s 2) = 128 + n div 64 mod 64" "unat (s 3) = 128 + n mod 64"
      using enc k 4 by (simp_all add: utf8_encode_def numeral_2_eq_2 numeral_3_eq_3)
    have "n div 262144 * 262144 + n div 4096 mod 64 * 4096 + n div 64 mod 64 * 64 + n mod 64 = n"
      using div_mult_mod_eq [of n 64] div_mult_mod_eq [of "n div 64" 64] div_mult_mod_eq [of "n div 4096" 64]
      unfolding d by linarith
    with decode_four_bytes [of s, OF b(1)] 4 k b(2-4) mod n(2) show ?thesis by (simp add: utf8_encode_def)
  qed
qed

section \<open>Properties\<close>

text \<open>C35: the decoder inverts the encoding exactly. It accepts a sequence of \<open>k\<close> bytes as the code
  point \<open>cp\<close> if and only if these bytes are the shortest encoding of \<open>cp\<close>, so overlong forms
  and stray continuation bytes are refused. The code points accepted are all those of up to
  21 bits: the surrogates and the values above \<open>0x10FFFF\<close>, which are not valid, are among them.\<close>

theorem utf8_decode_exact:
  "utf8_decode_one (Some s) False = (int k, Some cp) \<and> 0 < k \<longleftrightarrow>
   0 < unat cp \<and> unat cp < 0x200000 \<and> map (\<lambda>i. unat (s i)) [0..<k] = utf8_encode (unat cp)"
proof
  show "utf8_decode_one (Some s) False = (int k, Some cp) \<and> 0 < k \<Longrightarrow>
      0 < unat cp \<and> unat cp < 0x200000 \<and> map (\<lambda>i. unat (s i)) [0..<k] = utf8_encode (unat cp)"
    using decode_sound by blast
  show "0 < unat cp \<and> unat cp < 0x200000 \<and> map (\<lambda>i. unat (s i)) [0..<k] = utf8_encode (unat cp) \<Longrightarrow>
      utf8_decode_one (Some s) False = (int k, Some cp) \<and> 0 < k"
    using decode_complete [of "unat cp" s k] by simp
qed

text \<open>The indices of the search stay inside the table.\<close>

lemma cp437_search_bound:
  "0 \<le> lo \<Longrightarrow> hi < int (length cp437_table) \<Longrightarrow>
   cp437_search cp lo hi = 63 \<or> cp437_search cp lo hi \<in> snd ` set cp437_table"
proof (induction cp lo hi rule: cp437_search.induct)
  case (1 cp lo hi)
  let ?mid = "(lo + hi) div 2"
  have "nat ?mid < length cp437_table" if "lo \<le> hi" using that "1.prems" by linarith
  then have "snd (cp437_table ! nat ?mid) \<in> snd ` set cp437_table" if "lo \<le> hi" using that by simp
  moreover have "0 \<le> ?mid + 1" "?mid - 1 < int (length cp437_table)" if "lo \<le> hi" using that "1.prems" by linarith+
  ultimately show ?case
    using "1.IH" [OF _ refl refl] "1.prems" unfolding cp437_search.simps [of cp lo hi] by (auto simp: Let_def)
qed

lemma cp437_glyphs: "\<forall>g \<in> snd ` set cp437_table. g < 256"
  by (simp add: cp437_table_def)

text \<open>Every code point is mapped to a glyph of the font, whose numbers are below 256; the
  search ends for every code point.\<close>

lemma unicode_to_cp437_bound: "unicode_to_cp437 cp < 256"
proof -
  have "cp437_search cp 0 (int (length cp437_table) - 1) < 256"
    using cp437_search_bound [of 0 "int (length cp437_table) - 1" cp] cp437_glyphs by auto
  moreover have "cp < 256" if "cp < 0x80" using that by (rule less_trans) simp
  ultimately show ?thesis by (simp add: unicode_to_cp437_def)
qed

text \<open>An entry that is in order with every other entry of the table.\<close>

definition in_order :: "nat \<Rightarrow> bool" where
  "in_order i \<longleftrightarrow> i < length cp437_table \<and>
     list_all (\<lambda>e. fst e < fst (cp437_table ! i)) (take i cp437_table) \<and>
     list_all (\<lambda>e. fst (cp437_table ! i) < fst e) (drop (Suc i) cp437_table)"

lemma in_orderD:
  assumes "in_order i" "j < length cp437_table"
  shows "j < i \<Longrightarrow> fst (cp437_table ! j) < fst (cp437_table ! i)"
    "i < j \<Longrightarrow> fst (cp437_table ! i) < fst (cp437_table ! j)"
proof -
  show "fst (cp437_table ! j) < fst (cp437_table ! i)" if "j < i"
    using assms that by (auto simp: in_order_def list_all_length)
  show "fst (cp437_table ! i) < fst (cp437_table ! j)" if "i < j"
    using assms that unfolding in_order_def list_all_length
    by (elim conjE allE [where x = "j - Suc i"]) auto
qed

lemma cp437_search_in_order:
  assumes "in_order i"
  shows "0 \<le> lo \<Longrightarrow> lo \<le> int i \<Longrightarrow> int i \<le> hi \<Longrightarrow> hi < int (length cp437_table) \<Longrightarrow>
    cp437_search (fst (cp437_table ! i)) lo hi = snd (cp437_table ! i)"
proof (induction "fst (cp437_table ! i)" lo hi rule: cp437_search.induct)
  case (1 lo hi)
  define mid where "mid = (lo + hi) div 2"
  have mid: "lo \<le> mid" "mid \<le> hi" "nat mid < length cp437_table" using "1.prems" unfolding mid_def by linarith+
  have le: "lo \<le> hi" using "1.prems" by linarith
  note step = cp437_search.simps [of "fst (cp437_table ! i)" lo hi, unfolded Let_def, folded mid_def]
  consider "nat mid = i" | "i < nat mid" | "nat mid < i" by linarith
  then show ?case
  proof cases
    case 1
    then show ?thesis using le step by simp
  next
    case 2
    with in_orderD(2) [OF assms mid(3)] have "fst (cp437_table ! i) < fst (cp437_table ! nat mid)" by simp
    then show ?thesis
      using "1.hyps"(1) [OF le mid_def refl] "1.prems" 2 le mid step by (auto simp: not_less_iff_gr_or_eq)
  next
    case 3
    with in_orderD(1) [OF assms mid(3)] have lt: "fst (cp437_table ! nat mid) < fst (cp437_table ! i)" by simp
    then show ?thesis
      using "1.hyps"(2) [OF le mid_def refl] "1.prems" 3 le mid step by (auto simp: not_less_iff_gr_or_eq)
  qed
qed

text \<open>C36: the bisection finds the glyph of every entry of the table that is in order with the rest
  of the table.\<close>

theorem unicode_to_cp437_finds:
  assumes "in_order i"
  shows "unicode_to_cp437 (fst (cp437_table ! i)) = snd (cp437_table ! i)"
proof -
  have i: "i < length cp437_table" using assms by (simp add: in_order_def)
  have "list_all (\<lambda>e. 0x80 \<le> fst e) cp437_table" by (simp add: cp437_table_def)
  then have "\<not> fst (cp437_table ! i) < 0x80" using i by (auto simp: list_all_length not_less)
  then show ?thesis using cp437_search_in_order [OF assms] i by (simp add: unicode_to_cp437_def)
qed

theorem unicode_to_cp437_finds_witness: "unicode_to_cp437 0x00F1 = 164"
proof -
  have "in_order 44" by (simp add: in_order_def cp437_table_def)
  from unicode_to_cp437_finds [OF this] show ?thesis by (simp add: cp437_table_def)
qed

lemma cp437_length: "length cp437_table = 169"
  by (simp add: cp437_table_def)

lemma cp437_nth:
  shows "cp437_table ! 0 = (0x00A0, 255)" "cp437_table ! Suc 0 = (0x00A1, 173)" "cp437_table ! 2 = (0x00A2, 155)" "cp437_table ! 3 = (0x00A3, 156)"
  "cp437_table ! 4 = (0x00A5, 157)" "cp437_table ! 5 = (0x00A7, 21)" "cp437_table ! 6 = (0x00AA, 166)" "cp437_table ! 7 = (0x00AB, 174)"
  "cp437_table ! 8 = (0x00AC, 170)" "cp437_table ! 9 = (0x00B0, 248)" "cp437_table ! 10 = (0x00B1, 241)" "cp437_table ! 11 = (0x00B2, 253)"
  "cp437_table ! 12 = (0x00B5, 230)" "cp437_table ! 13 = (0x00B6, 20)" "cp437_table ! 14 = (0x00B7, 250)" "cp437_table ! 15 = (0x00BA, 167)"
  "cp437_table ! 16 = (0x00BB, 175)" "cp437_table ! 17 = (0x00BC, 172)" "cp437_table ! 18 = (0x00BD, 171)" "cp437_table ! 19 = (0x00BF, 168)"
  "cp437_table ! 20 = (0x00C4, 142)" "cp437_table ! 21 = (0x00C5, 143)" "cp437_table ! 22 = (0x00C6, 146)" "cp437_table ! 23 = (0x00C7, 128)"
  "cp437_table ! 24 = (0x00C9, 144)" "cp437_table ! 25 = (0x00D1, 165)" "cp437_table ! 26 = (0x00D6, 153)" "cp437_table ! 27 = (0x00DC, 154)"
  "cp437_table ! 28 = (0x00DF, 225)" "cp437_table ! 29 = (0x00E0, 133)" "cp437_table ! 30 = (0x00E1, 160)" "cp437_table ! 31 = (0x00E2, 131)"
  "cp437_table ! 32 = (0x00E4, 132)" "cp437_table ! 33 = (0x00E5, 134)" "cp437_table ! 34 = (0x00E6, 145)" "cp437_table ! 35 = (0x00E7, 135)"
  "cp437_table ! 36 = (0x00E8, 138)" "cp437_table ! 37 = (0x00E9, 130)" "cp437_table ! 38 = (0x00EA, 136)" "cp437_table ! 39 = (0x00EB, 137)"
  "cp437_table ! 40 = (0x00EC, 141)" "cp437_table ! 41 = (0x00ED, 161)" "cp437_table ! 42 = (0x00EE, 140)" "cp437_table ! 43 = (0x00EF, 139)"
  "cp437_table ! 44 = (0x00F1, 164)" "cp437_table ! 45 = (0x00F2, 149)" "cp437_table ! 46 = (0x00F3, 162)" "cp437_table ! 47 = (0x00F4, 147)"
  "cp437_table ! 48 = (0x00F6, 148)" "cp437_table ! 49 = (0x00F7, 246)" "cp437_table ! 50 = (0x00F9, 151)" "cp437_table ! 51 = (0x00FA, 163)"
  "cp437_table ! 52 = (0x00FB, 150)" "cp437_table ! 53 = (0x00FC, 129)" "cp437_table ! 54 = (0x00FF, 152)" "cp437_table ! 55 = (0x0192, 159)"
  "cp437_table ! 56 = (0x0393, 226)" "cp437_table ! 57 = (0x0398, 233)" "cp437_table ! 58 = (0x03A3, 228)" "cp437_table ! 59 = (0x03A6, 232)"
  "cp437_table ! 60 = (0x03A9, 234)" "cp437_table ! 61 = (0x03B1, 224)" "cp437_table ! 62 = (0x03B4, 235)" "cp437_table ! 63 = (0x03B5, 238)"
  "cp437_table ! 64 = (0x03B7, 231)" "cp437_table ! 65 = (0x03C0, 227)" "cp437_table ! 66 = (0x03C3, 229)" "cp437_table ! 67 = (0x03C4, 231)"
  "cp437_table ! 68 = (0x03C6, 237)" "cp437_table ! 69 = (0x207F, 252)" "cp437_table ! 70 = (0x20A7, 158)" "cp437_table ! 71 = (0x2019, 39)"
  "cp437_table ! 72 = (0x201C, 34)" "cp437_table ! 73 = (0x201D, 34)" "cp437_table ! 74 = (0x2022, 7)" "cp437_table ! 75 = (0x203C, 19)"
  "cp437_table ! 76 = (0x2190, 27)" "cp437_table ! 77 = (0x2191, 24)" "cp437_table ! 78 = (0x2192, 26)" "cp437_table ! 79 = (0x2193, 25)"
  "cp437_table ! 80 = (0x2194, 29)" "cp437_table ! 81 = (0x2195, 18)" "cp437_table ! 82 = (0x21A8, 23)" "cp437_table ! 83 = (0x21E6, 27)"
  "cp437_table ! 84 = (0x21E7, 24)" "cp437_table ! 85 = (0x21E8, 26)" "cp437_table ! 86 = (0x21E9, 25)" "cp437_table ! 87 = (0x21D2, 26)"
  "cp437_table ! 88 = (0x2219, 249)" "cp437_table ! 89 = (0x221A, 251)" "cp437_table ! 90 = (0x221E, 236)" "cp437_table ! 91 = (0x221F, 28)"
  "cp437_table ! 92 = (0x2229, 239)" "cp437_table ! 93 = (0x2248, 247)" "cp437_table ! 94 = (0x2261, 240)" "cp437_table ! 95 = (0x2264, 243)"
  "cp437_table ! 96 = (0x2265, 242)" "cp437_table ! 97 = (0x2310, 169)" "cp437_table ! 98 = (0x2320, 244)" "cp437_table ! 99 = (0x2321, 245)"
  "cp437_table ! 100 = (0x2500, 196)" "cp437_table ! 101 = (0x2502, 179)" "cp437_table ! 102 = (0x250C, 218)" "cp437_table ! 103 = (0x2510, 191)"
  "cp437_table ! 104 = (0x2514, 192)" "cp437_table ! 105 = (0x2518, 217)" "cp437_table ! 106 = (0x251C, 195)" "cp437_table ! 107 = (0x2524, 180)"
  "cp437_table ! 108 = (0x252C, 194)" "cp437_table ! 109 = (0x2534, 193)" "cp437_table ! 110 = (0x253C, 197)" "cp437_table ! 111 = (0x2550, 205)"
  "cp437_table ! 112 = (0x2551, 186)" "cp437_table ! 113 = (0x2552, 213)" "cp437_table ! 114 = (0x2553, 214)" "cp437_table ! 115 = (0x2554, 201)"
  "cp437_table ! 116 = (0x2555, 184)" "cp437_table ! 117 = (0x2556, 183)" "cp437_table ! 118 = (0x2557, 187)" "cp437_table ! 119 = (0x2558, 212)"
  "cp437_table ! 120 = (0x2559, 211)" "cp437_table ! 121 = (0x255A, 200)" "cp437_table ! 122 = (0x255B, 190)" "cp437_table ! 123 = (0x255C, 189)"
  "cp437_table ! 124 = (0x255D, 188)" "cp437_table ! 125 = (0x255E, 198)" "cp437_table ! 126 = (0x255F, 199)" "cp437_table ! 127 = (0x2560, 204)"
  "cp437_table ! 128 = (0x2561, 181)" "cp437_table ! 129 = (0x2562, 182)" "cp437_table ! 130 = (0x2563, 185)" "cp437_table ! 131 = (0x2564, 209)"
  "cp437_table ! 132 = (0x2565, 210)" "cp437_table ! 133 = (0x2566, 203)" "cp437_table ! 134 = (0x2567, 207)" "cp437_table ! 135 = (0x2568, 208)"
  "cp437_table ! 136 = (0x2569, 202)" "cp437_table ! 137 = (0x256A, 216)" "cp437_table ! 138 = (0x256B, 215)" "cp437_table ! 139 = (0x256C, 206)"
  "cp437_table ! 140 = (0x2580, 223)" "cp437_table ! 141 = (0x2584, 220)" "cp437_table ! 142 = (0x2588, 219)" "cp437_table ! 143 = (0x258C, 221)"
  "cp437_table ! 144 = (0x2590, 222)" "cp437_table ! 145 = (0x2591, 176)" "cp437_table ! 146 = (0x2592, 177)" "cp437_table ! 147 = (0x2593, 178)"
  "cp437_table ! 148 = (0x25A0, 254)" "cp437_table ! 149 = (0x25AC, 22)" "cp437_table ! 150 = (0x25B2, 30)" "cp437_table ! 151 = (0x25BA, 16)"
  "cp437_table ! 152 = (0x25BC, 31)" "cp437_table ! 153 = (0x25C4, 17)" "cp437_table ! 154 = (0x25CB, 9)" "cp437_table ! 155 = (0x25D8, 8)"
  "cp437_table ! 156 = (0x25D9, 10)" "cp437_table ! 157 = (0x2605, 4)" "cp437_table ! 158 = (0x2640, 12)" "cp437_table ! 159 = (0x2642, 11)"
  "cp437_table ! 160 = (0x2660, 6)" "cp437_table ! 161 = (0x2663, 5)" "cp437_table ! 162 = (0x2665, 3)" "cp437_table ! 163 = (0x2666, 4)"
  "cp437_table ! 164 = (0x266A, 13)" "cp437_table ! 165 = (0x266B, 14)" "cp437_table ! 166 = (0x263A, 1)" "cp437_table ! 167 = (0x263B, 2)"
  "cp437_table ! 168 = (0x263C, 15)"
  by (simp_all add: cp437_table_def)

definition cp437_missed :: "u32 list" where
  "cp437_missed = [0x207F, 0x20A7, 0x2019, 0x201C, 0x21D2, 0x266A, 0x266B, 0x263A, 0x263B, 0x263C]"

lemma cp437_search_step:
  "cp437_search cp lo hi =
     (if lo \<le> hi then
        (if fst (cp437_table ! nat ((lo + hi) div 2)) = cp then snd (cp437_table ! nat ((lo + hi) div 2))
         else if cp < fst (cp437_table ! nat ((lo + hi) div 2)) then cp437_search cp lo ((lo + hi) div 2 - 1)
         else cp437_search cp ((lo + hi) div 2 + 1) hi)
      else 63)"
  by (subst cp437_search.simps) (simp add: Let_def)

text \<open>The table is not sorted, as the bisection needs it to be, and ten of its entries are
  never found: their code points are shown as a question mark.\<close>

lemma cp437_table_misses:
  "list_all (\<lambda>cp. unicode_to_cp437 cp = 63 \<and> list_ex (\<lambda>e. fst e = cp \<and> snd e \<noteq> 63) cp437_table) cp437_missed"
proof -
  have "list_all (\<lambda>cp. unicode_to_cp437 cp = 63) cp437_missed"
    by (simp add: cp437_missed_def cp437_nth cp437_search_step unicode_to_cp437_def cp437_length)
  moreover have "list_all (\<lambda>cp. list_ex (\<lambda>e. fst e = cp \<and> snd e \<noteq> 63) cp437_table) cp437_missed"
    by (simp add: cp437_missed_def cp437_table_def)
  ultimately show ?thesis by (simp add: list_all_iff)
qed

end
