(* ===== verification/Kstring.thy ===== *)
theory Kstring
  imports Lyth_Prelude
begin

text \<open>
  The kernel's string library, \<^verbatim>\<open>lib/string.c\<close>. The block operations are x86 string
  instructions on a memory of bytes, \<open>bmem\<close>. A C string is read through a pointer,
  \<open>bytes_at\<close>; the loops that stop at its terminator do not end when there is none and are
  partial. Characters are compared as bytes: the source is compiled with \<^verbatim>\<open>char\<close> signed, and
  every comparison here is with an ASCII character, an equality, or done on
  \<^verbatim>\<open>unsigned char\<close>.
\<close>

section \<open>Blocks of memory\<close>

type_synonym bmem = "u64 \<Rightarrow> u8"

text \<open>The string instructions: \<^verbatim>\<open>rep movsb\<close> with the direction flag, and \<^verbatim>\<open>rep stosb\<close>, \<^verbatim>\<open>stosl\<close> and
  \<^verbatim>\<open>stosq\<close> with the flag clear; a store of several bytes is little-endian.\<close>

fun rep_movsb :: "bool \<Rightarrow> u64 \<Rightarrow> u64 \<Rightarrow> nat \<Rightarrow> bmem \<Rightarrow> bmem" where
  "rep_movsb df d s 0 m = m"
| "rep_movsb df d s (Suc n) m =
     rep_movsb df (if df then d - 1 else d + 1) (if df then s - 1 else s + 1) n (m(d := m s))"

definition store_le :: "nat \<Rightarrow> u64 \<Rightarrow> u64 \<Rightarrow> bmem \<Rightarrow> bmem" where
  "store_le k p v m = fold (\<lambda>i m. m(p + of_nat i := ucast (drop_bit (8 * i) v))) [0..<k] m"

fun rep_stos :: "nat \<Rightarrow> u64 \<Rightarrow> u64 \<Rightarrow> nat \<Rightarrow> bmem \<Rightarrow> bmem" where
  "rep_stos k p v 0 m = m"
| "rep_stos k p v (Suc n) m = rep_stos k (p + of_nat k) v n (store_le k p v m)"

definition memcpy :: "u64 \<Rightarrow> u64 \<Rightarrow> u64 \<Rightarrow> bmem \<Rightarrow> bmem" where
  "memcpy dest src n m = rep_movsb False dest src (unat n) m"

definition memset :: "u64 \<Rightarrow> u8 \<Rightarrow> u64 \<Rightarrow> bmem \<Rightarrow> bmem" where
  "memset p c n m =
     (let val8 = (ucast c :: u64);
          val8 = val8 OR push_bit 8 val8;
          val8 = val8 OR push_bit 16 val8;
          val8 = val8 OR push_bit 32 val8;
          qwords = drop_bit 3 n;
          rest = n AND 7
      in rep_stos 1 (p + 8 * qwords) val8 (unat rest) (rep_stos 8 p val8 (unat qwords) m))"

definition memset32 :: "u64 \<Rightarrow> u32 \<Rightarrow> u64 \<Rightarrow> bmem \<Rightarrow> bmem" where
  "memset32 dest v count m = rep_stos 4 dest (ucast v) (unat count) m"

definition memmove :: "u64 \<Rightarrow> u64 \<Rightarrow> u64 \<Rightarrow> bmem \<Rightarrow> bmem" where
  "memmove dest src n m =
     (if dest < src \<or> dest \<ge> src + n then rep_movsb False dest src (unat n) m
      else rep_movsb True (dest + n - 1) (src + n - 1) (unat n) m)"

text \<open>The comparison loop over the first \<open>n\<close> bytes.\<close>

definition memcmp :: "bytes_at \<Rightarrow> bytes_at \<Rightarrow> nat \<Rightarrow> int" where
  "memcmp a b n =
     (case find (\<lambda>i. a i \<noteq> b i) [0..<n] of
        Some i \<Rightarrow> int (unat (a i)) - int (unat (b i))
      | None \<Rightarrow> 0)"

section \<open>Strings\<close>

partial_function (option) strcmp_from :: "nat \<Rightarrow> bytes_at \<Rightarrow> bytes_at \<Rightarrow> int option" where
  "strcmp_from i a b =
     (if a i \<noteq> 0 \<and> a i = b i then strcmp_from (Suc i) a b
      else Some (int (unat (a i)) - int (unat (b i))))"

definition strcmp :: "bytes_at \<Rightarrow> bytes_at \<Rightarrow> int option" where
  "strcmp a b = strcmp_from 0 a b"

definition str_compare :: "bytes_at \<Rightarrow> bytes_at \<Rightarrow> int option" where
  "str_compare a b = strcmp a b"

partial_function (option) strlen_from :: "nat \<Rightarrow> bytes_at \<Rightarrow> nat option" where
  "strlen_from len s = (if s len \<noteq> 0 then strlen_from (Suc len) s else Some len)"

definition strlen :: "bytes_at \<Rightarrow> nat option" where
  "strlen s = strlen_from 0 s"

definition str_length :: "bytes_at \<Rightarrow> u32 option" where
  "str_length s = map_option of_nat (strlen_from 0 s)"

definition to_lower_ascii :: "u8 \<Rightarrow> u8" where
  "to_lower_ascii c = (if c \<ge> 65 \<and> c \<le> 90 then c + 32 else c)"

text \<open>The loops of the equality and prefix tests, with the characters compared after \<open>f\<close>.\<close>

partial_function (option) str_equals_loop :: "(u8 \<Rightarrow> u8) \<Rightarrow> nat \<Rightarrow> bytes_at \<Rightarrow> bytes_at \<Rightarrow> bool option" where
  "str_equals_loop f i a b =
     (if a i \<noteq> 0 \<and> b i \<noteq> 0 then
        (if f (a i) \<noteq> f (b i) then Some False else str_equals_loop f (Suc i) a b)
      else Some (a i = 0 \<and> b i = 0))"

partial_function (option) str_prefix_loop :: "(u8 \<Rightarrow> u8) \<Rightarrow> nat \<Rightarrow> bytes_at \<Rightarrow> bytes_at \<Rightarrow> bool option" where
  "str_prefix_loop f i str prefix =
     (if prefix i \<noteq> 0 then
        (if f (str i) \<noteq> f (prefix i) then Some False else str_prefix_loop f (Suc i) str prefix)
      else Some True)"

definition str_equals :: "bytes_at \<Rightarrow> bytes_at \<Rightarrow> bool option" where
  "str_equals a b = str_equals_loop (\<lambda>c. c) 0 a b"

definition str_equals_ignore_case :: "bytes_at \<Rightarrow> bytes_at \<Rightarrow> bool option" where
  "str_equals_ignore_case a b = str_equals_loop to_lower_ascii 0 a b"

definition str_starts_with :: "bytes_at \<Rightarrow> bytes_at \<Rightarrow> bool option" where
  "str_starts_with str prefix = str_prefix_loop (\<lambda>c. c) 0 str prefix"

definition str_starts_with_ignore_case :: "bytes_at \<Rightarrow> bytes_at \<Rightarrow> bool option" where
  "str_starts_with_ignore_case str prefix = str_prefix_loop to_lower_ascii 0 str prefix"

definition str_after_prefix :: "bytes_at \<Rightarrow> bytes_at \<Rightarrow> bytes_at option" where
  "str_after_prefix str prefix = map_option (\<lambda>i j. str (i + j)) (strlen_from 0 prefix)"

text \<open>\<^verbatim>\<open>str_copy\<close> and \<^verbatim>\<open>str_append\<close> write the array \<open>dst\<close>; both loops are bounded by its size.\<close>

function str_copy_loop :: "nat \<Rightarrow> nat \<Rightarrow> bytes_at \<Rightarrow> int \<Rightarrow> bytes_at \<Rightarrow> nat \<times> bytes_at" where
  "str_copy_loop base i src dst_size dst =
     (if int (base + i) < dst_size - 1 \<and> src i \<noteq> 0
      then str_copy_loop base (Suc i) src dst_size (dst(base + i := src i))
      else (i, dst))"
  by pat_completeness auto
termination
  by (relation "measure (\<lambda>(base, i, src, dst_size, dst). nat dst_size - (base + i))") auto

declare str_copy_loop.simps [simp del]

definition str_copy :: "bytes_at \<Rightarrow> bytes_at \<Rightarrow> int \<Rightarrow> bytes_at" where
  "str_copy dst src dst_size =
     (if dst_size \<le> 0 then dst
      else let (i, dst1) = str_copy_loop 0 0 src dst_size dst in dst1(i := 0))"

definition str_append :: "bytes_at \<Rightarrow> bytes_at \<Rightarrow> int \<Rightarrow> bytes_at" where
  "str_append dst src dst_size =
     (let dlen = (case find (\<lambda>i. dst i = 0) [0..<nat dst_size] of Some i \<Rightarrow> i | None \<Rightarrow> nat dst_size);
          (i, dst1) = str_copy_loop dlen 0 src dst_size dst
      in if int (dlen + i) < dst_size then dst1(dlen + i := 0) else dst1)"

text \<open>The digits of a number, least significant first, as \<^verbatim>\<open>uint_to_str\<close> collects them.\<close>

function digit_loop :: "u32 \<Rightarrow> u8 list \<Rightarrow> u8 list" where
  "digit_loop v tmp = (if v \<noteq> 0 then digit_loop (v div 10) (tmp @ [48 + ucast (v mod 10)]) else tmp)"
  by pat_completeness auto
termination
  by (relation "measure (\<lambda>(v, tmp). unat v)") (auto simp: unat_div_distrib word_unat_eq_iff)

declare digit_loop.simps [simp del]

definition uint_to_str :: "u32 \<Rightarrow> bytes_at \<Rightarrow> int \<Rightarrow> bytes_at" where
  "uint_to_str v buf buf_size =
     (if buf_size \<le> 0 then buf
      else
        let tmp = (if v = 0 then [48] else digit_loop v []);
            len = length tmp;
            i = min len (nat (buf_size - 1))
        in (fold (\<lambda>j b. b(j := tmp ! (len - 1 - j))) [0..<i] buf)(i := 0))"

section \<open>What the block operations do\<close>

definition mv :: "u64 \<Rightarrow> u64 \<Rightarrow> nat \<Rightarrow> bmem \<Rightarrow> bmem" where
  "mv d s i m = m(d + of_nat i := m (s + of_nat i))"

lemma mv_Suc: "mv d s (Suc i) = mv (d + 1) (s + 1) i"
  by (rule ext) (simp add: mv_def add.assoc)

lemma rep_movsb_forward: "rep_movsb False d s n m = fold (mv d s) [0..<n] m"
proof (induction n arbitrary: d s m)
  case (Suc n)
  have "rep_movsb False d s (Suc n) m = rep_movsb False (d + 1) (s + 1) n (mv d s 0 m)" by (simp add: mv_def)
  also have "\<dots> = fold (mv (d + 1) (s + 1)) [0..<n] (mv d s 0 m)" by (rule Suc)
  also have "\<dots> = fold (mv d s) (map Suc [0..<n]) (mv d s 0 m)" by (simp add: fold_map comp_def mv_Suc)
  also have "\<dots> = fold (mv d s) [0..<Suc n] m" by (simp add: upt_conv_Cons map_Suc_upt del: upt_Suc)
  finally show ?case .
qed simp

lemma rep_movsb_backward:
  "rep_movsb True (d + of_nat n - 1) (s + of_nat n - 1) n m = fold (mv d s) (rev [0..<n]) m"
proof (induction n arbitrary: m)
  case (Suc n)
  have e: "x + of_nat (Suc n) - 1 = x + of_nat n" for x :: u64 by simp
  have "rep_movsb True (d + of_nat n) (s + of_nat n) (Suc n) m =
      rep_movsb True (d + of_nat n - 1) (s + of_nat n - 1) n (mv d s n m)" by (simp add: mv_def)
  also have "\<dots> = fold (mv d s) (rev [0..<Suc n]) m" by (simp add: Suc)
  finally show ?case by (simp only: e)
qed simp

lemma upt_split:
  assumes "[0..<n] = pre @ i # post"
  shows "i < n" "set pre = {..<i}" "set post = {i<..<n}"
proof -
  have l: "length pre < n" using arg_cong [OF assms, of length] by simp
  then have i: "i = length pre" using arg_cong [OF assms, of "\<lambda>xs. xs ! length pre"] by simp
  have "pre = take i [0..<n]" "post = drop (Suc i) [0..<n]" using assms i by simp_all
  then have p: "pre = [0..<i]" "post = [Suc i..<n]" using l i by (simp_all add: take_upt)
  show "i < n" using l i by simp
  show "set pre = {..<i}" by (subst p(1)) auto
  show "set post = {i<..<n}" by (subst p(2)) auto
qed

text \<open>A sequence of byte moves that never reads a byte it has already overwritten moves the
  original bytes.\<close>

lemma move_bytes:
  assumes "inj_on (\<lambda>i. d + of_nat i :: u64) (set is)"
    and "\<And>pre i post j. is = pre @ i # post \<Longrightarrow> j \<in> set pre \<Longrightarrow> s + of_nat i \<noteq> (d + of_nat j :: u64)"
  shows "(\<forall>i \<in> set is. fold (mv d s) is m (d + of_nat i) = m (s + of_nat i)) \<and>
    (\<forall>a. (\<forall>i \<in> set is. a \<noteq> d + of_nat i) \<longrightarrow> fold (mv d s) is m a = m a)"
  using assms
proof (induction "is" rule: rev_induct)
  case (snoc k ks)
  let ?f = "fold (mv d s) ks m"
  have inj: "inj_on (\<lambda>i. d + of_nat i :: u64) (set ks)" using snoc.prems(1) by (rule inj_on_subset) auto
  have haz: "s + of_nat i \<noteq> d + of_nat j" if "ks = pre @ i # post" "j \<in> set pre" for pre i post j
    using snoc.prems(2) [of pre i "post @ [k]" j] that by simp
  have IH: "(\<forall>i \<in> set ks. ?f (d + of_nat i) = m (s + of_nat i)) \<and> (\<forall>a. (\<forall>i \<in> set ks. a \<noteq> d + of_nat i) \<longrightarrow> ?f a = m a)"
    by (rule snoc.IH [OF inj]) (rule haz)
  have read: "?f (s + of_nat k) = m (s + of_nat k)"
    using IH snoc.prems(2) [of ks k "[]"] by blast
  have ne: "d + of_nat i \<noteq> d + of_nat k" if "i \<in> set ks" "i \<noteq> k" for i
    using inj_onD [OF snoc.prems(1), of i k] that by auto
  have at: "fold (mv d s) (ks @ [k]) m a = (if a = d + of_nat k then m (s + of_nat k) else ?f a)" for a
    by (simp add: mv_def read)
  show ?case
  proof (intro conjI ballI allI impI)
    fix i assume "i \<in> set (ks @ [k])"
    then show "fold (mv d s) (ks @ [k]) m (d + of_nat i) = m (s + of_nat i)"
      using IH ne [of i] unfolding at by (cases "i = k") auto
  next
    fix a assume "\<forall>i \<in> set (ks @ [k]). a \<noteq> d + of_nat i"
    then show "fold (mv d s) (ks @ [k]) m a = m a" using IH unfolding at by auto
  qed
qed simp

lemma add_of_nat_inj: "inj_on (\<lambda>i. d + of_nat i :: u64) {0..<unat (n :: u64)}"
proof (rule inj_onI)
  fix i j assume "i \<in> {0..<unat n}" "j \<in> {0..<unat n}" "d + of_nat i = (d + of_nat j :: u64)"
  moreover from this have "i < 2 ^ 64" "j < 2 ^ 64" using unat_u64_less [of n] by auto
  ultimately show "i = j" by (metis add_left_cancel unat_of_nat_small)
qed

lemma block_moved:
  assumes mv: "(\<forall>i \<in> {0..<unat n}. m' (d + of_nat i) = m (s + of_nat i)) \<and>
    (\<forall>a. (\<forall>i \<in> {0..<unat n}. a \<noteq> d + of_nat i) \<longrightarrow> m' a = m a)"
  shows "m' a = (if a - d < (n :: u64) then m (s + (a - d)) else m a)"
proof (cases "a - d < n")
  case True
  then have "unat (a - d) \<in> {0..<unat n}" by (simp add: word_less_nat_alt)
  with mv have "m' (d + of_nat (unat (a - d))) = m (s + of_nat (unat (a - d)))" by blast
  with True show ?thesis by simp
next
  case False
  have "a \<noteq> d + of_nat i" if "i \<in> {0..<unat n}" for i
  proof
    assume "a = d + of_nat i"
    then have "a - d = of_nat i" by simp
    moreover have "unat (of_nat i :: u64) = i" using that unat_u64_less [of n] by (intro unat_of_nat_small) simp
    ultimately have "unat (a - d) < unat n" using that by simp
    with False show False by (simp add: word_less_nat_alt)
  qed
  with mv False show ?thesis by simp
qed

text \<open>The interval of \<open>n\<close> addresses from \<open>p\<close> does not wrap.\<close>

definition no_wrap :: "u64 \<Rightarrow> u64 \<Rightarrow> bool" where
  "no_wrap p n \<longleftrightarrow> unat p + unat n < 2 ^ 64"

lemma no_wrap_unat: "no_wrap p n \<Longrightarrow> i \<le> unat n \<Longrightarrow> unat (p + of_nat i) = unat p + i"
  by (simp add: no_wrap_def unat_plus_if' unat_of_nat_small)

lemma memmove_bytes:
  assumes d: "no_wrap d n" and s: "no_wrap s n"
  shows "memmove d s n m a = (if a - d < n then m (s + (a - d)) else m a)"
proof -
  have un: "unat (d + of_nat i) = unat d + i" "unat (s + of_nat i) = unat s + i" if "i \<le> unat n" for i
    using that no_wrap_unat d s by auto
  have sn: "unat (s + n) = unat s + unat n" using un(2) [of "unat n"] by simp
  show ?thesis
  proof (cases "d < s \<or> d \<ge> s + n")
    case True
    have "s + of_nat i \<noteq> d + of_nat j" if "[0..<unat n] = pre @ i # post" "j \<in> set pre" for pre i post j
    proof -
      have "j < i" "i < unat n" using upt_split [OF that(1)] that(2) by auto
      then have "unat (s + of_nat i) \<noteq> unat (d + of_nat j)"
        using True un [of i] un [of j] sn by (auto simp: word_less_nat_alt word_le_nat_alt)
      then show ?thesis by metis
    qed
    then have "fold (mv d s) [0..<unat n] m a = (if a - d < n then m (s + (a - d)) else m a)"
      using move_bytes [of d "[0..<unat n]" s m] add_of_nat_inj [of d n] by (intro block_moved) force
    then show ?thesis using True by (simp add: memmove_def rep_movsb_forward)
  next
    case False
    have "s + of_nat i \<noteq> d + of_nat j" if "rev [0..<unat n] = pre @ i # post" "j \<in> set pre" for pre i post j
    proof -
      have "[0..<unat n] = rev post @ i # rev pre" using arg_cong [OF that(1), of rev] by simp
      from upt_split(3) [OF this] that(2) have "i < j" "j < unat n" by auto
      then have "unat (s + of_nat i) \<noteq> unat (d + of_nat j)"
        using False un [of i] un [of j] by (auto simp: word_less_nat_alt word_le_nat_alt)
      then show ?thesis by metis
    qed
    then have "fold (mv d s) (rev [0..<unat n]) m a = (if a - d < n then m (s + (a - d)) else m a)"
      using move_bytes [of d "rev [0..<unat n]" s m] add_of_nat_inj [of d n] by (intro block_moved) force
    then show ?thesis using False rep_movsb_backward [of d "unat n" s m] by (simp add: memmove_def)
  qed
qed

lemma store_le_at:
  "k \<le> 8 \<Longrightarrow> store_le k p v m a = (if unat (a - p) < k then ucast (drop_bit (8 * unat (a - p)) v) else m a)"
  unfolding store_le_def by (subst fold_write_bytes) auto

lemma unat_sub_shift:
  assumes "k \<le> 8"
  shows "unat (a - (p + of_nat k) :: u64) = (if k \<le> unat (a - p) then unat (a - p) - k else 2 ^ 64 + unat (a - p) - k)"
proof -
  have "unat (of_nat k :: u64) = k" using assms by (intro unat_of_nat_small) simp
  moreover have "a - (p + of_nat k) = (a - p) - of_nat k" by simp
  ultimately show ?thesis by (simp only: unat_sub_if') (simp, linarith)
qed

lemma rep_stos_at:
  assumes "0 < k" "k \<le> 8" "k * n \<le> 2 ^ 64"
  shows "rep_stos k p v n m a =
    (if unat (a - p) < k * n then ucast (drop_bit (8 * (unat (a - p) mod k)) v) else m a)"
  using assms(3)
proof (induction n arbitrary: p m)
  case (Suc n)
  let ?i = "unat (a - p)"
  have "rep_stos k p v (Suc n) m a = (if unat (a - (p + of_nat k)) < k * n
      then ucast (drop_bit (8 * (unat (a - (p + of_nat k)) mod k)) v) else store_le k p v m a)"
    using Suc by simp
  also have "\<dots> = (if ?i < k * Suc n then ucast (drop_bit (8 * (?i mod k)) v) else m a)"
  proof (cases "k \<le> ?i")
    case True
    then have "unat (a - (p + of_nat k)) = ?i - k" using unat_sub_shift [OF assms(2)] by simp
    moreover have "?i - k < k * n \<longleftrightarrow> ?i < k * Suc n" using True by auto
    moreover have "(?i - k) mod k = ?i mod k" using True by (simp add: le_mod_geq)
    ultimately show ?thesis using True assms(2) by (simp add: store_le_at)
  next
    case False
    then have "unat (a - (p + of_nat k)) = 2 ^ 64 + ?i - k" using unat_sub_shift [OF assms(2)] by simp
    moreover have "\<not> 2 ^ 64 + ?i - k < k * n" using Suc.prems by simp
    moreover have "?i < k * Suc n" using False by simp
    ultimately show ?thesis using False assms(2) by (simp only: if_False if_True store_le_at) simp
  qed
  finally show ?case .
qed simp

lemma bit_replicate:
  assumes v: "\<And>k. bit (v :: u64) k \<longleftrightarrow> k < 8 * w \<and> bit c (k mod 8)" and w: "8 * w \<le> 32"
  shows "bit (v OR push_bit (8 * w) v) k \<longleftrightarrow> k < 8 * (2 * w) \<and> bit c (k mod 8)"
proof (cases "k < 8 * w")
  case True
  then show ?thesis using v by (auto simp: bit_simps)
next
  case False
  then have "8 * w \<le> k" by simp
  then obtain j where j: "k = 8 * w + j" by (metis le_iff_add)
  then have "k < 64 \<and> j < 8 * w \<longleftrightarrow> k < 8 * (2 * w)" using w by auto
  then show ?thesis using v j by (auto simp: bit_simps)
qed

lemma bytes_of_val8:
  assumes i: "i < 8" and v1: "v1 = (ucast (c :: u8) :: u64)" and v2: "v2 = v1 OR push_bit 8 v1"
    and v3: "v3 = v2 OR push_bit 16 v2"
  shows "(ucast (drop_bit (8 * i) (v3 OR push_bit 32 v3)) :: u8) = c"
proof (rule bit_word_eqI)
  fix n assume "n < LENGTH(8)"
  then have n: "n < 8" by simp
  have b1: "bit v1 k \<longleftrightarrow> k < 8 * 1 \<and> bit c (k mod 8)" for k
    using bit_imp_le_length [of c k] by (cases "k < 8") (auto simp: v1 bit_simps)
  have b2: "bit v2 k \<longleftrightarrow> k < 8 * 2 \<and> bit c (k mod 8)" for k
    using bit_replicate [of v1 1 c k] b1 by (simp add: v2)
  have b3: "bit v3 k \<longleftrightarrow> k < 8 * 4 \<and> bit c (k mod 8)" for k
    using bit_replicate [of v2 2 c k] b2 by (simp add: v3)
  have b4: "bit (v3 OR push_bit 32 v3) k \<longleftrightarrow> k < 8 * 8 \<and> bit c (k mod 8)" for k
    using bit_replicate [of v3 4 c k] b3 by simp
  have "8 * i + n < 8 * 8" "(8 * i + n) mod 8 = n" using n i by simp_all
  then show "bit (ucast (drop_bit (8 * i) (v3 OR push_bit 32 v3)) :: u8) n = bit c n"
    using n b4 [of "8 * i + n"] unfolding bit_unsigned_iff bit_drop_bit_eq comp_apply by simp
qed

lemma memset_at: "memset p c n m a = (if a - p < n then c else m a)"
proof -
  define v1 v2 v3 where "v1 = (ucast c :: u64)" and "v2 = v1 OR push_bit 8 v1" and "v3 = v2 OR push_bit 16 v2"
  define v where "v = v3 OR push_bit 32 v3"
  define q r i where "q = unat n div 8" and "r = unat n mod 8" and "i = unat (a - p)"
  have uq: "unat (drop_bit 3 n) = q" by (simp add: q_def drop_bit_eq_div unat_div_distrib)
  have "n AND 7 = take_bit 3 n" by (simp add: take_bit_eq_mask mask_eq_exp_minus_1)
  then have ur: "unat (n AND 7) = r" by (simp add: r_def take_bit_eq_mod unat_mod_distrib)
  have n: "unat n = 8 * q + r" "r < 8" by (simp_all add: q_def r_def)
  have lim: "8 * q + r < 2 ^ 64" using unat_u64_less [of n] n by simp
  have byte: "(ucast (drop_bit (8 * k) v) :: u8) = c" if "k < 8" for k
    unfolding v_def by (rule bytes_of_val8 [OF that v1_def v2_def v3_def])
  have first: "rep_stos 8 p v q m x = (if unat (x - p) < 8 * q then c else m x)" for x
    using rep_stos_at [of 8 q p v m x] lim byte [of "unat (x - p) mod 8"] by simp
  have off: "unat (a - (p + 8 * drop_bit 3 n)) = (if 8 * q \<le> i then i - 8 * q else 2 ^ 64 + i - 8 * q)"
  proof -
    have "unat (8 * drop_bit 3 n) = 8 * q" using uq lim by (simp add: unat_word_ariths)
    moreover have "a - (p + 8 * drop_bit 3 n) = (a - p) - 8 * drop_bit 3 n" by simp
    ultimately show ?thesis by (simp only: unat_sub_if' i_def) (simp, linarith)
  qed
  have "memset p c n m a = rep_stos 1 (p + 8 * drop_bit 3 n) v r (rep_stos 8 p v q m) a"
    by (simp add: memset_def Let_def uq ur v_def v3_def v2_def v1_def)
  also have "\<dots> = (if unat (a - (p + 8 * drop_bit 3 n)) < r then c else if i < 8 * q then c else m a)"
    using rep_stos_at [of 1 r "p + 8 * drop_bit 3 n" v "rep_stos 8 p v q m" a] n(2) byte [of 0] first i_def by simp
  also have "\<dots> = (if i < unat n then c else m a)"
    using n lim unfolding off by auto
  finally show ?thesis by (simp add: word_less_nat_alt i_def)
qed

section \<open>What the string operations do\<close>

definition cstr :: "bytes_at \<Rightarrow> u8 list \<Rightarrow> bool" where
  "cstr s xs \<longleftrightarrow> 0 \<notin> set xs \<and> (\<forall>i < length xs. s i = xs ! i) \<and> s (length xs) = 0"

lemma cstr_end: "cstr s xs \<Longrightarrow> s (length xs) = 0"
  by (simp add: cstr_def)

lemma cstr_at:
  assumes "cstr s (p @ x # xs)"
  shows "s (length p) = x" "x \<noteq> 0"
proof -
  have "s (length p) = (p @ x # xs) ! length p" using assms unfolding cstr_def by (metis length_append_singleton length_Cons
        add_Suc_right length_append less_add_Suc1)
  then show "s (length p) = x" by simp
  show "x \<noteq> 0" using assms by (auto simp: cstr_def)
qed

lemma strlen_from_spec: "cstr s (p @ xs) \<Longrightarrow> strlen_from (length p) s = Some (length p + length xs)"
proof (induction xs arbitrary: p)
  case Nil
  then show ?case using cstr_end [of s p] by (subst strlen_from.simps) simp
next
  case (Cons x xs)
  from Cons.IH [of "p @ [x]"] Cons.prems cstr_at [OF Cons.prems] show ?case by (subst strlen_from.simps) simp
qed

lemma uint_u8_pos: "(w :: u8) \<noteq> 0 \<Longrightarrow> 0 < uint w"
  using unat_gt_0 [of w] by (metis of_nat_0_less_iff of_nat_unat unsigned_0)

lemma strcmp_from_spec:
  "cstr a (p @ xs) \<Longrightarrow> cstr b (p @ ys) \<Longrightarrow>
   \<exists>r. strcmp_from (length p) a b = Some r \<and> (r = 0 \<longleftrightarrow> xs = ys) \<and> (r < 0 \<longleftrightarrow> ord_class.lexordp xs ys)"
proof (induction xs arbitrary: p ys)
  case Nil
  then have "a (length p) = 0" using cstr_end by fastforce
  moreover have "b (length p) = 0 \<longleftrightarrow> ys = []"
    using Nil(2) cstr_end [of b p] cstr_at [of b p] by (cases ys) auto
  ultimately show ?case
    by (cases ys; subst strcmp_from.simps) (use uint_u8_pos [of "b (length p)"] in auto)
next
  case (Cons x xs)
  note x = cstr_at [OF Cons.prems(1)]
  show ?case
  proof (cases ys)
    case Nil
    then have "b (length p) = 0" using Cons.prems(2) cstr_end by fastforce
    with x Nil show ?thesis by (subst strcmp_from.simps) (use uint_u8_pos [of x] in auto)
  next
    case (Cons y ys')
    note y = cstr_at [OF Cons.prems(2) [unfolded Cons]]
    show ?thesis
    proof (cases "x = y")
      case True
      with Cons.IH [of "p @ [x]" ys'] Cons.prems Cons x y show ?thesis by (subst strcmp_from.simps) simp
    next
      case False
      with x y Cons show ?thesis by (subst strcmp_from.simps) (auto simp: word_less_def word_uint_eq_iff)
    qed
  qed
qed

lemma str_equals_loop_spec:
  "cstr a (p @ xs) \<Longrightarrow> cstr b (q @ ys) \<Longrightarrow> length q = length p \<Longrightarrow>
   str_equals_loop f (length p) a b = Some (map f xs = map f ys)"
proof (induction xs arbitrary: p q ys)
  case Nil
  then have "a (length p) = 0" using cstr_end by fastforce
  moreover have "b (length p) = 0 \<longleftrightarrow> ys = []"
    using Nil(2,3) cstr_end [of b q] cstr_at [of b q] by (cases ys) auto
  ultimately show ?case by (subst str_equals_loop.simps) simp
next
  case (Cons x xs)
  note x = cstr_at [OF Cons.prems(1)]
  show ?case
  proof (cases ys)
    case Nil
    then have "b (length p) = 0" using Cons.prems(2,3) cstr_end by fastforce
    with x Nil show ?thesis by (subst str_equals_loop.simps) simp
  next
    case (Cons y ys')
    note y = cstr_at [OF Cons.prems(2) [unfolded Cons]]
    from Cons.IH [of "p @ [x]" "q @ [y]" ys'] Cons.prems Cons x y show ?thesis
      by (subst str_equals_loop.simps) simp
  qed
qed

lemma str_prefix_loop_spec:
  assumes f: "\<And>c. f c = f 0 \<Longrightarrow> c = 0"
  shows "cstr a (p @ xs) \<Longrightarrow> cstr b (q @ ys) \<Longrightarrow> length q = length p \<Longrightarrow>
    str_prefix_loop f (length p) a b = Some (take (length ys) (map f xs) = map f ys)"
proof (induction ys arbitrary: p q xs)
  case Nil
  then have "b (length p) = 0" using cstr_end by fastforce
  then show ?case by (subst str_prefix_loop.simps) simp
next
  case (Cons y ys)
  note y = cstr_at [OF Cons.prems(2)]
  show ?case
  proof (cases xs)
    case Nil
    then have "a (length p) = 0" using Cons.prems(1) cstr_end by fastforce
    moreover have "f 0 \<noteq> f y" using f [of y] y(2) by metis
    ultimately show ?thesis using y Nil Cons.prems(3) by (subst str_prefix_loop.simps) simp
  next
    case (Cons x xs')
    note x = cstr_at [OF Cons.prems(1) [unfolded Cons]]
    from Cons.IH [of "p @ [x]" xs' "q @ [y]"] Cons.prems Cons x y show ?thesis
      by (subst str_prefix_loop.simps) simp
  qed
qed

lemma to_lower_ascii_0: "to_lower_ascii c = to_lower_ascii 0 \<Longrightarrow> c = 0"
proof (rule ccontr)
  assume eq: "to_lower_ascii c = to_lower_ascii 0" and "c \<noteq> 0"
  then have c: "65 \<le> c" "c \<le> 90" "c + 32 = 0" by (auto simp: to_lower_ascii_def split: if_splits)
  have "unat c \<le> 90" using c(2) by (simp add: word_le_nat_alt)
  then have "unat (c + 32) = unat c + 32" by (simp add: unat_plus_if')
  with c(3) show False by simp
qed

text \<open>The copy loop copies as much of the string as fits.\<close>

lemma str_copy_loop_spec:
  "cstr src (p @ xs) \<Longrightarrow>
   str_copy_loop base (length p) src n dst =
     (let k = min (length xs) (nat (n - 1) - (base + length p))
      in (length p + k, \<lambda>j. if base + length p \<le> j \<and> j < base + length p + k then src (j - base) else dst j))"
proof (induction xs arbitrary: p dst)
  case Nil
  then show ?case using cstr_end [of src p] by (subst str_copy_loop.simps) (auto simp: fun_eq_iff)
next
  case (Cons x xs)
  note x = cstr_at [OF Cons.prems]
  show ?case
  proof (cases "int (base + length p) < n - 1")
    case True
    have "str_copy_loop base (length p) src n dst =
        str_copy_loop base (length (p @ [x])) src n (dst(base + length p := x))"
      using True x by (subst str_copy_loop.simps) simp
    also have "\<dots> = (let k = min (length xs) (nat (n - 1) - (base + length (p @ [x])))
      in (length (p @ [x]) + k, \<lambda>j. if base + length (p @ [x]) \<le> j \<and> j < base + length (p @ [x]) + k then src (j - base)
            else (dst(base + length p := x)) j))"
      using Cons.prems by (intro Cons.IH) simp
    finally show ?thesis using True x by (auto simp: Let_def min_def fun_eq_iff)
  next
    case False
    then show ?thesis by (subst str_copy_loop.simps) (auto simp: Let_def fun_eq_iff)
  qed
qed

lemma str_copy_at:
  assumes "cstr src xs" "0 < n"
  defines "k \<equiv> min (length xs) (nat (n - 1))"
  shows "str_copy dst src n j = (if j < k then xs ! j else if j = k then 0 else dst j)"
proof -
  have "str_copy_loop 0 0 src n dst = (k, \<lambda>j. if j < k then src j else dst j)"
    using str_copy_loop_spec [of src "[]" xs 0 n dst] assms(1) by (simp add: k_def Let_def fun_eq_iff)
  moreover have "src j = xs ! j" if "j < k" using that assms(1) by (simp add: cstr_def k_def)
  ultimately show ?thesis using assms(2) by (simp add: str_copy_def)
qed

lemma str_append_at:
  assumes src: "cstr src xs" and dst: "cstr dst ys" and fit: "int (length ys) < n"
  defines "k \<equiv> min (length xs) (nat (n - 1) - length ys)"
  shows "str_append dst src n j =
    (if length ys \<le> j \<and> j < length ys + k then xs ! (j - length ys) else if j = length ys + k then 0 else dst j)"
proof -
  have "find (\<lambda>i. dst i = 0) [0..<nat n] = Some (length ys)"
  proof -
    have "\<forall>i < length ys. dst i \<noteq> 0" using dst unfolding cstr_def by (metis nth_mem)
    moreover have "dst (length ys) = 0" by (rule cstr_end [OF dst])
    ultimately show ?thesis using fit by (auto simp: find_Some_iff intro!: exI [of _ "length ys"])
  qed
  moreover have "str_copy_loop (length ys) 0 src n dst =
      (k, \<lambda>j. if length ys \<le> j \<and> j < length ys + k then src (j - length ys) else dst j)"
    using str_copy_loop_spec [of src "[]" xs "length ys" n dst] src by (simp add: k_def Let_def)
  moreover have "src (j - length ys) = xs ! (j - length ys)" if "length ys \<le> j" "j < length ys + k"
    using that src by (auto simp: cstr_def k_def)
  moreover have "k \<le> nat (n - 1) - length ys" by (simp add: k_def)
  then have "int (length ys + k) < n" using fit by linarith
  ultimately show ?thesis by (simp add: str_append_def Let_def)
qed

text \<open>\<^verbatim>\<open>strcmp\<close> returns on terminated strings, with zero for equal strings and otherwise the
  sign of their lexicographic order by unsigned characters.\<close>

lemma strcmp_spec:
  assumes "cstr a xs" "cstr b ys"
  shows "\<exists>r. strcmp a b = Some r \<and> (r = 0 \<longleftrightarrow> xs = ys) \<and> (r < 0 \<longleftrightarrow> ord_class.lexordp xs ys)"
  using strcmp_from_spec [of a "[]" xs b ys] assms by (simp add: strcmp_def)

section \<open>Decimal digits\<close>

text \<open>The value of a list of digits, least significant first.\<close>

fun digits_value :: "nat list \<Rightarrow> nat" where
  "digits_value [] = 0"
| "digits_value (d # ds) = d + 10 * digits_value ds"

lemma digits_value_bound: "ds \<noteq> [] \<Longrightarrow> last ds \<noteq> 0 \<Longrightarrow> 10 ^ (length ds - 1) \<le> digits_value ds"
proof (induction ds)
  case (Cons d ds)
  then show ?case by (cases ds) (auto split: if_splits)
qed simp

lemma digit_loop_spec:
  "\<exists>ds. digit_loop v tmp = tmp @ map (\<lambda>d. 48 + of_nat d) ds \<and> (\<forall>d \<in> set ds. d < 10) \<and>
     digits_value ds = unat v \<and> (if v = 0 then ds = [] else ds \<noteq> [] \<and> last ds \<noteq> 0)"
proof (induction v tmp rule: digit_loop.induct)
  case (1 v tmp)
  show ?case
  proof (cases "v = 0")
    case True
    then show ?thesis by (subst digit_loop.simps) simp
  next
    case False
    define d where "d = unat v mod 10"
    have "unat (v mod 10) = d" by (simp add: d_def unat_mod_distrib)
    then have c: "(ucast (v mod 10) :: u8) = of_nat d" by (metis of_nat_unat)
    have dv: "unat (v div 10) = unat v div 10" by (simp add: unat_div_distrib)
    from "1.IH" [OF False] obtain ds where ds:
      "digit_loop (v div 10) (tmp @ [48 + ucast (v mod 10)]) = (tmp @ [48 + ucast (v mod 10)]) @ map (\<lambda>d. 48 + of_nat d) ds"
      "\<forall>d \<in> set ds. d < 10" "digits_value ds = unat (v div 10)" "if v div 10 = 0 then ds = [] else ds \<noteq> [] \<and> last ds \<noteq> 0" by blast
    have "ds = [] \<Longrightarrow> d \<noteq> 0"
      using ds(3) dv False by (auto simp: d_def unat_eq_0 [symmetric])
    then show ?thesis
      using False ds dv c
      by (intro exI [of _ "d # ds"], subst digit_loop.simps) (auto simp: d_def split: if_splits)
  qed
qed

lemma digit_loop_length:
  assumes "digit_loop v [] = map (\<lambda>d. 48 + of_nat d) ds" "digits_value ds = unat v"
    "if v = 0 then ds = [] else ds \<noteq> [] \<and> last ds \<noteq> 0"
  shows "length ds \<le> 10"
proof (rule ccontr)
  assume "\<not> length ds \<le> 10"
  then have "10 ^ 10 \<le> (10 :: nat) ^ (length ds - 1)" by (intro power_increasing) auto
  also have "\<dots> \<le> digits_value ds"
    using assms(3) \<open>\<not> length ds \<le> 10\<close> by (intro digits_value_bound) (auto split: if_splits)
  also have "\<dots> < 2 ^ 32" using unat_u32_less [of v] assms(2) by simp
  finally show False by simp
qed

lemma fold_set_range: "fold (\<lambda>j b. b(j := f j)) [0..<n] b i = (if i < n then f i else b i)"
  by (induction n) auto

text \<open>The string that \<^verbatim>\<open>uint_to_str\<close> writes when the buffer has room for it.\<close>

lemma uint_to_str_digits:
  assumes "11 \<le> n"
  shows "\<exists>ds. ds \<noteq> [] \<and> length ds \<le> 10 \<and> (\<forall>d \<in> set ds. d < 10) \<and> digits_value ds = unat v \<and>
     cstr (uint_to_str v buf n) (map (\<lambda>d. 48 + of_nat d) (rev ds))"
proof -
  obtain ds where ds: "(if v = 0 then [48] else digit_loop v []) = map (\<lambda>d. 48 + of_nat d) ds" "ds \<noteq> []"
    "length ds \<le> 10" "\<forall>d \<in> set ds. d < 10" "digits_value ds = unat v"
  proof (cases "v = 0")
    case True
    then show thesis by (intro that [of "[0]"]) auto
  next
    case False
    with digit_loop_spec [of v "[]"] digit_loop_length [of v] that show thesis by fastforce
  qed
  define f where "f d = (48 + of_nat d :: u8)" for d :: nat
  have f0: "f d \<noteq> 0" if "d < 10" for d
  proof -
    have "unat (of_nat d :: u8) = d" using that by (simp add: unat_of_nat take_bit_nat_eq_self)
    then have "unat (f d) = 48 + d" using that by (simp add: f_def unat_plus_if')
    then show ?thesis by (metis add_is_0 unat_0 zero_neq_numeral)
  qed
  have len: "min (length ds) (nat (n - 1)) = length ds" using ds(3) assms by simp
  have "uint_to_str v buf n j = (if j < length ds then f (ds ! (length ds - 1 - j)) else if j = length ds then 0 else buf j)" for j
    using assms ds(1,2) len by (simp add: uint_to_str_def Let_def fold_set_range f_def)
  moreover have "0 \<notin> f ` set ds" using f0 ds(4) by auto
  ultimately have "cstr (uint_to_str v buf n) (map f (rev ds))"
    by (simp add: cstr_def rev_nth)
  then show ?thesis using ds(2-5) unfolding f_def by blast
qed

section \<open>Properties\<close>

text \<open>C33: \<^verbatim>\<open>memmove\<close> copies the original content of the source, whether or not the two blocks
  overlap and in whichever direction, and changes nothing outside the destination.\<close>

theorem memmove_overlap_safe:
  assumes "no_wrap d n" "no_wrap s n"
  shows "memmove d s n m a = (if a - d < n then m (s + (a - d)) else m a)"
  using memmove_bytes [OF assms] .

theorem memmove_overlap_safe_witness:
  "memmove 0x1002 0x1000 3 (\<lambda>a. ucast a) 0x1004 = 2 \<and> memmove 0x1000 0x1002 3 (\<lambda>a. ucast a) 0x1000 = 2"
  using memmove_overlap_safe [of "0x1002" 3 "0x1000" "\<lambda>a. ucast a" "0x1004"]
    memmove_overlap_safe [of "0x1000" 3 "0x1002" "\<lambda>a. ucast a" "0x1000"]
  by (simp add: no_wrap_def)

text \<open>C34: \<^verbatim>\<open>memset\<close>, which fills eight bytes at a time and then the rest, sets exactly the \<open>n\<close> bytes
  of the block, for every length and alignment.\<close>

theorem memset_spec: "memset p c n m a = (if a - p < n then c else m a)"
  by (rule memset_at)

end
