(* ===== verification/Parser.thy ===== *)
theory Parser
  imports Kstring
begin

text \<open>
  The parser of the shell, \<^verbatim>\<open>userland/shell/parser.c\<close>: splitting a command line into tokens, with
  quotes and escapes, and reading a decimal number. A token is the list of the characters
  written to \<^verbatim>\<open>tokens[argc]\<close>, \<^verbatim>\<open>argc\<close> the number of tokens so far. The loops stop at the end of the
  string, so they are partial. The signed value of \<^verbatim>\<open>parser_parse_integer\<close> is kept in 32 bits.
\<close>

section \<open>The loops\<close>

definition is_blank :: "u8 \<Rightarrow> bool" where
  "is_blank c \<longleftrightarrow> c = 32 \<or> c = 9"

partial_function (option) skip_blanks :: "bytes_at \<Rightarrow> nat \<Rightarrow> nat option" where
  "skip_blanks text i = (if is_blank (text i) then skip_blanks text (Suc i) else Some i)"

definition skip_spaces :: "bytes_at \<Rightarrow> bytes_at option" where
  "skip_spaces text = map_option (\<lambda>i j. text (i + j)) (skip_blanks text 0)"

definition push_char :: "int \<Rightarrow> u8 \<Rightarrow> u8 list \<Rightarrow> u8 list" where
  "push_char token_max c tok = (if int (length tok) < token_max - 1 then tok @ [c] else tok)"

partial_function (option) token_loop :: "bytes_at \<Rightarrow> int \<Rightarrow> u8 \<Rightarrow> nat \<Rightarrow> u8 list \<Rightarrow> (nat \<times> u8 list) option" where
  "token_loop line token_max quote index tok =
     (if line index \<noteq> 0 then
        (let current = line index in
         if current = 92 \<and> line (index + 1) \<noteq> 0
         then token_loop line token_max quote (index + 2) (push_char token_max (line (index + 1)) tok)
         else if quote \<noteq> 0 \<and> current = quote then Some (index + 1, tok)
         else if quote = 0 \<and> is_blank current then Some (index, tok)
         else token_loop line token_max quote (index + 1) (push_char token_max current tok))
      else Some (index, tok))"

partial_function (option) parse_loop :: "bytes_at \<Rightarrow> int \<Rightarrow> int \<Rightarrow> nat \<Rightarrow> u8 list list \<Rightarrow> u8 list list option" where
  "parse_loop line max_args token_max index tokens =
     (if line index \<noteq> 0 then
        Option.bind (skip_blanks line index) (\<lambda>index.
          if line index = 0 then Some tokens
          else if int (length tokens) \<ge> max_args then Some tokens
          else
            let quote = (if line index = 34 \<or> line index = 39 then line index else 0);
                index = (if quote \<noteq> 0 then index + 1 else index)
            in Option.bind (token_loop line token_max quote index []) (\<lambda>(index, tok).
                 Option.bind (skip_blanks line index) (\<lambda>index.
                   parse_loop line max_args token_max index (tokens @ [tok]))))
      else Some tokens)"

definition parser_parse_line :: "bytes_at option \<Rightarrow> int \<Rightarrow> int \<Rightarrow> u8 list list option" where
  "parser_parse_line line max_args token_max =
     (case line of None \<Rightarrow> Some []
      | Some l \<Rightarrow> Option.bind (skip_spaces l) (\<lambda>l. parse_loop l max_args token_max 0 []))"

partial_function (option) integer_loop :: "bytes_at \<Rightarrow> nat \<Rightarrow> bool \<Rightarrow> u32 \<Rightarrow> (bool \<times> u32) option" where
  "integer_loop text index has_digit v =
     (if 48 \<le> text index \<and> text index \<le> 57
      then integer_loop text (Suc index) True (v * 10 + ucast (text index - 48))
      else Some (has_digit, v))"

definition parser_parse_integer :: "bytes_at option \<Rightarrow> int \<Rightarrow> int option" where
  "parser_parse_integer text fallback =
     (case text of None \<Rightarrow> Some fallback
      | Some t \<Rightarrow>
          Option.bind (skip_blanks t 0) (\<lambda>index.
            map_option (\<lambda>(has_digit, v). if \<not> has_digit \<or> sint v \<le> 0 then fallback else sint v)
              (integer_loop t index False 0)))"

section \<open>The loops on terminated strings\<close>

text \<open>The same steps on the list of the remaining characters.\<close>

fun lex_token :: "int \<Rightarrow> u8 \<Rightarrow> u8 list \<Rightarrow> u8 list \<Rightarrow> u8 list \<times> u8 list" where
  "lex_token m q tok [] = (tok, [])"
| "lex_token m q tok (c # cs) =
     (if c = 92 \<and> cs \<noteq> [] then lex_token m q (push_char m (hd cs) tok) (tl cs)
      else if q \<noteq> 0 \<and> c = q then (tok, cs)
      else if q = 0 \<and> is_blank c then (tok, c # cs)
      else lex_token m q (push_char m c tok) cs)"

declare lex_token.simps(2) [simp del]

lemma lex_token_length: "length (snd (lex_token m q tok cs)) \<le> length cs"
proof (induction m q tok cs rule: lex_token.induct)
  case (2 m q tok c cs)
  consider "c = 92 \<and> cs \<noteq> []" | "\<not> (c = 92 \<and> cs \<noteq> [])" "q \<noteq> 0 \<and> c = q"
    | "\<not> (c = 92 \<and> cs \<noteq> [])" "\<not> (q \<noteq> 0 \<and> c = q)" "q = 0 \<and> is_blank c"
    | "\<not> (c = 92 \<and> cs \<noteq> [])" "\<not> (q \<noteq> 0 \<and> c = q)" "\<not> (q = 0 \<and> is_blank c)" by blast
  then show ?case
    unfolding lex_token.simps(2) [of m q tok c cs] using 2 by cases auto
qed simp

lemma lex_token_progress:
  assumes "q = 0" "\<not> is_blank c"
  shows "length (snd (lex_token m q tok (c # cs))) < length (c # cs)"
proof -
  have "length (snd (lex_token m q t (tl cs))) \<le> length cs" for t
    using lex_token_length [of m q t "tl cs"] by simp
  then show ?thesis
    using assms lex_token_length [of m q "push_char m c tok" cs]
    unfolding lex_token.simps(2) [of m q tok c cs] by (simp add: le_imp_less_Suc)
qed

function lex_line :: "int \<Rightarrow> int \<Rightarrow> u8 list \<Rightarrow> u8 list list \<Rightarrow> u8 list list" where
  "lex_line n m cs toks =
     (let cs = dropWhile is_blank cs in
      if cs = [] \<or> int (length toks) \<ge> n then toks
      else
        let q = (if hd cs = 34 \<or> hd cs = 39 then hd cs else 0);
            (tok, rest) = lex_token m q [] (if q \<noteq> 0 then tl cs else cs)
        in lex_line n m rest (toks @ [tok]))"
  by pat_completeness auto
termination
proof (relation "measure (\<lambda>(n, m, cs, toks). length cs)")
  fix n m :: int and cs ds :: "u8 list" and toks :: "u8 list list" and q r tok rest
  assume ds: "ds = dropWhile is_blank cs" "\<not> (ds = [] \<or> n \<le> int (length toks))"
    and q: "q = (if hd ds = 34 \<or> hd ds = 39 then hd ds else 0)"
    and r: "r = lex_token m q [] (if q \<noteq> 0 then tl ds else ds)" "(tok, rest) = r"
  have "length ds \<le> length cs" by (simp add: ds(1) length_dropWhile_le)
  moreover have "length rest < length ds"
  proof (cases "q = 0")
    case True
    have "ds = hd ds # tl ds" "\<not> is_blank (hd ds)" using ds hd_dropWhile [of is_blank cs] by auto
    then show ?thesis using lex_token_progress [OF True, of "hd ds" m "[]" "tl ds"] r True by (metis snd_conv)
  next
    case False
    have "length rest \<le> length (tl ds)" using lex_token_length [of m q "[]" "tl ds"] r False by (metis snd_conv)
    moreover have "length (tl ds) < length ds" using ds(2) by simp
    ultimately show ?thesis by simp
  qed
  ultimately show "((n, m, rest, toks @ [tok]), n, m, cs, toks) \<in> measure (\<lambda>(n, m, cs, toks). length cs)" by simp
qed simp

declare lex_line.simps [simp del]

text \<open>What is left of the string from an index on.\<close>

primrec str_at :: "bytes_at \<Rightarrow> nat \<Rightarrow> u8 list \<Rightarrow> bool" where
  "str_at s i [] \<longleftrightarrow> s i = 0"
| "str_at s i (c # cs) \<longleftrightarrow> s i = c \<and> c \<noteq> 0 \<and> str_at s (Suc i) cs"

lemma cstr_str_at: "cstr s (p @ cs) \<Longrightarrow> str_at s (length p) cs"
proof (induction cs arbitrary: p)
  case Nil
  then show ?case using cstr_end [of s p] by simp
next
  case (Cons c cs)
  then show ?case using cstr_at [OF Cons.prems] Cons.IH [of "p @ [c]"] by simp
qed

lemma skip_blanks_spec:
  "str_at s i cs \<Longrightarrow> \<exists>j. skip_blanks s i = Some j \<and> i \<le> j \<and> str_at s j (dropWhile is_blank cs)"
proof (induction cs arbitrary: i)
  case Nil
  then show ?case by (subst skip_blanks.simps) (simp add: is_blank_def)
next
  case (Cons c cs)
  then show ?case using Cons.IH [of "Suc i"] by (subst skip_blanks.simps) (auto intro: Suc_leD)
qed

lemma token_loop_spec:
  "str_at s i cs \<Longrightarrow> \<exists>j. token_loop s m q i tok = Some (j, fst (lex_token m q tok cs)) \<and>
     str_at s j (snd (lex_token m q tok cs))"
proof (induction m q tok cs arbitrary: i rule: lex_token.induct)
  case (1 m q tok)
  then show ?case by (subst token_loop.simps) simp
next
  case (2 m q tok c cs)
  have c: "s i = c" "c \<noteq> 0" "str_at s (Suc i) cs" using "2.prems" by auto
  have nxt: "s (Suc i) \<noteq> 0 \<longleftrightarrow> cs \<noteq> []" "cs \<noteq> [] \<Longrightarrow> s (Suc i) = hd cs \<and> str_at s (i + 2) (tl cs)"
    using c(3) by (cases cs; simp)+
  consider (esc) "c = 92 \<and> cs \<noteq> []" | (quote) "\<not> (c = 92 \<and> cs \<noteq> [])" "q \<noteq> 0 \<and> c = q"
    | (blank) "\<not> (c = 92 \<and> cs \<noteq> [])" "\<not> (q \<noteq> 0 \<and> c = q)" "q = 0 \<and> is_blank c"
    | (char) "\<not> (c = 92 \<and> cs \<noteq> [])" "\<not> (q \<noteq> 0 \<and> c = q)" "\<not> (q = 0 \<and> is_blank c)" by blast
  then show ?case
  proof cases
    case esc
    with "2.IH"(1) [OF esc, of "i + 2"] nxt c show ?thesis
      unfolding lex_token.simps(2) [of m q tok c cs] by (subst token_loop.simps) simp
  next
    case quote
    with nxt c show ?thesis unfolding lex_token.simps(2) [of m q tok c cs] by (subst token_loop.simps) auto
  next
    case blank
    with nxt c show ?thesis unfolding lex_token.simps(2) [of m q tok c cs] by (subst token_loop.simps) auto
  next
    case char
    with "2.IH"(2) [OF char, of "i + 1"] nxt c show ?thesis
      unfolding lex_token.simps(2) [of m q tok c cs] by (subst token_loop.simps) auto
  qed
qed

lemma parse_loop_skip:
  assumes "str_at s l cs" "skip_blanks s l = Some k"
  shows "parse_loop s n m l toks = parse_loop s n m k toks"
proof -
  obtain j where "skip_blanks s l = Some j" "str_at s j (dropWhile is_blank cs)"
    using skip_blanks_spec [OF assms(1)] by blast
  with assms(2) have k: "str_at s k (dropWhile is_blank cs)" by simp
  have nb: "\<not> is_blank (s k)"
  proof (cases "dropWhile is_blank cs")
    case Nil
    then have "s k = 0" using k by (simp only: str_at.simps)
    then show ?thesis by (simp add: is_blank_def)
  next
    case (Cons c es)
    then show ?thesis using k hd_dropWhile [of is_blank cs] by simp
  qed
  then have kk: "skip_blanks s k = Some k" by (subst skip_blanks.simps) simp
  show ?thesis
  proof (cases "s l = 0")
    case True
    then have "skip_blanks s l = Some l" by (subst skip_blanks.simps) (simp add: is_blank_def)
    then show ?thesis using assms(2) by simp
  next
    case False
    then show ?thesis
      using assms(2) kk unfolding parse_loop.simps [of s n m l toks] parse_loop.simps [of s n m k toks] by simp
  qed
qed

lemma parse_loop_spec: "str_at s i cs \<Longrightarrow> parse_loop s n m i toks = Some (lex_line n m cs toks)"
proof (induction n m cs toks arbitrary: i rule: lex_line.induct)
  case (1 n m cs toks)
  define ds where "ds = dropWhile is_blank cs"
  define q where "q = (if hd ds = 34 \<or> hd ds = 39 then hd ds else 0)"
  obtain j where j: "skip_blanks s i = Some j" "str_at s j ds"
    using skip_blanks_spec [OF "1.prems"] unfolding ds_def by blast
  have i: "s i = 0 \<Longrightarrow> ds = []" using "1.prems" by (cases cs) (simp_all add: ds_def)
  show ?case
  proof (cases "ds = [] \<or> int (length toks) \<ge> n")
    case True
    have "s j = 0 \<longleftrightarrow> ds = []" using j(2) by (cases ds) simp_all
    then show ?thesis
      using j(1) True i unfolding parse_loop.simps [of s n m i toks] lex_line.simps [of n m cs toks] ds_def [symmetric]
      by auto
  next
    case False
    then have d: "s j = hd ds" "hd ds \<noteq> 0" "str_at s (Suc j) (tl ds)" using j(2) by (cases ds; simp)+
    define es where "es = (if q \<noteq> 0 then tl ds else ds)"
    define p where "p = (if q \<noteq> 0 then j + 1 else j)"
    have qe: "(if s j = 34 \<or> s j = 39 then s j else 0) = q" using d(1) by (simp add: q_def)
    define tok rest where "tok = fst (lex_token m q [] es)" and "rest = snd (lex_token m q [] es)"
    have "str_at s p es" using d(3) j(2) by (simp add: p_def es_def)
    then obtain l where l: "token_loop s m q p [] = Some (l, tok)" "str_at s l rest"
      using token_loop_spec unfolding tok_def rest_def by blast
    obtain k where k: "skip_blanks s l = Some k" using skip_blanks_spec [OF l(2)] by blast
    have "parse_loop s n m i toks = parse_loop s n m k (toks @ [tok])"
      unfolding parse_loop.simps [of s n m i toks] j(1) Option.bind_lunit Let_def qe p_def [symmetric] l(1)
      using d(1,2) False k i by auto
    also have "\<dots> = parse_loop s n m l (toks @ [tok])"
      by (rule parse_loop_skip [OF l(2) k, symmetric])
    also have "\<dots> = Some (lex_line n m rest (toks @ [tok]))"
      by (rule "1.IH" [OF ds_def False q_def _ _ l(2)]) (simp_all add: es_def [symmetric] tok_def rest_def)
    also have "lex_line n m rest (toks @ [tok]) = lex_line n m cs toks"
      using False unfolding lex_line.simps [of n m cs toks] ds_def [symmetric]
      by (simp add: Let_def split_beta q_def [symmetric] es_def [symmetric] tok_def rest_def)
    finally show ?thesis .
  qed
qed

lemma parse_line_spec:
  assumes "cstr line cs"
  shows "parser_parse_line (Some line) n m = Some (lex_line n m (dropWhile is_blank cs) [])"
proof -
  obtain j where j: "skip_blanks line 0 = Some j" "str_at line j (dropWhile is_blank cs)"
    using skip_blanks_spec [of line 0 cs] cstr_str_at [of line "[]" cs] assms by auto
  have "str_at (\<lambda>k. line (j + k)) i es" if "str_at line (j + i) es" for i es
    using that by (induction es arbitrary: i) auto
  from this [of 0] j have "str_at (\<lambda>k. line (j + k)) 0 (dropWhile is_blank cs)" by simp
  from parse_loop_spec [OF this] j(1) show ?thesis by (simp add: parser_parse_line_def skip_spaces_def)
qed

section \<open>Properties\<close>

lemma push_char_length: "int (length tok) \<le> max 0 (m - 1) \<Longrightarrow> int (length (push_char m c tok)) \<le> max 0 (m - 1)"
  by (auto simp: push_char_def)

lemma lex_token_bound:
  "int (length tok) \<le> max 0 (m - 1) \<Longrightarrow> int (length (fst (lex_token m q tok cs))) \<le> max 0 (m - 1)"
proof (induction m q tok cs rule: lex_token.induct)
  case (2 m q tok c cs)
  show ?case
    using "2.IH"(1) [OF _ push_char_length [OF "2.prems"]] "2.IH"(2) [OF _ _ _ push_char_length [OF "2.prems"]] "2.prems"
    unfolding lex_token.simps(2) [of m q tok c cs] by auto
qed simp

lemma lex_line_bound:
  assumes "int (length toks) \<le> max 0 n" "\<forall>t \<in> set toks. int (length t) \<le> max 0 (m - 1)"
  shows "int (length (lex_line n m cs toks)) \<le> max 0 n \<and> (\<forall>t \<in> set (lex_line n m cs toks). int (length t) \<le> max 0 (m - 1))"
  using assms
proof (induction n m cs toks rule: lex_line.induct)
  case (1 n m cs toks)
  define ds where "ds = dropWhile is_blank cs"
  define q where "q = (if hd ds = 34 \<or> hd ds = 39 then hd ds else 0)"
  define es where "es = (if q \<noteq> 0 then tl ds else ds)"
  define tok rest where "tok = fst (lex_token m q [] es)" and "rest = snd (lex_token m q [] es)"
  show ?case
  proof (cases "ds = [] \<or> int (length toks) \<ge> n")
    case True
    then show ?thesis using "1.prems" unfolding lex_line.simps [of n m cs toks] ds_def [symmetric] by auto
  next
    case False
    have "lex_line n m cs toks = lex_line n m rest (toks @ [tok])"
      using False unfolding lex_line.simps [of n m cs toks] ds_def [symmetric]
      by (simp add: Let_def split_beta q_def [symmetric] es_def [symmetric] tok_def rest_def)
    moreover have "int (length tok) \<le> max 0 (m - 1)" unfolding tok_def by (rule lex_token_bound) simp
    then have "\<forall>t \<in> set (toks @ [tok]). int (length t) \<le> max 0 (m - 1)" using "1.prems"(2) by simp
    moreover have "int (length (toks @ [tok])) \<le> max 0 n" using False by simp
    ultimately show ?thesis
      using "1.IH" [OF ds_def False q_def, of "(tok, rest)" tok rest] by (simp add: es_def [symmetric] tok_def rest_def)
  qed
qed

text \<open>C37: the parser returns on every terminated line; it stores at most \<^verbatim>\<open>max_args\<close> tokens, and each
  token with its terminator fits into \<^verbatim>\<open>token_max\<close> characters, so nothing is written outside the
  arrays of the caller.\<close>

theorem parser_parse_line_total:
  assumes "cstr line cs" "0 \<le> n" "1 \<le> m"
  shows "\<exists>toks. parser_parse_line (Some line) n m = Some toks \<and> int (length toks) \<le> n \<and>
     list_all (\<lambda>t. int (length t) < m) toks"
  using parse_line_spec [OF assms(1), of n m] lex_line_bound [of "[]" n m "dropWhile is_blank cs"] assms(2,3)
  by (auto simp: list_all_iff)

theorem parser_parse_line_total_witness:
  "\<exists>toks. parser_parse_line (Some (nth [108, 115, 32, 97, 0])) 16 64 = Some toks \<and> int (length toks) \<le> 16 \<and>
     list_all (\<lambda>t. int (length t) < 64) toks"
  by (rule parser_parse_line_total [of _ "[108, 115, 32, 97]"]) (auto simp: cstr_def less_Suc_eq)

text \<open>A word with every character escaped.\<close>

definition escape_word :: "u8 list \<Rightarrow> u8 list" where
  "escape_word w = concat (map (\<lambda>c. [92, c]) w)"

lemma lex_escaped:
  "int (length tok + length w) < m \<Longrightarrow> lex_token m 0 tok (escape_word w @ 32 # rest) = (tok @ w, 32 # rest)"
proof (induction w arbitrary: tok)
  case Nil
  then show ?case by (simp add: escape_word_def lex_token.simps(2) is_blank_def)
next
  case (Cons c w)
  then have "push_char m c tok = tok @ [c]" by (simp add: push_char_def)
  with Cons show ?case by (simp add: escape_word_def lex_token.simps(2) [of m 0 tok 92])
qed

lemma lex_words:
  assumes "int (length toks + length ws) \<le> n" "\<forall>w \<in> set ws. w \<noteq> [] \<and> int (length w) < m" "\<forall>c \<in> set pre. is_blank c"
  shows "lex_line n m (pre @ concat (map (\<lambda>w. escape_word w @ [32]) ws)) toks = toks @ ws"
  using assms
proof (induction ws arbitrary: toks pre)
  case Nil
  then show ?case by (subst lex_line.simps) simp
next
  case (Cons w ws)
  define rest where "rest = concat (map (\<lambda>w. escape_word w @ [32]) ws)"
  obtain c cs where w: "w = c # cs" using Cons.prems(2) by (cases w) auto
  have drop: "dropWhile is_blank (pre @ escape_word w @ 32 # rest) = escape_word w @ 32 # rest"
    using Cons.prems(3) by (simp add: w escape_word_def is_blank_def dropWhile_append2)
  have "hd (escape_word w @ 32 # rest) = 92" "escape_word w @ 32 # rest \<noteq> []" by (simp_all add: w escape_word_def)
  then have "lex_line n m (pre @ escape_word w @ 32 # rest) toks = lex_line n m (32 # rest) (toks @ [w])"
    using Cons.prems(1,2) lex_escaped [of "[]" w m rest] unfolding lex_line.simps [of n m "pre @ escape_word w @ 32 # rest"] drop
    by (simp add: Let_def)
  also have "\<dots> = toks @ w # ws"
    using Cons.IH [of "toks @ [w]" "[32]"] Cons.prems by (simp add: rest_def is_blank_def)
  finally show ?case by (simp add: rest_def)
qed

text \<open>C38: escaping and parsing are inverse. A line made of words in which every character is escaped
  is parsed into exactly these words, whatever characters they contain.\<close>

theorem parser_escape_round_trip:
  assumes "cstr line (concat (map (\<lambda>w. escape_word w @ [32]) ws))"
    "int (length ws) \<le> n" "list_all (\<lambda>w. w \<noteq> [] \<and> int (length w) < m) ws"
  shows "parser_parse_line (Some line) n m = Some ws"
proof -
  have "dropWhile is_blank (concat (map (\<lambda>w. escape_word w @ [32]) ws)) = concat (map (\<lambda>w. escape_word w @ [32]) ws)"
  proof (cases ws)
    case (Cons w us)
    then obtain c cs where "w = c # cs" using assms(3) by (cases w) auto
    then show ?thesis using Cons by (simp add: escape_word_def is_blank_def)
  qed simp
  then show ?thesis
    using parse_line_spec [OF assms(1)] lex_words [of "[]" ws n m "[]"] assms(2,3) by (simp add: list_all_iff)
qed

theorem parser_escape_round_trip_witness:
  "parser_parse_line (Some (nth [92, 32, 92, 34, 32, 92, 97, 32, 0])) 16 64 = Some [[32, 34], [97]]"
  by (rule parser_escape_round_trip) (auto simp: cstr_def escape_word_def less_Suc_eq)

section \<open>Numbers\<close>

lemma integer_loop_spec:
  "str_at s i (map (\<lambda>d. 48 + of_nat d) ds) \<Longrightarrow> \<forall>d \<in> set ds. d < 10 \<Longrightarrow>
   integer_loop s i h v = Some (h \<or> ds \<noteq> [], fold (\<lambda>d v. v * 10 + of_nat d) ds v)"
proof (induction ds arbitrary: i h v)
  case Nil
  then show ?case by (subst integer_loop.simps) simp
next
  case (Cons d ds)
  have d: "unat (of_nat d :: u8) = d" "d < 10" using Cons.prems(2) by (auto simp: unat_of_nat take_bit_nat_eq_self)
  then have "unat (s i) = 48 + d" using Cons.prems(1) by (auto simp: unat_plus_if')
  then have "48 \<le> s i" "s i \<le> 57" using d(2) by (simp_all add: word_le_nat_alt)
  moreover have "s i - 48 = of_nat d" using Cons.prems(1) by auto
  moreover have "(ucast (of_nat d :: u8) :: u32) = of_nat d" using d(1) by (metis of_nat_unat)
  ultimately show ?case using Cons by (subst integer_loop.simps) simp
qed

lemma digits_value_fold: "fold (\<lambda>d v. v * 10 + of_nat d) (rev ds) (0 :: u32) = of_nat (digits_value ds)"
  by (induction ds) (simp_all add: mult.commute add.commute)

text \<open>Printing a number and reading it back gives the number, for every positive number that
  fits into a signed 32-bit integer.\<close>

lemma parse_integer_round_trip:
  assumes "0 < unat v" "unat v < 2 ^ 31" "11 \<le> n"
  shows "parser_parse_integer (Some (uint_to_str v buf n)) fallback = Some (int (unat v))"
proof -
  let ?t = "uint_to_str v buf n"
  obtain ds where ds: "ds \<noteq> []" "\<forall>d \<in> set ds. d < 10" "digits_value ds = unat v"
      "cstr ?t (map (\<lambda>d. 48 + of_nat d) (rev ds))"
    using uint_to_str_digits [OF assms(3)] by blast
  have at: "str_at ?t 0 (map (\<lambda>d. 48 + of_nat d) (rev ds))" using cstr_str_at [of ?t "[]"] ds(4) by simp
  from integer_loop_spec [OF this] ds(1-3)
  have il: "integer_loop ?t 0 False 0 = Some (True, v)" by (simp add: digits_value_fold)
  then have "48 \<le> ?t 0" using ds(1) by (subst (asm) integer_loop.simps) (auto split: if_splits)
  then have "skip_blanks ?t 0 = Some 0"
    by (subst skip_blanks.simps) (auto simp: is_blank_def word_le_nat_alt)
  moreover have e: "sint v = int (unat v)" using assms(2) by (intro sint_u32_small) simp
  moreover have "\<not> sint v \<le> 0" using assms(1) unfolding e by linarith
  ultimately show ?thesis using il unfolding e [symmetric] by (simp add: parser_parse_integer_def)
qed

end
