(* ===== verification/Net_Base.thy ===== *)
theory Net_Base
  imports Kstring
begin

text \<open>
  The bottom of the network stack: byte order (\<^verbatim>\<open>include/net/endian.h\<close>), the table of
  interfaces (\<^verbatim>\<open>net/netif.c\<close>), sending a frame (\<^verbatim>\<open>net/ethernet.c\<close>) and the address resolution
  protocol (\<^verbatim>\<open>net/arp.c\<close>). A pointer to an interface is its index in the table. A received
  packet is a pointer to bytes and a length; a packet to send is built as a list of bytes. The
  driver behind an interface is its \<^verbatim>\<open>send\<close> function, which gives a code; the frames handed to it
  are recorded in \<open>tx\<close>. The clock is the field \<open>ticks\<close>. Addresses are kept in network byte order
  and the machine is little-endian, as in the source.
\<close>

section \<open>Byte order\<close>

definition htons :: "u16 \<Rightarrow> u16" where
  "htons h = drop_bit 8 h OR push_bit 8 h"

definition ntohs :: "u16 \<Rightarrow> u16" where
  "ntohs n = htons n"

definition htonl :: "u32 \<Rightarrow> u32" where
  "htonl h = (drop_bit 24 (h AND 0xFF000000) OR drop_bit 8 (h AND 0x00FF0000)) OR
     push_bit 8 (h AND 0x0000FF00) OR push_bit 24 (h AND 0x000000FF)"

definition ntohl :: "u32 \<Rightarrow> u32" where
  "ntohl n = htonl n"

text \<open>Fields of packed structures: little-endian loads and stores.\<close>

definition ld16 :: "bytes_at \<Rightarrow> nat \<Rightarrow> u16" where
  "ld16 d i = ucast (d i) OR push_bit 8 (ucast (d (i + 1)))"

definition ld32 :: "bytes_at \<Rightarrow> nat \<Rightarrow> u32" where
  "ld32 d i = ucast (ld16 d i) OR push_bit 16 (ucast (ld16 d (i + 2)))"

definition st16 :: "u16 \<Rightarrow> u8 list" where
  "st16 v = [ucast v, ucast (drop_bit 8 v)]"

definition st32 :: "u32 \<Rightarrow> u8 list" where
  "st32 v = [ucast v, ucast (drop_bit 8 v), ucast (drop_bit 16 v), ucast (drop_bit 24 v)]"

section \<open>Interfaces\<close>

definition NETIF_NAME_MAX :: int where "NETIF_NAME_MAX = 8"
definition NETIF_MAX :: nat where "NETIF_MAX = 4"
definition ETH_HDR_LEN :: u16 where "ETH_HDR_LEN = 14"
definition ETH_MTU :: u16 where "ETH_MTU = 1500"
definition ETHERTYPE_IPV4 :: u16 where "ETHERTYPE_IPV4 = 0x0800"
definition ETHERTYPE_ARP :: u16 where "ETHERTYPE_ARP = 0x0806"
definition ARP_HW_ETHERNET :: u16 where "ARP_HW_ETHERNET = 1"
definition ARP_OP_REQUEST :: u16 where "ARP_OP_REQUEST = 1"
definition ARP_OP_REPLY :: u16 where "ARP_OP_REPLY = 2"
definition ARP_CACHE_SIZE :: nat where "ARP_CACHE_SIZE = 32"
definition ETH_BROADCAST :: "u8 list" where "ETH_BROADCAST = [0xFF, 0xFF, 0xFF, 0xFF, 0xFF, 0xFF]"

record netif =
  nif_name :: "nat \<Rightarrow> u8"
  nif_mac :: "u8 list"
  ip_addr :: u32
  netmask :: u32
  gateway :: u32
  dns_server :: u32
  nif_up :: bool
  nif_send :: "(u8 list \<Rightarrow> int) option"

record arp_entry =
  ae_ip :: u32
  ae_mac :: "u8 list"
  ae_timestamp :: u32
  ae_valid :: bool

record net_st =
  ticks :: u32
  interfaces :: "netif list"
  iface_count :: nat
  default_iface :: "nat option"
  arp_cache :: "arp_entry list"
  tx :: "(nat \<times> u8 list) list"

definition zero_netif :: netif where
  "zero_netif = \<lparr>nif_name = (\<lambda>_. 0), nif_mac = replicate 6 0, ip_addr = 0, netmask = 0, gateway = 0, dns_server = 0,
     nif_up = False, nif_send = None\<rparr>"

definition zero_arp_entry :: arp_entry where
  "zero_arp_entry = \<lparr>ae_ip = 0, ae_mac = replicate 6 0, ae_timestamp = 0, ae_valid = False\<rparr>"

definition netif_init :: "'a net_st_scheme \<Rightarrow> 'a net_st_scheme" where
  "netif_init s = s\<lparr>interfaces := replicate NETIF_MAX zero_netif, iface_count := 0, default_iface := None\<rparr>"

definition netif_register :: "bytes_at \<Rightarrow> u8 list \<Rightarrow> (u8 list \<Rightarrow> int) option \<Rightarrow> 'a net_st_scheme \<Rightarrow>
    nat option \<times> 'a net_st_scheme" where
  "netif_register name mac send_fn s =
     (if iface_count s \<ge> NETIF_MAX then (None, s)
      else
        let iface = iface_count s;
            (i, nm) = str_copy_loop 0 0 name NETIF_NAME_MAX (nif_name zero_netif);
            n = zero_netif\<lparr>nif_name := nm(i := 0), nif_mac := take 6 mac, nif_send := send_fn, nif_up := True\<rparr>
        in (Some iface, s\<lparr>interfaces := (interfaces s)[iface := n], iface_count := iface_count s + 1,
              default_iface := (if default_iface s = None then Some iface else default_iface s)\<rparr>))"

definition netif_get_default :: "'a net_st_scheme \<Rightarrow> nat option" where
  "netif_get_default s = default_iface s"

fun netif_find_from :: "netif list \<Rightarrow> nat \<Rightarrow> bytes_at \<Rightarrow> nat option option" where
  "netif_find_from [] i name = Some None"
| "netif_find_from (n # ns) i name =
     Option.bind (strcmp (nif_name n) name) (\<lambda>c. if c = 0 then Some (Some i) else netif_find_from ns (Suc i) name)"

definition netif_find :: "bytes_at \<Rightarrow> 'a net_st_scheme \<Rightarrow> nat option option" where
  "netif_find name s = netif_find_from (take (iface_count s) (interfaces s)) 0 name"

definition netif_count :: "'a net_st_scheme \<Rightarrow> nat" where
  "netif_count s = iface_count s"

definition netif_get :: "int \<Rightarrow> 'a net_st_scheme \<Rightarrow> nat option" where
  "netif_get index s = (if index < 0 \<or> index \<ge> int (iface_count s) then None else Some (nat index))"

definition netif_set_addr :: "nat option \<Rightarrow> u32 \<Rightarrow> u32 \<Rightarrow> u32 \<Rightarrow> 'a net_st_scheme \<Rightarrow> 'a net_st_scheme" where
  "netif_set_addr iface ip msk gw s =
     (case iface of None \<Rightarrow> s
      | Some i \<Rightarrow> s\<lparr>interfaces := (interfaces s)[i := (interfaces s ! i)\<lparr>ip_addr := ip, netmask := msk, gateway := gw\<rparr>]\<rparr>)"

definition eth_send :: "nat option \<Rightarrow> u8 list \<Rightarrow> u16 \<Rightarrow> bytes_at \<Rightarrow> u16 \<Rightarrow> 'a net_st_scheme \<Rightarrow> int \<times> 'a net_st_scheme" where
  "eth_send iface dst_mac ethertype payload payload_len s =
     (case iface of None \<Rightarrow> (-1, s)
      | Some i \<Rightarrow>
          (case nif_send (interfaces s ! i) of None \<Rightarrow> (-1, s)
           | Some send \<Rightarrow>
               if payload_len > ETH_MTU then (-1, s)
               else
                 let frame = take 6 dst_mac @ nif_mac (interfaces s ! i) @ st16 (htons ethertype) @
                             map payload [0..<unat payload_len]
                 in (send frame, s\<lparr>tx := tx s @ [(i, frame)]\<rparr>)))"

section \<open>Address resolution\<close>

definition arp_init :: "'a net_st_scheme \<Rightarrow> 'a net_st_scheme" where
  "arp_init s = s\<lparr>arp_cache := replicate ARP_CACHE_SIZE zero_arp_entry\<rparr>"

text \<open>The scan for the oldest entry: index and time stamp so far.\<close>

definition arp_oldest :: "arp_entry list \<Rightarrow> nat \<times> u32" where
  "arp_oldest cache =
     fold (\<lambda>i (oldest, oldest_tick).
             if ae_timestamp (cache ! i) < oldest_tick then (i, ae_timestamp (cache ! i)) else (oldest, oldest_tick))
          [1..<ARP_CACHE_SIZE] (0, ae_timestamp (cache ! 0))"

definition arp_cache_add :: "u32 \<Rightarrow> u8 list \<Rightarrow> 'a net_st_scheme \<Rightarrow> 'a net_st_scheme" where
  "arp_cache_add ip mac s =
     (case first_idx (\<lambda>e. ae_valid e \<and> ae_ip e = ip) (arp_cache s) of
        Some i \<Rightarrow> s\<lparr>arp_cache := (arp_cache s)[i := (arp_cache s ! i)\<lparr>ae_mac := take 6 mac, ae_timestamp := ticks s\<rparr>]\<rparr>
      | None \<Rightarrow>
          (let i = (case first_idx (\<lambda>e. \<not> ae_valid e) (arp_cache s) of
                      Some i \<Rightarrow> i | None \<Rightarrow> fst (arp_oldest (arp_cache s)))
           in s\<lparr>arp_cache := (arp_cache s)[i := \<lparr>ae_ip = ip, ae_mac = take 6 mac, ae_timestamp = ticks s, ae_valid = True\<rparr>]\<rparr>))"

definition sizeof_arp_packet :: u16 where "sizeof_arp_packet = 28"

definition arp_packet :: "u16 \<Rightarrow> u8 list \<Rightarrow> u32 \<Rightarrow> u8 list \<Rightarrow> u32 \<Rightarrow> u8 list" where
  "arp_packet opcode sender_mac sender_ip target_mac target_ip =
     st16 (htons ARP_HW_ETHERNET) @ st16 (htons ETHERTYPE_IPV4) @ [6, 4] @ st16 (htons opcode) @
     sender_mac @ st32 sender_ip @ target_mac @ st32 target_ip"

definition arp_request :: "nat \<Rightarrow> u32 \<Rightarrow> 'a net_st_scheme \<Rightarrow> 'a net_st_scheme" where
  "arp_request iface target_ip s =
     (let n = interfaces s ! iface;
          req = arp_packet ARP_OP_REQUEST (nif_mac n) (ip_addr n) (replicate 6 0) target_ip
      in snd (eth_send (Some iface) ETH_BROADCAST ETHERTYPE_ARP (nth req) sizeof_arp_packet s))"

definition arp_rx :: "nat \<Rightarrow> bytes_at \<Rightarrow> u16 \<Rightarrow> 'a net_st_scheme \<Rightarrow> 'a net_st_scheme" where
  "arp_rx iface data len s =
     (if len < sizeof_arp_packet then s
      else
        let opcode = ntohs (ld16 data 6);
            sender_mac = map data [8..<14];
            sender_ip = ld32 data 14;
            target_ip = ld32 data 24;
            s1 = arp_cache_add sender_ip sender_mac s;
            n = interfaces s1 ! iface
        in if opcode = ARP_OP_REQUEST \<and> target_ip = ip_addr n \<and> ip_addr n \<noteq> 0
           then (let reply = arp_packet ARP_OP_REPLY (nif_mac n) (ip_addr n) sender_mac sender_ip
                 in snd (eth_send (Some iface) sender_mac ETHERTYPE_ARP (nth reply) sizeof_arp_packet s1))
           else s1)"

text \<open>On success the result carries the hardware address written to \<^verbatim>\<open>mac_out\<close>.\<close>

definition arp_resolve :: "nat \<Rightarrow> u32 \<Rightarrow> 'a net_st_scheme \<Rightarrow> u8 list option \<times> 'a net_st_scheme" where
  "arp_resolve iface ip s =
     (let msk = netmask (interfaces s ! iface) in
      if ip = 0xFFFFFFFF \<or> ip AND NOT msk = NOT msk then (Some ETH_BROADCAST, s)
      else case first_idx (\<lambda>e. ae_valid e \<and> ae_ip e = ip) (arp_cache s) of
             Some i \<Rightarrow> (Some (ae_mac (arp_cache s ! i)), s)
           | None \<Rightarrow> (None, arp_request iface ip s))"

definition arp_cache_get :: "int \<Rightarrow> 'a net_st_scheme \<Rightarrow> arp_entry option" where
  "arp_cache_get index s =
     (if index < 0 \<or> index \<ge> int ARP_CACHE_SIZE then None else Some (arp_cache s ! nat index))"

section \<open>Loads of stored values\<close>

lemma ld16_bytes: "d i = ucast v \<Longrightarrow> d (i + 1) = ucast (drop_bit 8 v) \<Longrightarrow> ld16 d i = v"
  by (rule bit_word_eqI) (auto simp: ld16_def bit_simps)

lemma ld32_halves:
  assumes "ld16 d i = ucast v" and "ld16 d (i + 2) = ucast (drop_bit 16 v)"
  shows "ld32 d i = v"
proof (rule bit_word_eqI)
  fix n assume "n < LENGTH(32)"
  then show "bit (ld32 d i) n \<longleftrightarrow> bit v n"
    unfolding ld32_def assms by (cases "n < 16") (auto simp: bit_simps)
qed

lemma ld32_bytes:
  assumes "d i = ucast v" "d (i + 1) = ucast (drop_bit 8 v)" "d (i + 2) = ucast (drop_bit 16 v)"
    "d (i + 3) = ucast (drop_bit 24 v)"
  shows "ld32 d i = v"
proof (rule ld32_halves; rule ld16_bytes)
  show "d i = ucast (ucast v :: u16)" "d (i + 2) = ucast (ucast (drop_bit 16 v) :: u16)"
    unfolding assms by (auto intro!: bit_word_eqI simp: bit_simps)
  show "d (i + 1) = ucast (drop_bit 8 (ucast v :: u16))"
    unfolding assms by (auto intro!: bit_word_eqI simp: bit_simps)
  have "d (i + 2 + 1) = ucast (drop_bit 24 v)" using assms(4) by (simp add: eval_nat_numeral)
  also have "\<dots> = ucast (drop_bit 8 (ucast (drop_bit 16 v) :: u16))"
    by (auto intro!: bit_word_eqI simp: bit_simps)
  finally show "d (i + 2 + 1) = ucast (drop_bit 8 (ucast (drop_bit 16 v) :: u16))" .
qed

lemma ntohs_htons [simp]: "ntohs (htons v) = v"
proof (rule bit_word_eqI)
  fix n assume "n < LENGTH(16)"
  then show "bit (ntohs (htons v)) n \<longleftrightarrow> bit v n"
    by (cases "n < 8") (auto simp: htons_def ntohs_def bit_simps)
qed

lemma st_lengths [simp]: "length (st16 v) = 2" "length (st32 w) = 4"
  by (simp_all add: st16_def st32_def)

section \<open>The cache as a partial function\<close>

text \<open>The hardware address that \<^verbatim>\<open>arp_resolve\<close> finds for an address.\<close>

definition arp_lookup :: "nat \<Rightarrow> u32 \<Rightarrow> 'a net_st_scheme \<Rightarrow> u8 list option" where
  "arp_lookup iface ip s =
     (let msk = netmask (interfaces s ! iface) in
      if ip = 0xFFFFFFFF \<or> ip AND NOT msk = NOT msk then Some ETH_BROADCAST
      else map_option (\<lambda>i. ae_mac (arp_cache s ! i)) (first_idx (\<lambda>e. ae_valid e \<and> ae_ip e = ip) (arp_cache s)))"

lemma arp_resolve_lookup:
  "arp_resolve iface ip s = (case arp_lookup iface ip s of Some mac \<Rightarrow> (Some mac, s) | None \<Rightarrow> (None, arp_request iface ip s))"
  by (simp add: arp_resolve_def arp_lookup_def Let_def split: option.split)

lemma arp_lookup_cong:
  "interfaces t = interfaces s \<Longrightarrow> arp_cache t = arp_cache s \<Longrightarrow> arp_lookup iface ip t = arp_lookup iface ip s"
  by (simp add: arp_lookup_def Let_def)

end
