(* ===== verification/Net_Ip.thy ===== *)
theory Net_Ip
  imports Net_Base "HOL-Library.Monad_Syntax"
begin

text \<open>
  IPv4, \<^verbatim>\<open>net/ipv4.c\<close>, except for the dispatch of received packets, which is in \<open>Net_Stack\<close>, above
  the protocols it calls. While \<^verbatim>\<open>ipv4_send\<close> waits for an address to be resolved it polls the
  driver, which may deliver packets to the stack and so call \<^verbatim>\<open>ipv4_send\<close> again: \<open>poll\<close> is what one
  such call does to the state, \<open>None\<close> when it does not return, and \<open>Net_Stack\<close> ties the knot.
  A copy that leaves a buffer on the stack of the kernel sets \<open>overrun\<close>; what it destroys is not
  modelled.
\<close>

section \<open>The checksum\<close>

text \<open>The two loops: the sum of the 16-bit words, with the last byte alone when the length is odd,
  and the folding of the carries.\<close>

fun sum_words :: "bytes_at \<Rightarrow> nat \<Rightarrow> nat \<Rightarrow> u32 \<Rightarrow> u32" where
  "sum_words p off 0 acc = acc"
| "sum_words p off (Suc 0) acc = acc + ucast (p off)"
| "sum_words p off (Suc (Suc n)) acc = sum_words p (off + 2) n (acc + ucast (ld16 p off))"

function fold_carries :: "u32 \<Rightarrow> u32" where
  "fold_carries acc = (if drop_bit 16 acc \<noteq> 0 then fold_carries ((acc AND 0xFFFF) + drop_bit 16 acc) else acc)"
  by pat_completeness auto

lemma unat_fold_step:
  "unat (((w :: u32) AND 0xFFFF) + drop_bit 16 w) = unat w mod 65536 + unat w div 65536"
  "unat (drop_bit 16 w) = unat w div 65536"
proof -
  have d: "unat (drop_bit 16 w) = unat w div 65536" by (simp add: drop_bit_eq_div unat_div_distrib)
  have "w AND 0xFFFF = take_bit 16 w" by (simp add: take_bit_eq_mask mask_eq_exp_minus_1)
  then have a: "unat (w AND 0xFFFF) = unat w mod 65536" by (simp add: take_bit_eq_mod unat_mod_distrib)
  have "unat w mod 65536 + unat w div 65536 < 2 ^ 32" using unat_u32_less [of w] by simp
  then show "unat ((w AND 0xFFFF) + drop_bit 16 w) = unat w mod 65536 + unat w div 65536"
    using a d by (simp add: unat_plus_if')
  show "unat (drop_bit 16 w) = unat w div 65536" by (rule d)
qed

termination fold_carries
proof (relation "measure unat")
  fix w :: u32
  assume "drop_bit 16 w \<noteq> 0"
  then have "unat w div 65536 \<noteq> 0" using unat_fold_step(2) [of w] by (metis unat_eq_0)
  moreover have "unat w = unat w div 65536 * 65536 + unat w mod 65536" by simp
  ultimately show "((w AND 0xFFFF) + drop_bit 16 w, w) \<in> measure unat"
    unfolding in_measure unat_fold_step(1) by linarith
qed simp

declare fold_carries.simps [simp del]

definition ipv4_checksum :: "bytes_at \<Rightarrow> u16 \<Rightarrow> u16" where
  "ipv4_checksum data len = ucast (NOT (fold_carries (sum_words data 0 (unat len) 0)))"

section \<open>Routes and sending\<close>

definition IP_PROTO_ICMP :: u8 where "IP_PROTO_ICMP = 1"
definition IP_PROTO_TCP :: u8 where "IP_PROTO_TCP = 6"
definition IP_PROTO_UDP :: u8 where "IP_PROTO_UDP = 17"
definition IP_HDR_MIN_LEN :: u16 where "IP_HDR_MIN_LEN = 20"
definition ROUTE_MAX :: nat where "ROUTE_MAX = 8"

record route_entry =
  rt_network :: u32
  rt_netmask :: u32
  rt_gateway :: u32
  rt_iface :: "nat option"

record ip_st = net_st +
  ip_id_counter :: u16
  routes :: "route_entry list"
  route_count :: nat
  overrun :: bool

definition ipv4_init :: "'a ip_st_scheme \<Rightarrow> 'a ip_st_scheme" where
  "ipv4_init s = s\<lparr>ip_id_counter := 1, route_count := 0,
     routes := replicate ROUTE_MAX \<lparr>rt_network = 0, rt_netmask = 0, rt_gateway = 0, rt_iface = None\<rparr>\<rparr>"

definition route_add :: "u32 \<Rightarrow> u32 \<Rightarrow> u32 \<Rightarrow> nat option \<Rightarrow> 'a ip_st_scheme \<Rightarrow> 'a ip_st_scheme" where
  "route_add network msk gw iface s =
     (if route_count s \<ge> ROUTE_MAX then s
      else s\<lparr>routes := (routes s)[route_count s :=
                \<lparr>rt_network = network, rt_netmask = msk, rt_gateway = gw, rt_iface = iface\<rparr>],
             route_count := route_count s + 1\<rparr>)"

definition route_lookup :: "u32 \<Rightarrow> 'a ip_st_scheme \<Rightarrow> nat option \<times> u32" where
  "route_lookup dst_ip s =
     (let (best, best_mask, best_gw) =
            fold (\<lambda>r (best, best_mask, best_gw).
                    if dst_ip AND rt_netmask r = rt_network r \<and> rt_netmask r \<ge> best_mask
                    then (rt_iface r, rt_netmask r, rt_gateway r) else (best, best_mask, best_gw))
                 (take (route_count s) (routes s)) (None, 0, 0)
      in (best, if best_gw \<noteq> 0 then best_gw else dst_ip))"

definition ipv4_header :: "u16 \<Rightarrow> u16 \<Rightarrow> u8 \<Rightarrow> u16 \<Rightarrow> u32 \<Rightarrow> u32 \<Rightarrow> u8 list" where
  "ipv4_header total_len ident protocol checksum src_ip dst_ip =
     [0x45, 0] @ st16 (htons total_len) @ st16 (htons ident) @ st16 0 @ [64, protocol] @
     st16 checksum @ st32 src_ip @ st32 dst_ip"

fun poll_times :: "('a \<Rightarrow> 'a option) \<Rightarrow> nat \<Rightarrow> 'a \<Rightarrow> 'a option" where
  "poll_times poll 0 s = Some s"
| "poll_times poll (Suc n) s = do { s1 \<leftarrow> poll s; poll_times poll n s1 }"

text \<open>Each retry counts to 500000 and polls whenever the low 16 bits of the counter are 0: 8 times.\<close>

fun arp_retry :: "('a ip_st_scheme \<Rightarrow> 'a ip_st_scheme option) \<Rightarrow> nat \<Rightarrow> nat \<Rightarrow> u32 \<Rightarrow> 'a ip_st_scheme \<Rightarrow>
    (u8 list option \<times> 'a ip_st_scheme) option" where
  "arp_retry poll 0 iface next_hop s = Some (None, s)"
| "arp_retry poll (Suc n) iface next_hop s =
     do { s1 \<leftarrow> poll_times poll 8 s;
          case arp_resolve iface next_hop s1 of
            (Some mac, s2) \<Rightarrow> Some (Some mac, s2)
          | (None, s2) \<Rightarrow> arp_retry poll n iface next_hop s2 }"

definition ipv4_output_iface :: "nat option \<Rightarrow> u32 \<Rightarrow> 'a ip_st_scheme \<Rightarrow> nat option" where
  "ipv4_output_iface iface dst_ip s =
     (case iface of Some i \<Rightarrow> Some i
      | None \<Rightarrow> (case fst (route_lookup dst_ip s) of Some i \<Rightarrow> Some i | None \<Rightarrow> netif_get_default s))"

definition ipv4_packet :: "nat \<Rightarrow> u32 \<Rightarrow> u8 \<Rightarrow> bytes_at \<Rightarrow> u16 \<Rightarrow> 'a ip_st_scheme \<Rightarrow> u8 list" where
  "ipv4_packet i dst_ip protocol payload payload_len s =
     (let hdr = ipv4_header (IP_HDR_MIN_LEN + payload_len) (ip_id_counter s) protocol 0 (ip_addr (interfaces s ! i)) dst_ip;
          checksum = ipv4_checksum (nth hdr) IP_HDR_MIN_LEN
      in ipv4_header (IP_HDR_MIN_LEN + payload_len) (ip_id_counter s) protocol checksum (ip_addr (interfaces s ! i)) dst_ip @
         map payload [0..<unat payload_len])"

definition ipv4_next_hop :: "netif \<Rightarrow> u32 \<Rightarrow> u32" where
  "ipv4_next_hop n dst_ip =
     (if gateway n \<noteq> 0 \<and> dst_ip AND netmask n \<noteq> ip_addr n AND netmask n then gateway n else dst_ip)"

definition ipv4_resolve :: "('a ip_st_scheme \<Rightarrow> 'a ip_st_scheme option) \<Rightarrow> nat \<Rightarrow> u32 \<Rightarrow> 'a ip_st_scheme \<Rightarrow>
    (u8 list option \<times> 'a ip_st_scheme) option" where
  "ipv4_resolve poll i next_hop s =
     (case arp_resolve i next_hop s of
        (Some mac, s1) \<Rightarrow> Some (Some mac, s1)
      | (None, s1) \<Rightarrow> arp_retry poll 3 i next_hop s1)"

definition ipv4_send :: "('a ip_st_scheme \<Rightarrow> 'a ip_st_scheme option) \<Rightarrow> nat option \<Rightarrow> u32 \<Rightarrow> u8 \<Rightarrow> bytes_at \<Rightarrow> u16 \<Rightarrow>
    'a ip_st_scheme \<Rightarrow> (int \<times> 'a ip_st_scheme) option" where
  "ipv4_send poll iface dst_ip protocol payload payload_len s =
     (case ipv4_output_iface iface dst_ip s of None \<Rightarrow> Some (-1, s)
      | Some i \<Rightarrow>
          let total_len = IP_HDR_MIN_LEN + payload_len in
          if total_len > ETH_MTU then Some (-1, s)
          else
            let packet = ipv4_packet i dst_ip protocol payload payload_len s;
                s1 = s\<lparr>ip_id_counter := ip_id_counter s + 1,
                       overrun := (overrun s \<or> unat IP_HDR_MIN_LEN + unat payload_len > unat ETH_MTU)\<rparr>
            in do { (mac, s2) \<leftarrow> ipv4_resolve poll i (ipv4_next_hop (interfaces s1 ! i) dst_ip) s1;
                    case mac of None \<Rightarrow> Some (-1, s2)
                    | Some m \<Rightarrow> Some (eth_send (Some i) m ETHERTYPE_IPV4 (nth packet) total_len s2) })"

section \<open>Printing addresses\<close>

definition ip4_addr :: "u8 \<Rightarrow> u8 \<Rightarrow> u8 \<Rightarrow> u8 \<Rightarrow> u32" where
  "ip4_addr a b c d = ((ucast a OR push_bit 8 (ucast b)) OR push_bit 16 (ucast c)) OR push_bit 24 (ucast d)"

definition decimal_byte :: "u8 \<Rightarrow> u8 list" where
  "decimal_byte v =
     (if v \<ge> 100 then [48 + v div 100] else []) @ (if v \<ge> 10 then [48 + (v div 10) mod 10] else []) @ [48 + v mod 10]"

text \<open>The characters written to \<^verbatim>\<open>buf\<close>, with the terminator.\<close>

definition ip4_to_str :: "u32 \<Rightarrow> u8 list" where
  "ip4_to_str ip =
     (let parts = [ucast ip, ucast (drop_bit 8 ip), ucast (drop_bit 16 ip), ucast (drop_bit 24 ip)]
      in concat (map (\<lambda>p. decimal_byte (parts ! p) @ (if p < 3 then [46] else [])) [0..<4]) @ [0])"

section \<open>The checksum as a sum modulo 65535\<close>

lemma fold_carries_unat:
  "unat (fold_carries w) = (if w = 0 then 0 else (unat w - 1) mod 65535 + 1)"
proof (induction w rule: fold_carries.induct)
  case (1 w)
  show ?case
  proof (cases "drop_bit 16 w = 0")
    case True
    then have "unat w div 65536 = 0" using unat_fold_step(2) [of w] by simp
    then have "unat w < 65536" by simp
    moreover have "0 < unat w" if "w \<noteq> 0" using that by (simp add: unat_gt_0)
    ultimately show ?thesis using True by (subst fold_carries.simps) simp
  next
    case False
    define q r where "q = unat w div 65536" and "r = unat w mod 65536"
    have q: "q \<noteq> 0" using False unat_fold_step(2) [of w] unfolding q_def by (metis unat_eq_0)
    have w: "unat w = q * 65536 + r" by (simp add: q_def r_def)
    let ?w = "(w AND 0xFFFF) + drop_bit 16 w"
    have uw: "unat ?w = r + q" using unat_fold_step(1) [of w] by (simp add: q_def r_def)
    then have nz: "?w \<noteq> 0" using q by (metis add_is_0 unat_0)
    have "unat (fold_carries w) = (r + q - 1) mod 65535 + 1"
      using 1 [OF False] nz False uw by (subst fold_carries.simps) simp
    also have "(r + q - 1) mod 65535 = (r + q - 1 + q * 65535) mod 65535" by simp
    also have "r + q - 1 + q * 65535 = unat w - 1" using w q by simp
    finally show ?thesis using w q by auto
  qed
qed

text \<open>The sum of the words as a natural number.\<close>

fun words_sum :: "bytes_at \<Rightarrow> nat \<Rightarrow> nat \<Rightarrow> nat" where
  "words_sum p off 0 = 0"
| "words_sum p off (Suc 0) = unat (p off)"
| "words_sum p off (Suc (Suc n)) = unat (ld16 p off) + words_sum p (off + 2) n"

lemma words_sum_bound: "words_sum p off n \<le> 65535 * Suc n"
proof (induction p off n rule: words_sum.induct)
  case (2 p off)
  then show ?case using unat_u8_less [of "p off"] by simp
next
  case (3 p off n)
  then show ?case using unat_u16_less [of "ld16 p off"] by simp
qed simp

lemma unat_ucast_16_32: "unat (ucast (x :: u16) :: u32) = unat x"
  using unat_u16_less [of x] by (simp add: unsigned_ucast_eq take_bit_nat_eq_self)

lemma unat_ucast_8_32: "unat (ucast (x :: u8) :: u32) = unat x"
  using unat_u8_less [of x] by (simp add: unsigned_ucast_eq take_bit_nat_eq_self)

lemma sum_words_unat:
  "unat acc + words_sum p off n < 2 ^ 32 \<Longrightarrow> unat (sum_words p off n acc) = unat acc + words_sum p off n"
proof (induction p off n acc rule: sum_words.induct)
  case (2 p off acc)
  then show ?case by (simp add: unat_plus_if' unat_ucast_8_32)
next
  case (3 p off n acc)
  then have "unat (acc + ucast (ld16 p off)) = unat acc + unat (ld16 p off)"
    by (simp add: unat_plus_if' unat_ucast_16_32)
  with 3 show ?case by simp
qed simp

lemma unat_not_low: "unat w < 65536 \<Longrightarrow> unat (ucast (NOT (w :: u32)) :: u16) = 65535 - unat w"
proof -
  assume lt: "unat w < 65536"
  have "unat (NOT w) = 4294967295 - unat w"
  proof -
    have n: "NOT w = -1 - w" by (simp add: not_eq_complement)
    have o: "unat (-1 :: u32) = 4294967295" by (simp add: unsigned_minus_1_eq_mask mask_eq_exp_minus_1)
    show ?thesis unfolding n using unat_sub [of w "-1"] o by simp
  qed
  then have "unat (ucast (NOT w) :: u16) = (4294967295 - unat w) mod 65536"
    by (simp add: unsigned_ucast_eq take_bit_eq_mod)
  also have "4294967295 - unat w = 65535 * 65536 + (65535 - unat w)" using lt by simp
  also have "\<dots> mod 65536 = (65535 - unat w) mod 65536" by (rule mod_mult_self3)
  finally show ?thesis by simp
qed

lemma ipv4_checksum_unat:
  "unat (ipv4_checksum p len) = 65535 - (if words_sum p 0 (unat len) = 0 then 0 else (words_sum p 0 (unat len) - 1) mod 65535 + 1)"
proof -
  let ?w = "words_sum p 0 (unat len)"
  have "?w \<le> 65535 * 65536" using words_sum_bound [of p 0 "unat len"] unat_u16_less [of len] by simp
  then have s: "unat (sum_words p 0 (unat len) 0) = ?w" using sum_words_unat [of 0 p 0 "unat len"] by simp
  then have f: "unat (fold_carries (sum_words p 0 (unat len) 0)) = (if ?w = 0 then 0 else (?w - 1) mod 65535 + 1)"
    by (metis fold_carries_unat unat_0 unat_eq_0)
  then have "unat (fold_carries (sum_words p 0 (unat len) 0)) < 65536" by (simp add: less_Suc_eq_le)
  then show ?thesis unfolding ipv4_checksum_def by (subst unat_not_low) (simp_all add: f)
qed

text \<open>A header that carries the checksum of itself with the field 0 passes the check of the receiver.\<close>

lemma checksum_verifies:
  assumes w: "words_sum q 0 (unat len) = words_sum p 0 (unat len) + unat (ipv4_checksum p len)"
    and "0 < words_sum p 0 (unat len)"
  shows "ipv4_checksum q len = 0"
proof -
  define a where "a = words_sum p 0 (unat len) - 1"
  have p: "words_sum p 0 (unat len) = a + 1" using assms(2) by (simp add: a_def)
  have c: "unat (ipv4_checksum p len) = 65534 - a mod 65535"
    using ipv4_checksum_unat [of p len] p by simp
  have m: "a mod 65535 < 65535" by simp
  have "a + (65534 - a mod 65535) = (a div 65535) * 65535 + 65534"
    using m div_mult_mod_eq [of a 65535] by linarith
  then have "words_sum q 0 (unat len) = (a div 65535) * 65535 + 65535" using w p c by simp
  then have "(words_sum q 0 (unat len) - 1) mod 65535 + 1 = 65535" and "words_sum q 0 (unat len) \<noteq> 0"
    by (simp_all add: mod_mult_self3)
  then have "unat (ipv4_checksum q len) = 0" using ipv4_checksum_unat [of q len] by simp
  then show ?thesis by (simp add: unat_eq_0)
qed

section \<open>The header as the receiver reads it\<close>

lemma ipv4_header_length [simp]: "length (ipv4_header n ident pr c src dst) = 20"
  by (simp add: ipv4_header_def)

lemma ipv4_header_bytes:
  assumes p_def: "p = nth (ipv4_header n ident pr c src dst @ body)"
  shows "p 0 = 0x45" "ld16 p 2 = htons n" "p 9 = pr" "ld32 p 12 = src" "ld32 p 16 = dst" "p (20 + k) = body ! k"
proof -
  show "p 0 = 0x45" "p 9 = pr" by (simp_all add: p_def ipv4_header_def st16_def st32_def)
  show "ld16 p 2 = htons n" by (rule ld16_bytes) (simp_all add: p_def ipv4_header_def st16_def st32_def)
  show "ld32 p 12 = src" "ld32 p 16 = dst" by (rule ld32_bytes; simp add: p_def ipv4_header_def st16_def st32_def)+
  show "p (20 + k) = body ! k" by (simp add: p_def nth_append)
qed

lemma words_sum_header:
  "words_sum p 0 20 = unat (ld16 p 0) + unat (ld16 p 2) + unat (ld16 p 4) + unat (ld16 p 6) + unat (ld16 p 8) + unat (ld16 p 10) +
     unat (ld16 p 12) + unat (ld16 p 14) + unat (ld16 p 16) + unat (ld16 p 18)"
  by (simp add: numeral_eq_Suc)

lemma ipv4_header_checksum:
  assumes "c = ipv4_checksum (nth (ipv4_header n ident pr 0 src dst)) 20"
  shows "ipv4_checksum (nth (ipv4_header n ident pr c src dst @ body)) 20 = 0"
proof (rule checksum_verifies [where p = "nth (ipv4_header n ident pr 0 src dst)"])
  let ?p = "nth (ipv4_header n ident pr 0 src dst)" and ?q = "nth (ipv4_header n ident pr c src dst @ body)"
  have same: "ld16 ?q i = ld16 ?p i" if "i \<in> {0, 2, 4, 6, 8, 12, 14, 16, 18}" for i
    using that by (auto simp: ld16_def ipv4_header_def st16_def st32_def)
  have z: "ld16 ?p 10 = 0" by (rule ld16_bytes) (simp_all add: ipv4_header_def st16_def st32_def)
  have c: "ld16 ?q 10 = c" by (rule ld16_bytes) (simp_all add: ipv4_header_def st16_def st32_def)
  show "words_sum ?q 0 (unat (20 :: u16)) = words_sum ?p 0 (unat (20 :: u16)) + unat (ipv4_checksum ?p 20)"
    using same z c assms by (simp add: words_sum_header)
  have "ld16 ?p 0 = 0x45" by (rule ld16_bytes) (simp_all add: ipv4_header_def st16_def st32_def)
  then show "0 < words_sum ?p 0 (unat (20 :: u16))" by (simp add: words_sum_header)
qed

section \<open>Monotonicity in the driver\<close>

text \<open>Sending is monotone in \<open>poll\<close>, in the order in which \<open>None\<close> is below every value. The rules are
  collected up the layers; they make the recursion of the stack through the driver well-defined.\<close>

lemma map_option_mono [partial_function_mono]:
  "mono_option F \<Longrightarrow> mono_option (\<lambda>f. map_option g (F f))"
  by (simp add: monotone_def flat_ord_def) metis

lemma case_option_mono [partial_function_mono]:
  "mono_option A \<Longrightarrow> (\<And>x. mono_option (B x)) \<Longrightarrow> mono_option (\<lambda>f. case opt of None \<Rightarrow> A f | Some x \<Rightarrow> B x f)"
  by (cases opt) auto

lemma case_prod_mono [partial_function_mono]:
  "(\<And>x y. mono_option (B x y)) \<Longrightarrow> mono_option (\<lambda>f. case p of (x, y) \<Rightarrow> B x y f)"
  by (cases p) auto

lemma poll_times_mono [partial_function_mono]:
  assumes [partial_function_mono]: "\<And>t. mono_option (\<lambda>f. P f t)"
  shows "mono_option (\<lambda>f. poll_times (P f) n s)"
proof (induction n arbitrary: s)
  case (Suc n)
  note Suc [partial_function_mono]
  show ?case unfolding poll_times.simps by (intro partial_function_mono)
qed (simp add: option.const_mono)

lemma arp_retry_mono [partial_function_mono]:
  assumes [partial_function_mono]: "\<And>t. mono_option (\<lambda>f. P f t)"
  shows "mono_option (\<lambda>f. arp_retry (P f) n iface next_hop s)"
proof (induction n arbitrary: s)
  case (Suc n)
  note Suc [partial_function_mono]
  show ?case unfolding arp_retry.simps by (intro partial_function_mono)
qed (simp add: option.const_mono)

lemma ipv4_send_mono [partial_function_mono]:
  assumes [partial_function_mono]: "\<And>t. mono_option (\<lambda>f. P f t)"
  shows "mono_option (\<lambda>f. ipv4_send (P f) iface dst_ip protocol payload payload_len s)"
  unfolding ipv4_send_def ipv4_resolve_def by (intro partial_function_mono)

section \<open>What sending keeps\<close>

text \<open>Sending a packet only changes the counter of identifiers, the frames handed to drivers and the
  record of overruns, besides what the driver does when it is polled: it keeps every property \<open>Q\<close> of the
  state that those do not matter to and that polling keeps.\<close>

locale polled =
  fixes Q :: "'a ip_st_scheme \<Rightarrow> bool" and poll :: "'a ip_st_scheme \<Rightarrow> 'a ip_st_scheme option"
  assumes poll_keeps: "Q s \<Longrightarrow> poll s = Some t \<Longrightarrow> Q t"
    and tx_keeps: "Q s \<Longrightarrow> Q (s\<lparr>tx := x\<rparr>)"
    and ident_keeps: "Q s \<Longrightarrow> Q (s\<lparr>ip_id_counter := c\<rparr>)"
    and overrun_keeps: "Q s \<Longrightarrow> Q (s\<lparr>overrun := b\<rparr>)"
begin

lemma eth_send_keeps: "Q s \<Longrightarrow> Q (snd (eth_send iface mac ethertype payload len s))"
  by (simp add: eth_send_def Let_def tx_keeps split: option.split)

lemma arp_resolve_keeps: "Q s \<Longrightarrow> Q (snd (arp_resolve iface ip s))"
  by (simp add: arp_resolve_def arp_request_def Let_def eth_send_keeps split: option.split)

lemma poll_times_keeps: "Q s \<Longrightarrow> poll_times poll n s = Some t \<Longrightarrow> Q t"
  by (induction n arbitrary: s) (auto simp: Option.bind_eq_Some_conv intro: poll_keeps)

lemma arp_retry_keeps: "Q s \<Longrightarrow> arp_retry poll n iface next_hop s = Some (mac, t) \<Longrightarrow> Q t"
proof (induction n arbitrary: s)
  case (Suc n)
  obtain s1 where s1: "poll_times poll 8 s = Some s1" "Q s1"
    using Suc.prems poll_times_keeps by (auto simp: Option.bind_eq_Some_conv)
  then show ?case
    using Suc arp_resolve_keeps [OF s1(2), of iface next_hop] by (auto split: prod.splits option.splits)
qed simp

lemma ipv4_resolve_keeps: "Q s \<Longrightarrow> ipv4_resolve poll i ip s = Some (mac, t) \<Longrightarrow> Q t"
  using arp_resolve_keeps [of s i ip] arp_retry_keeps
  by (cases "arp_resolve i ip s") (auto simp: ipv4_resolve_def split: option.splits)

lemma ipv4_send_keeps:
  assumes "Q s" and "ipv4_send poll iface dst_ip protocol payload len s = Some (r, t)"
  shows "Q t"
proof -
  have k: "Q (s\<lparr>ip_id_counter := c, overrun := b\<rparr>)" for c b
    using assms(1) by (intro overrun_keeps ident_keeps)
  show ?thesis
    using assms
    by (auto simp: ipv4_send_def Let_def Option.bind_eq_Some_conv eth_send_keeps
        dest!: ipv4_resolve_keeps [OF k] arg_cong [where f = snd]
        split: option.splits if_splits)
qed

end

end
