(* ===== verification/Net_Udp.thy ===== *)
theory Net_Udp
  imports Net_Ip
begin

text \<open>
  ICMP echo (\<^verbatim>\<open>net/icmp.c\<close>) and UDP (\<^verbatim>\<open>net/udp.c\<close>), except for the dispatch of received datagrams,
  which is in \<open>Net_Stack\<close>. The calls of the reply callback are recorded in \<open>echo_replies\<close>. What a
  function writes through pointer arguments is a component of its result.
\<close>

section \<open>ICMP\<close>

definition ICMP_ECHO_REPLY :: u8 where "ICMP_ECHO_REPLY = 0"
definition ICMP_ECHO_REQUEST :: u8 where "ICMP_ECHO_REQUEST = 8"
definition sizeof_icmp_header :: u16 where "sizeof_icmp_header = 8"

record icmp_st = ip_st +
  reply_callback :: bool
  echo_replies :: "(u32 \<times> u16 \<times> u16 \<times> u16) list"

definition icmp_set_reply_callback :: "bool \<Rightarrow> 'a icmp_st_scheme \<Rightarrow> 'a icmp_st_scheme" where
  "icmp_set_reply_callback cb s = s\<lparr>reply_callback := cb\<rparr>"

definition icmp_rx :: "('a icmp_st_scheme \<Rightarrow> 'a icmp_st_scheme option) \<Rightarrow> nat \<Rightarrow> u32 \<Rightarrow> bytes_at \<Rightarrow> u16 \<Rightarrow>
    'a icmp_st_scheme \<Rightarrow> 'a icmp_st_scheme option" where
  "icmp_rx poll iface src_ip data len s =
     (if len < sizeof_icmp_header then Some s
      else if data 0 = ICMP_ECHO_REQUEST then
        (if len > ETH_MTU - 20 then Some s
         else
           let reply = data(0 := ICMP_ECHO_REPLY, 2 := 0, 3 := 0);
               checksum = ipv4_checksum reply len;
               reply = reply(2 := st16 checksum ! 0, 3 := st16 checksum ! 1)
           in map_option snd (ipv4_send poll (Some iface) src_ip IP_PROTO_ICMP reply len s))
      else if data 0 = ICMP_ECHO_REPLY then
        (if reply_callback s
         then Some (s\<lparr>echo_replies := echo_replies s @
                       [(src_ip, ntohs (ld16 data 4), ntohs (ld16 data 6), len - sizeof_icmp_header)]\<rparr>)
         else Some s)
      else Some s)"

text \<open>\<open>stk\<close> is what the packet buffer on the stack holds before it is written.\<close>

definition icmp_send_echo :: "('a icmp_st_scheme \<Rightarrow> 'a icmp_st_scheme option) \<Rightarrow> bytes_at \<Rightarrow> nat option \<Rightarrow> u32 \<Rightarrow> u16 \<Rightarrow> u16 \<Rightarrow>
    bytes_at option \<Rightarrow> u16 \<Rightarrow> 'a icmp_st_scheme \<Rightarrow> (int \<times> 'a icmp_st_scheme) option" where
  "icmp_send_echo poll stk iface dst_ip ident sequence payload payload_len s =
     (let total = sizeof_icmp_header + payload_len in
      if total > ETH_MTU - 20 then Some (-1, s)
      else
        let hdr = (\<lambda>checksum. [ICMP_ECHO_REQUEST, 0] @ st16 checksum @ st16 (htons ident) @ st16 (htons sequence));
            body = (\<lambda>k. case payload of Some p \<Rightarrow> if k < unat payload_len then p k else stk (8 + k) | None \<Rightarrow> stk (8 + k));
            buf = (\<lambda>checksum k. if k < 8 then hdr checksum ! k else body (k - 8));
            s1 = s\<lparr>overrun := (overrun s \<or> payload \<noteq> None \<and> 8 + unat payload_len > unat ETH_MTU)\<rparr>
        in ipv4_send poll iface dst_ip IP_PROTO_ICMP (buf (ipv4_checksum (buf 0) total)) total s1)"

section \<open>UDP\<close>

definition UDP_HDR_LEN :: u16 where "UDP_HDR_LEN = 8"
definition UDP_MAX_SOCKETS :: nat where "UDP_MAX_SOCKETS = 16"
definition UDP_RX_BUF_SIZE :: u16 where "UDP_RX_BUF_SIZE = 4096"

record udp_socket =
  us_used :: bool
  us_local_port :: u16
  us_remote_ip :: u32
  us_remote_port :: u16
  us_rx_buf :: bytes_at
  us_rx_len :: u16
  us_rx_from_ip :: u32
  us_rx_from_port :: u16
  us_rx_ready :: bool

record udp_st = icmp_st +
  udp_sockets :: "udp_socket list"

definition zero_udp_socket :: udp_socket where
  "zero_udp_socket = \<lparr>us_used = False, us_local_port = 0, us_remote_ip = 0, us_remote_port = 0, us_rx_buf = (\<lambda>_. 0),
     us_rx_len = 0, us_rx_from_ip = 0, us_rx_from_port = 0, us_rx_ready = False\<rparr>"

definition udp_init :: "'a udp_st_scheme \<Rightarrow> 'a udp_st_scheme" where
  "udp_init s = s\<lparr>udp_sockets := replicate UDP_MAX_SOCKETS zero_udp_socket\<rparr>"

definition udp_matches :: "u16 \<Rightarrow> u32 \<Rightarrow> u16 \<Rightarrow> udp_socket \<Rightarrow> bool" where
  "udp_matches dst_port src_ip src_port k \<longleftrightarrow>
     us_used k \<and> us_local_port k = dst_port \<and>
     (us_remote_ip k = 0 \<or> us_remote_ip k = src_ip) \<and> (us_remote_port k = 0 \<or> us_remote_port k = src_port)"

text \<open>\<^verbatim>\<open>memcpy\<close> into an array at \<open>off\<close>.\<close>

definition copy_in :: "nat \<Rightarrow> bytes_at \<Rightarrow> u16 \<Rightarrow> bytes_at \<Rightarrow> bytes_at" where
  "copy_in off src n dst k = (if off \<le> k \<and> k < off + unat n then src (k - off) else dst k)"

definition udp_deliver :: "u16 \<Rightarrow> u32 \<Rightarrow> u16 \<Rightarrow> bytes_at \<Rightarrow> u16 \<Rightarrow> 'a udp_st_scheme \<Rightarrow> 'a udp_st_scheme" where
  "udp_deliver dst_port src_ip src_port payload payload_len s =
     (case first_idx (udp_matches dst_port src_ip src_port) (udp_sockets s) of None \<Rightarrow> s
      | Some i \<Rightarrow>
          let copy_len = (if payload_len > UDP_RX_BUF_SIZE then UDP_RX_BUF_SIZE else payload_len);
              k = udp_sockets s ! i
          in s\<lparr>udp_sockets := (udp_sockets s)[i := k\<lparr>us_rx_buf := copy_in 0 payload copy_len (us_rx_buf k),
                 us_rx_len := copy_len, us_rx_from_ip := src_ip, us_rx_from_port := src_port, us_rx_ready := True\<rparr>]\<rparr>)"

definition udp_send :: "('a icmp_st_scheme \<Rightarrow> 'a icmp_st_scheme option) \<Rightarrow> nat option \<Rightarrow> u32 \<Rightarrow> u16 \<Rightarrow> u16 \<Rightarrow> bytes_at \<Rightarrow> u16 \<Rightarrow>
    'a icmp_st_scheme \<Rightarrow> (int \<times> 'a icmp_st_scheme) option" where
  "udp_send poll iface dst_ip src_port dst_port payload payload_len s =
     (let udp_total = UDP_HDR_LEN + payload_len in
      if udp_total > ETH_MTU - 20 then Some (-1, s)
      else
        let buf = st16 (htons src_port) @ st16 (htons dst_port) @ st16 (htons udp_total) @ st16 0 @
                  map payload [0..<unat payload_len];
            s1 = s\<lparr>overrun := (overrun s \<or> unat UDP_HDR_LEN + unat payload_len > unat ETH_MTU)\<rparr>
        in ipv4_send poll iface dst_ip IP_PROTO_UDP (nth buf) udp_total s1)"

definition udp_socket_open :: "u16 \<Rightarrow> 'a udp_st_scheme \<Rightarrow> int \<times> 'a udp_st_scheme" where
  "udp_socket_open local_port s =
     (case first_idx (\<lambda>k. \<not> us_used k) (udp_sockets s) of None \<Rightarrow> (-1, s)
      | Some i \<Rightarrow> (int i, s\<lparr>udp_sockets := (udp_sockets s)[i :=
                           zero_udp_socket\<lparr>us_used := True, us_local_port := local_port\<rparr>]\<rparr>))"

definition udp_socket_close :: "int \<Rightarrow> 'a udp_st_scheme \<Rightarrow> int \<times> 'a udp_st_scheme" where
  "udp_socket_close sock s =
     (if sock < 0 \<or> sock \<ge> int UDP_MAX_SOCKETS then (-1, s)
      else (0, s\<lparr>udp_sockets := (udp_sockets s)[nat sock := (udp_sockets s ! nat sock)\<lparr>us_used := False\<rparr>]\<rparr>))"

definition udp_bad_socket :: "int \<Rightarrow> 'a udp_st_scheme \<Rightarrow> bool" where
  "udp_bad_socket sock s \<longleftrightarrow> sock < 0 \<or> sock \<ge> int UDP_MAX_SOCKETS \<or> \<not> us_used (udp_sockets s ! nat sock)"

definition udp_socket_sendto :: "('a udp_st_scheme \<Rightarrow> 'a udp_st_scheme option) \<Rightarrow> int \<Rightarrow> u32 \<Rightarrow> u16 \<Rightarrow> bytes_at \<Rightarrow> u16 \<Rightarrow>
    'a udp_st_scheme \<Rightarrow> (int \<times> 'a udp_st_scheme) option" where
  "udp_socket_sendto poll sock dst_ip dst_port data len s =
     (if udp_bad_socket sock s then Some (-1, s)
      else udp_send poll (netif_get_default s) dst_ip (us_local_port (udp_sockets s ! nat sock)) dst_port data len s)"

text \<open>The result is the code, the bytes written to \<^verbatim>\<open>buf\<close>, and the sender, when there was a datagram.\<close>

definition udp_socket_recvfrom :: "int \<Rightarrow> u16 \<Rightarrow> 'a udp_st_scheme \<Rightarrow> (int \<times> u8 list \<times> (u32 \<times> u16) option) \<times> 'a udp_st_scheme" where
  "udp_socket_recvfrom sock buf_len s =
     (if udp_bad_socket sock s then ((-1, [], None), s)
      else
        let k = udp_sockets s ! nat sock in
        if \<not> us_rx_ready k then ((0, [], None), s)
        else
          let copy = (if us_rx_len k > buf_len then buf_len else us_rx_len k)
          in ((int (unat copy), map (us_rx_buf k) [0..<unat copy], Some (us_rx_from_ip k, us_rx_from_port k)),
              s\<lparr>udp_sockets := (udp_sockets s)[nat sock := k\<lparr>us_rx_ready := False\<rparr>]\<rparr>))"

definition udp_socket_bind :: "int \<Rightarrow> u32 \<Rightarrow> u16 \<Rightarrow> 'a udp_st_scheme \<Rightarrow> int \<times> 'a udp_st_scheme" where
  "udp_socket_bind sock remote_ip remote_port s =
     (if udp_bad_socket sock s then (-1, s)
      else (0, s\<lparr>udp_sockets := (udp_sockets s)[nat sock :=
                  (udp_sockets s ! nat sock)\<lparr>us_remote_ip := remote_ip, us_remote_port := remote_port\<rparr>]\<rparr>))"

section \<open>Monotonicity in the driver\<close>

lemma icmp_rx_mono [partial_function_mono]:
  assumes [partial_function_mono]: "\<And>t. mono_option (\<lambda>f. P f t)"
  shows "mono_option (\<lambda>f. icmp_rx (P f) iface src_ip data len s)"
  unfolding icmp_rx_def by (intro partial_function_mono)

lemma udp_send_mono [partial_function_mono]:
  assumes [partial_function_mono]: "\<And>t. mono_option (\<lambda>f. P f t)"
  shows "mono_option (\<lambda>f. udp_send (P f) iface dst_ip src_port dst_port payload payload_len s)"
  unfolding udp_send_def by (intro partial_function_mono)

end
