(* ===== verification/Klog.thy ===== *)
theory Klog
  imports Kstring Fifo
begin

text \<open>
  The kernel log, \<^verbatim>\<open>kernel/klog.c\<close>: a ring of the last 64 entries. The clock is an argument of
  \<^verbatim>\<open>klog_write\<close>; what \<^verbatim>\<open>klog_dump_to_terminal\<close> prints is a list of calls to the terminal.
\<close>

section \<open>State and operations\<close>

definition KLOG_MAX_ENTRIES :: nat where "KLOG_MAX_ENTRIES = 64"
definition KLOG_COMPONENT_MAX :: u32 where "KLOG_COMPONENT_MAX = 16"
definition KLOG_MESSAGE_MAX :: u32 where "KLOG_MESSAGE_MAX = 80"

text \<open>A variable of the enumeration may hold any other number.\<close>

datatype klog_level = KLOG_LEVEL_DEBUG | KLOG_LEVEL_INFO | KLOG_LEVEL_WARN | KLOG_LEVEL_ERROR | Other_level u32

record klog_entry =
  kl_ticks :: u32
  kl_level :: klog_level
  kl_component :: "nat \<Rightarrow> u8"
  kl_message :: "nat \<Rightarrow> u8"

record klog_st =
  klog_entries :: "nat \<Rightarrow> klog_entry"
  klog_start :: nat
  klog_size :: nat

function klog_copy_loop :: "bytes_at \<Rightarrow> u32 \<Rightarrow> nat \<Rightarrow> bytes_at \<Rightarrow> nat \<times> bytes_at" where
  "klog_copy_loop source destination_size index destination =
     (if source index \<noteq> 0 \<and> index < unat (destination_size - 1)
      then klog_copy_loop source destination_size (Suc index) (destination(index := source index))
      else (index, destination))"
  by pat_completeness auto
termination
  by (relation "measure (\<lambda>(source, n, index, destination). unat (n - 1) - index)") auto

declare klog_copy_loop.simps [simp del]

text \<open>\<^verbatim>\<open>klog_copy_text\<close> with a destination that is not null; a null source is \<open>None\<close>.\<close>

definition klog_copy_text :: "bytes_at \<Rightarrow> u32 \<Rightarrow> bytes_at option \<Rightarrow> bytes_at" where
  "klog_copy_text destination destination_size source =
     (if destination_size = 0 then destination
      else case source of
             None \<Rightarrow> destination(0 := 0)
           | Some src \<Rightarrow>
               let (index, d) = klog_copy_loop src destination_size 0 destination in d(index := 0))"

fun klog_level_name :: "klog_level \<Rightarrow> string" where
  "klog_level_name KLOG_LEVEL_DEBUG = ''DEBUG''"
| "klog_level_name KLOG_LEVEL_INFO = ''INFO''"
| "klog_level_name KLOG_LEVEL_WARN = ''WARN''"
| "klog_level_name KLOG_LEVEL_ERROR = ''ERROR''"
| "klog_level_name (Other_level _) = ''UNK''"

definition klog_clear :: "klog_st \<Rightarrow> klog_st" where
  "klog_clear s = s\<lparr>klog_start := 0, klog_size := 0\<rparr>"

definition c_string :: "string \<Rightarrow> bytes_at" where
  "c_string str i = (if i < length str then of_char (str ! i) else 0)"

definition klog_write :: "u32 \<Rightarrow> klog_level \<Rightarrow> bytes_at option \<Rightarrow> bytes_at option \<Rightarrow> klog_st \<Rightarrow> klog_st" where
  "klog_write timer_get_ticks level component message s =
     (let (index, s1) =
            (if klog_size s < KLOG_MAX_ENTRIES
             then ((klog_start s + klog_size s) mod KLOG_MAX_ENTRIES, s\<lparr>klog_size := klog_size s + 1\<rparr>)
             else (klog_start s, s\<lparr>klog_start := (klog_start s + 1) mod KLOG_MAX_ENTRIES\<rparr>));
          e = klog_entries s1 index;
          e1 = e\<lparr>kl_ticks := timer_get_ticks, kl_level := level,
                 kl_component := klog_copy_text (kl_component e) KLOG_COMPONENT_MAX
                   (if component \<noteq> None then component else Some (c_string ''kernel'')),
                 kl_message := klog_copy_text (kl_message e) KLOG_MESSAGE_MAX
                   (if message \<noteq> None then message else Some (c_string ''''))\<rparr>
      in s1\<lparr>klog_entries := (klog_entries s1)(index := e1)\<rparr>)"

datatype term_call = Put_char char | Print_uint u32 | Print_name string | Print_text bytes_at | Print_line bytes_at

definition klog_dump_entry :: "klog_entry \<Rightarrow> term_call list" where
  "klog_dump_entry e =
     [Put_char (CHR ''[''), Print_uint (kl_ticks e), Put_char (CHR '']''), Put_char (CHR '' ''),
      Print_name (klog_level_name (kl_level e)), Put_char (CHR '' ''), Print_text (kl_component e),
      Print_name '': '', Print_line (kl_message e)]"

definition klog_dump_to_terminal :: "klog_st \<Rightarrow> term_call list" where
  "klog_dump_to_terminal s =
     concat (map (\<lambda>i. klog_dump_entry (klog_entries s ((klog_start s + i) mod KLOG_MAX_ENTRIES))) [0..<klog_size s])"

definition klog_count :: "klog_st \<Rightarrow> nat" where
  "klog_count s = klog_size s"

text \<open>The buffers of \<^verbatim>\<open>klog_read_entry\<close> may be null; the result is the code and what the three
  pointers point to afterwards.\<close>

definition klog_read_entry :: "int \<Rightarrow> klog_level option \<Rightarrow> bytes_at option \<Rightarrow> int \<Rightarrow> bytes_at option \<Rightarrow> int \<Rightarrow> klog_st \<Rightarrow>
    int \<times> klog_level option \<times> bytes_at option \<times> bytes_at option" where
  "klog_read_entry index level_out comp_out comp_max msg_out msg_max s =
     (if index < 0 \<or> index \<ge> int (klog_size s) then (-1, level_out, comp_out, msg_out)
      else
        let e = klog_entries s ((klog_start s + nat index) mod KLOG_MAX_ENTRIES)
        in (0, map_option (\<lambda>_. kl_level e) level_out,
            map_option (\<lambda>d. klog_copy_text d (word_of_int comp_max) (Some (kl_component e))) comp_out,
            map_option (\<lambda>d. klog_copy_text d (word_of_int msg_max) (Some (kl_message e))) msg_out))"

section \<open>The text fields\<close>

text \<open>The copy of the log and \<^verbatim>\<open>str_copy\<close> of the string library are the same function.\<close>

lemma klog_copy_loop_eq:
  assumes "n \<noteq> 0"
  shows "klog_copy_loop src n i d = str_copy_loop 0 i src (int (unat n)) d"
  using assms
proof (induction src n i d rule: klog_copy_loop.induct)
  case (1 src n i d)
  have "unat (n - 1) = unat n - 1" "0 < unat n" using 1(2) by (simp_all add: unat_minus_one unat_gt_0)
  then have "i < unat (n - 1) \<longleftrightarrow> int (0 + i) < int (unat n) - 1" by linarith
  then have c: "src i \<noteq> 0 \<and> i < unat (n - 1) \<longleftrightarrow> int (0 + i) < int (unat n) - 1 \<and> src i \<noteq> 0" by blast
  show ?case
  proof (cases "src i \<noteq> 0 \<and> i < unat (n - 1)")
    case True
    have "klog_copy_loop src n i d = klog_copy_loop src n (Suc i) (d(i := src i))"
      unfolding klog_copy_loop.simps [of src n i d] if_P [OF True] ..
    also have "\<dots> = str_copy_loop 0 (Suc i) src (int (unat n)) (d(i := src i))" using 1 True by blast
    also have "\<dots> = str_copy_loop 0 i src (int (unat n)) d"
      unfolding str_copy_loop.simps [of 0 i] if_P [OF True [unfolded c]] by (simp only: add_0)
    finally show ?thesis .
  next
    case False
    have "klog_copy_loop src n i d = (i, d)"
      unfolding klog_copy_loop.simps [of src n i d] if_not_P [OF False] ..
    moreover have "str_copy_loop 0 i src (int (unat n)) d = (i, d)"
      unfolding str_copy_loop.simps [of 0 i] if_not_P [OF False [unfolded c]] ..
    ultimately show ?thesis by simp
  qed
qed

lemma klog_copy_text_eq:
  assumes "n \<noteq> 0"
  shows "klog_copy_text d n (Some src) = str_copy d src (int (unat n))"
proof -
  have "0 < unat n" using assms by (simp add: unat_gt_0)
  then have "\<not> int (unat n) \<le> 0" by linarith
  then show ?thesis
    using assms by (simp only: klog_copy_text_def str_copy_def klog_copy_loop_eq [OF assms] option.case if_False)
qed

lemma cstr_str_copy:
  assumes "cstr src xs" "0 < n"
  shows "cstr (str_copy d src n) (take (nat (n - 1)) xs)"
proof -
  have "0 \<notin> set (take (nat (n - 1)) xs)" using assms(1) by (auto simp: cstr_def dest: in_set_takeD)
  then show ?thesis using str_copy_at [OF assms] by (auto simp: cstr_def)
qed

section \<open>The last entries\<close>

text \<open>A write, and what an entry shows of it: the texts cut to the size of the fields.\<close>

datatype log_call = Log u32 klog_level "bytes_at option" "bytes_at option"

fun log_step :: "log_call \<Rightarrow> klog_st \<Rightarrow> klog_st" where
  "log_step (Log t l c m) s = klog_write t l c m s"

definition text_of :: "string \<Rightarrow> bytes_at option \<Rightarrow> bytes_at" where
  "text_of dflt p = (case p of None \<Rightarrow> c_string dflt | Some b \<Rightarrow> b)"

fun shows_call :: "klog_entry \<Rightarrow> log_call \<Rightarrow> bool" where
  "shows_call e (Log t l c m) \<longleftrightarrow> kl_ticks e = t \<and> kl_level e = l \<and>
     (\<forall>xs. cstr (text_of ''kernel'' c) xs \<longrightarrow> cstr (kl_component e) (take 15 xs)) \<and>
     (\<forall>xs. cstr (text_of '''' m) xs \<longrightarrow> cstr (kl_message e) (take 79 xs))"

definition klog_inv :: "klog_st \<Rightarrow> log_call list \<Rightarrow> bool" where
  "klog_inv s ws \<longleftrightarrow> klog_start s < 64 \<and> klog_size s = min 64 (length ws) \<and>
     (\<forall>i < klog_size s. shows_call (klog_entries s ((klog_start s + i) mod 64)) (ws ! (length ws - klog_size s + i)))"

lemma klog_write_shows:
  assumes "s' = log_step w s"
    and "i = (if klog_size s < 64 then (klog_start s + klog_size s) mod 64 else klog_start s)"
  shows "shows_call (klog_entries s' i) w" "\<forall>j. j \<noteq> i \<longrightarrow> klog_entries s' j = klog_entries s j"
    "klog_size s' = (if klog_size s < 64 then klog_size s + 1 else klog_size s)"
    "klog_start s' = (if klog_size s < 64 then klog_start s else (klog_start s + 1) mod 64)"
proof -
  obtain t l c m where w: "w = Log t l c m" by (cases w)
  have c: "(if c \<noteq> None then c else Some (c_string ''kernel'')) = Some (text_of ''kernel'' c)"
    and m: "(if m \<noteq> None then m else Some (c_string '''')) = Some (text_of '''' m)"
    by (auto simp: text_of_def)
  have c15: "cstr (klog_copy_text d KLOG_COMPONENT_MAX (Some b)) (take 15 xs)" if "cstr b xs" for d b xs
    using cstr_str_copy [OF that, of 16 d] by (simp add: klog_copy_text_eq KLOG_COMPONENT_MAX_def)
  have m79: "cstr (klog_copy_text d KLOG_MESSAGE_MAX (Some b)) (take 79 xs)" if "cstr b xs" for d b xs
    using cstr_str_copy [OF that, of 80 d] by (simp add: klog_copy_text_eq KLOG_MESSAGE_MAX_def)
  have s': "s' = (if klog_size s < 64 then s\<lparr>klog_size := klog_size s + 1\<rparr> else s\<lparr>klog_start := (klog_start s + 1) mod 64\<rparr>)
      \<lparr>klog_entries := (klog_entries s)(i := (klog_entries s i)\<lparr>kl_ticks := t, kl_level := l,
         kl_component := klog_copy_text (kl_component (klog_entries s i)) KLOG_COMPONENT_MAX (Some (text_of ''kernel'' c)),
         kl_message := klog_copy_text (kl_message (klog_entries s i)) KLOG_MESSAGE_MAX (Some (text_of '''' m))\<rparr>)\<rparr>"
    unfolding assms w log_step.simps klog_write_def c m by (simp add: Let_def KLOG_MAX_ENTRIES_def)
  show "shows_call (klog_entries s' i) w" by (simp add: s' w c15 m79)
  show "\<forall>j. j \<noteq> i \<longrightarrow> klog_entries s' j = klog_entries s j"
    "klog_size s' = (if klog_size s < 64 then klog_size s + 1 else klog_size s)"
    "klog_start s' = (if klog_size s < 64 then klog_start s else (klog_start s + 1) mod 64)"
    by (simp_all add: s')
qed

lemma klog_inv_step:
  assumes inv: "klog_inv s ws"
  shows "klog_inv (log_step w s) (ws @ [w])"
proof -
  let ?s = "log_step w s"
  let ?i = "if klog_size s < 64 then (klog_start s + klog_size s) mod 64 else klog_start s"
  note wr = klog_write_shows [of ?s w s ?i, OF refl refl]
  have st: "klog_start s < 64" and sz: "klog_size s = min 64 (length ws)"
    and old: "\<And>i. i < klog_size s \<Longrightarrow> shows_call (klog_entries s ((klog_start s + i) mod 64)) (ws ! (length ws - klog_size s + i))"
    using inv by (auto simp: klog_inv_def)
  have "shows_call (klog_entries ?s ((klog_start ?s + i) mod 64)) ((ws @ [w]) ! (length (ws @ [w]) - klog_size ?s + i))"
    if i: "i < klog_size ?s" for i
  proof (cases "klog_size s < 64")
    case True
    then have n: "klog_size s = length ws" using sz by simp
    show ?thesis
    proof (cases "i = length ws")
      case True
      then show ?thesis using wr n \<open>klog_size s < 64\<close> by simp
    next
      case False
      then have lt: "i < length ws" using i wr(3) n True by simp
      have "(klog_start s + i) mod 64 \<noteq> ?i"
        using ring_index_inj [of "klog_size s" 64 i "klog_start s"] lt n True by simp
      then show ?thesis using old [of i] wr(2-4) lt n True by (simp add: nth_append)
    qed
  next
    case False
    then have n: "klog_size s = 64" "64 \<le> length ws" using sz by auto
    have idx: "(klog_start ?s + i) mod 64 = (klog_start s + Suc i) mod 64"
      using wr(4) False by (simp add: mod_add_left_eq)
    show ?thesis
    proof (cases "i = 63")
      case True
      then have "(klog_start ?s + i) mod 64 = klog_start s" using idx st by simp
      then show ?thesis using wr(1,3) n True False by (simp add: nth_append)
    next
      case F: False
      then have lt: "Suc i < 64" using i wr(3) n by simp
      have "(klog_start s + Suc i) mod 64 \<noteq> klog_start s"
        using ring_index_inj [of "Suc i" 64 0 "klog_start s"] lt st by simp
      moreover have "length ws - 63 + i = length ws - 64 + Suc i" using n by simp
      moreover have "length ws - 64 + Suc i < length ws" using n lt by linarith
      ultimately show ?thesis using old [of "Suc i"] wr(2,3) n lt False by (simp add: idx nth_append)
    qed
  qed
  moreover have "klog_start ?s < 64" using wr(4) st by simp
  moreover have "klog_size ?s = min 64 (length (ws @ [w]))" using wr(3) sz by auto
  ultimately show ?thesis by (simp add: klog_inv_def)
qed

section \<open>Properties\<close>

text \<open>C39: the log shows the last 64 writes since it was cleared, oldest first: entry \<open>i\<close> has the tick
  count and the level of its write, and the component and the message cut to 15 and 79
  characters and terminated.\<close>

theorem klog_keeps_last:
  "klog_inv (fold log_step ws (klog_clear s)) ws"
proof (induction ws rule: rev_induct)
  case Nil
  then show ?case by (simp add: klog_inv_def klog_clear_def)
next
  case (snoc w ws)
  then show ?case using klog_inv_step by simp
qed

end
