(* ===== verification/Net_Dns.thy ===== *)
theory Net_Dns
  imports Net_Udp Klog
begin

text \<open>
  The clients of UDP inside the stack: the resolver (\<^verbatim>\<open>net/dns.c\<close>) and the configuration of an
  interface (\<^verbatim>\<open>net/dhcp.c\<close>). Positions in a packet are natural numbers; a host name is a pointer to
  bytes, so the loops that look for its end are partial. \<^verbatim>\<open>dns_resolve\<close> polls the driver until an
  answer or 300 ticks: the loop is partial too, as nothing says that the clock advances.
\<close>

section \<open>The resolver\<close>

definition DNS_PORT :: u16 where "DNS_PORT = 53"
definition DNS_MAX_NAME :: int where "DNS_MAX_NAME = 128"
definition DNS_CACHE_SIZE :: nat where "DNS_CACHE_SIZE = 16"
definition DNS_QR :: u16 where "DNS_QR = 0x8000"
definition DNS_TYPE_A :: u8 where "DNS_TYPE_A = 1"
definition DNS_CLASS_IN :: u8 where "DNS_CLASS_IN = 1"
definition sizeof_dns_header :: nat where "sizeof_dns_header = 12"

record dns_cache_entry =
  dce_name :: bytes_at
  dce_ip :: u32
  dce_timestamp :: u32
  dce_valid :: bool

record dns_st = udp_st +
  dns_cache :: "dns_cache_entry list"
  dns_server_ip :: u32
  dns_next_id :: u16
  pending_id :: u16
  pending_result :: u32
  pending_done :: bool

definition dns_init :: "'a dns_st_scheme \<Rightarrow> 'a dns_st_scheme" where
  "dns_init s = s\<lparr>dns_cache := replicate DNS_CACHE_SIZE \<lparr>dce_name = (\<lambda>_. 0), dce_ip = 0, dce_timestamp = 0, dce_valid = False\<rparr>,
     dns_server_ip := 0, dns_next_id := 1, pending_done := False, pending_result := 0\<rparr>"

definition dns_set_server :: "u32 \<Rightarrow> 'a dns_st_scheme \<Rightarrow> 'a dns_st_scheme" where
  "dns_set_server server_ip s = s\<lparr>dns_server_ip := server_ip\<rparr>"

partial_function (option) dot_from :: "bytes_at \<Rightarrow> nat \<Rightarrow> nat option" where
  "dot_from name dot = (if name dot \<noteq> 0 \<and> name dot \<noteq> 46 then dot_from name (Suc dot) else Some dot)"

text \<open>The bytes written to \<^verbatim>\<open>buf\<close>, whose number is the result of the function; \<open>Some None\<close> is -1.\<close>

partial_function (option) dns_encode_loop :: "bytes_at \<Rightarrow> nat \<Rightarrow> nat \<Rightarrow> u8 list \<Rightarrow> u8 list option option" where
  "dns_encode_loop name p mx buf =
     (if name p \<noteq> 0 then
        do { dot \<leftarrow> dot_from name p;
             if dot - p \<le> 0 \<or> dot - p > 63 then Some None
             else if length buf + 1 + (dot - p) \<ge> mx then Some None
             else dns_encode_loop name (if name dot \<noteq> 0 then dot + 1 else dot) mx
                    (buf @ [of_nat (dot - p)] @ map name [p..<dot]) }
      else Some (if length buf + 1 \<ge> mx then None else Some (buf @ [0])))"

definition dns_encode_name :: "bytes_at \<Rightarrow> nat \<Rightarrow> u8 list option option" where
  "dns_encode_name name mx = dns_encode_loop name 0 mx []"

fun dns_cache_find :: "bytes_at \<Rightarrow> dns_cache_entry list \<Rightarrow> u32 option option" where
  "dns_cache_find hostname [] = Some None"
| "dns_cache_find hostname (e # es) =
     (if dce_valid e
      then do { c \<leftarrow> strcmp (dce_name e) hostname;
                if c = 0 then Some (Some (dce_ip e)) else dns_cache_find hostname es }
      else dns_cache_find hostname es)"

partial_function (option) dns_wait :: "('a dns_st_scheme \<Rightarrow> 'a dns_st_scheme option) \<Rightarrow> u32 \<Rightarrow> 'a dns_st_scheme \<Rightarrow>
    'a dns_st_scheme option" where
  "dns_wait poll start s =
     (if \<not> pending_done s \<and> ticks s - start < 300 then do { s1 \<leftarrow> poll s; dns_wait poll start s1 } else Some s)"

definition dns_cache_result :: "bytes_at \<Rightarrow> 'a dns_st_scheme \<Rightarrow> 'a dns_st_scheme" where
  "dns_cache_result hostname s =
     (case first_idx (\<lambda>e. \<not> dce_valid e) (dns_cache s) of None \<Rightarrow> s
      | Some i \<Rightarrow>
          let (k, name) = str_copy_loop 0 0 hostname DNS_MAX_NAME (dce_name (dns_cache s ! i))
          in s\<lparr>dns_cache := (dns_cache s)[i := \<lparr>dce_name = name(k := 0), dce_ip = pending_result s,
                 dce_timestamp = ticks s, dce_valid = True\<rparr>]\<rparr>)"

definition dns_query :: "u16 \<Rightarrow> u8 list \<Rightarrow> u8 list" where
  "dns_query ident name =
     st16 (htons ident) @ st16 (htons 0x0100) @ st16 (htons 1) @ replicate 6 0 @ name @ [0, DNS_TYPE_A, 0, DNS_CLASS_IN]"

text \<open>The end of \<^verbatim>\<open>dns_resolve\<close>: the query is sent and the answer awaited and cached.\<close>

definition dns_ask :: "('a dns_st_scheme \<Rightarrow> 'a dns_st_scheme option) \<Rightarrow> bytes_at \<Rightarrow> u8 list \<Rightarrow> 'a dns_st_scheme \<Rightarrow>
    (u32 \<times> 'a dns_st_scheme) option" where
  "dns_ask poll hostname buf s =
     (let s1 = s\<lparr>overrun := (overrun s \<or> length buf > 512), pending_done := False, pending_result := 0\<rparr>
      in do { (r, s2) \<leftarrow> udp_send poll (netif_get_default s1) (dns_server_ip s1) 53 DNS_PORT
                         (nth buf) (of_nat (length buf)) s1;
              s3 \<leftarrow> dns_wait poll (ticks s2) s2;
              if pending_done s3 \<and> pending_result s3 \<noteq> 0
              then Some (pending_result s3, dns_cache_result hostname s3)
              else Some (0, s3) })"

definition dns_resolve :: "('a dns_st_scheme \<Rightarrow> 'a dns_st_scheme option) \<Rightarrow> bytes_at \<Rightarrow> 'a dns_st_scheme \<Rightarrow>
    (u32 \<times> 'a dns_st_scheme) option" where
  "dns_resolve poll hostname s =
     (if dns_server_ip s = 0 then Some (0, s)
      else
        do { hit \<leftarrow> dns_cache_find hostname (dns_cache s);
             case hit of Some ip \<Rightarrow> Some (ip, s)
             | None \<Rightarrow>
                 let s1 = s\<lparr>pending_id := dns_next_id s, dns_next_id := dns_next_id s + 1\<rparr> in
                 do { encoded \<leftarrow> dns_encode_name hostname (512 - sizeof_dns_header);
                      case encoded of None \<Rightarrow> Some (0, s1)
                      | Some name \<Rightarrow> dns_ask poll hostname (dns_query (pending_id s1) name) s1 } })"

function dns_skip_name :: "bytes_at \<Rightarrow> nat \<Rightarrow> nat \<Rightarrow> nat" where
  "dns_skip_name data pos mx =
     (if pos < mx then
        (if data pos = 0 then pos + 1
         else if data pos AND 0xC0 = 0xC0 then pos + 2
         else dns_skip_name data (pos + 1 + unat (data pos)) mx)
      else mx)"
  by pat_completeness auto
termination
  by (relation "measure (\<lambda>(data, pos, mx). mx - pos)") auto

declare dns_skip_name.simps [simp del]

text \<open>The loop over the answers: the address of the first record of type A, if there is one.\<close>

fun dns_answers :: "bytes_at \<Rightarrow> nat \<Rightarrow> nat \<Rightarrow> nat \<Rightarrow> u32 option" where
  "dns_answers data len 0 pos = None"
| "dns_answers data len (Suc n) pos =
     (if pos < len then
        let pos = dns_skip_name data pos len in
        if pos + 10 > len then None
        else
          let rtype = (push_bit 8 (ucast (data pos)) OR ucast (data (pos + 1)) :: u16);
              rdlen = (push_bit 8 (ucast (data (pos + 8))) OR ucast (data (pos + 9)) :: u16);
              pos = pos + 10
          in if rtype = ucast DNS_TYPE_A \<and> rdlen = 4 \<and> pos + 4 \<le> len then Some (ld32 data pos)
             else dns_answers data len n (pos + unat rdlen)
      else None)"

definition dns_rx :: "bytes_at \<Rightarrow> u16 \<Rightarrow> 'a dns_st_scheme \<Rightarrow> 'a dns_st_scheme" where
  "dns_rx data len s =
     (if unat len < sizeof_dns_header then s
      else if ntohs (ld16 data 0) \<noteq> pending_id s then s
      else if ntohs (ld16 data 2) AND DNS_QR = 0 then s
      else
        let ancount = ntohs (ld16 data 6);
            qdcount = ntohs (ld16 data 4);
            pos = ((\<lambda>pos. dns_skip_name data pos (unat len) + 4) ^^ unat qdcount) sizeof_dns_header
        in case dns_answers data (unat len) (unat ancount) pos of
             Some ip \<Rightarrow> s\<lparr>pending_result := ip, pending_done := True\<rparr>
           | None \<Rightarrow> s)"

section \<open>DHCP\<close>

definition DHCP_DISCOVER :: u8 where "DHCP_DISCOVER = 1"
definition DHCP_OFFER :: u8 where "DHCP_OFFER = 2"
definition DHCP_REQUEST :: u8 where "DHCP_REQUEST = 3"
definition DHCP_ACK :: u8 where "DHCP_ACK = 5"
definition DHCP_SERVER_PORT :: u16 where "DHCP_SERVER_PORT = 67"
definition DHCP_CLIENT_PORT :: u16 where "DHCP_CLIENT_PORT = 68"
definition DHCP_MAGIC_COOKIE :: u32 where "DHCP_MAGIC_COOKIE = 0x63825363"

text \<open>The packet without its options, \<^verbatim>\<open>sizeof(dhcp_packet_t) - 312\<close>.\<close>

definition dhcp_fixed_len :: nat where "dhcp_fixed_len = 240"

record dhcp_result =
  dr_ip_addr :: u32
  dr_netmask :: u32
  dr_gateway :: u32
  dr_dns_server :: u32
  dr_lease_time :: u32
  dr_ok :: bool

record dhcp_st = dns_st +
  last_result :: dhcp_result
  dhcp_xid :: u32
  dhcp_state :: int
  klog :: klog_st

definition dhcp_add_option :: "u8 list \<Rightarrow> u8 \<Rightarrow> u8 \<Rightarrow> u8 list \<Rightarrow> u8 list" where
  "dhcp_add_option opts code len data = opts @ [code, len] @ take (unat len) data"

definition dhcp_packet :: "u32 \<Rightarrow> u8 list \<Rightarrow> u8 list \<Rightarrow> u8 list" where
  "dhcp_packet xid mac opts =
     [1, 1, 6, 0] @ st32 (htonl xid) @ st16 0 @ st16 (htons 0x8000) @ replicate 16 0 @
     take 6 mac @ replicate (10 + 64 + 128) 0 @ st32 (htonl DHCP_MAGIC_COOKIE) @ opts"

definition dhcp_discover :: "('a dhcp_st_scheme \<Rightarrow> 'a dhcp_st_scheme option) \<Rightarrow> nat option \<Rightarrow> 'a dhcp_st_scheme \<Rightarrow>
    (int \<times> 'a dhcp_st_scheme) option" where
  "dhcp_discover poll iface s =
     (case iface of None \<Rightarrow> Some (-1, s)
      | Some i \<Rightarrow>
          let s1 = s\<lparr>dhcp_xid := 0x12345678, dhcp_state := 1,
                     last_result := \<lparr>dr_ip_addr = 0, dr_netmask = 0, dr_gateway = 0, dr_dns_server = 0, dr_lease_time = 0, dr_ok = False\<rparr>\<rparr>;
              opts = dhcp_add_option (dhcp_add_option [] 53 1 [DHCP_DISCOVER]) 55 3 [1, 3, 6] @ [255];
              pkt = dhcp_packet (dhcp_xid s1) (nif_mac (interfaces s1 ! i)) opts;
              saved_ip = ip_addr (interfaces s1 ! i);
              s2 = s1\<lparr>interfaces := (interfaces s1)[i := (interfaces s1 ! i)\<lparr>ip_addr := 0\<rparr>]\<rparr>
          in do { (r, s3) \<leftarrow> udp_send poll (Some i) 0xFFFFFFFF DHCP_CLIENT_PORT DHCP_SERVER_PORT
                               (nth pkt) (of_nat (length pkt)) s2;
                  Some (0, s3\<lparr>interfaces := (interfaces s3)[i := (interfaces s3 ! i)\<lparr>ip_addr := saved_ip\<rparr>]\<rparr>) })"

text \<open>The options read so far: message type, subnet mask, router, name server, lease.\<close>

record dhcp_options =
  do_msg_type :: u8
  do_subnet_mask :: u32
  do_router :: u32
  do_dns :: u32
  do_lease :: u32

definition dhcp_option :: "u8 \<Rightarrow> u8 \<Rightarrow> bytes_at \<Rightarrow> dhcp_options \<Rightarrow> dhcp_options" where
  "dhcp_option code olen oval d =
     (if code = 53 then d\<lparr>do_msg_type := oval 0\<rparr>
      else if code = 1 then (if olen \<ge> 4 then d\<lparr>do_subnet_mask := ld32 oval 0\<rparr> else d)
      else if code = 3 then (if olen \<ge> 4 then d\<lparr>do_router := ld32 oval 0\<rparr> else d)
      else if code = 6 then (if olen \<ge> 4 then d\<lparr>do_dns := ld32 oval 0\<rparr> else d)
      else if code = 51 then (if olen \<ge> 4 then d\<lparr>do_lease := ld32 oval 0\<rparr> else d)
      else d)"

function dhcp_parse_options :: "bytes_at \<Rightarrow> nat \<Rightarrow> nat \<Rightarrow> dhcp_options \<Rightarrow> dhcp_options" where
  "dhcp_parse_options opts max_opts i d =
     (if i < max_opts \<and> opts i \<noteq> 255 then
        (if opts i = 0 then dhcp_parse_options opts max_opts (i + 1) d
         else dhcp_parse_options opts max_opts (i + 2 + unat (opts (i + 1)))
                (dhcp_option (opts i) (opts (i + 1)) (\<lambda>k. opts (i + 2 + k)) d))
      else d)"
  by pat_completeness auto
termination
  by (relation "measure (\<lambda>(opts, max_opts, i, d). max_opts - i)") auto

declare dhcp_parse_options.simps [simp del]

definition dhcp_send_request :: "('a dhcp_st_scheme \<Rightarrow> 'a dhcp_st_scheme option) \<Rightarrow> nat \<Rightarrow> u32 \<Rightarrow> u32 \<Rightarrow> 'a dhcp_st_scheme \<Rightarrow>
    'a dhcp_st_scheme option" where
  "dhcp_send_request poll iface offered_ip server_ip s =
     (let s1 = s\<lparr>dhcp_state := 2\<rparr>;
          opts = dhcp_add_option (dhcp_add_option (dhcp_add_option [] 53 1 [DHCP_REQUEST]) 50 4 (st32 offered_ip)) 54 4
                   (st32 server_ip) @ [255];
          req = dhcp_packet (dhcp_xid s1) (nif_mac (interfaces s1 ! iface)) opts
      in map_option snd (udp_send poll (Some iface) 0xFFFFFFFF DHCP_CLIENT_PORT DHCP_SERVER_PORT
           (nth req) (of_nat (length req)) s1))"

definition dhcp_apply :: "nat \<Rightarrow> u32 \<Rightarrow> dhcp_options \<Rightarrow> 'a dhcp_st_scheme \<Rightarrow> 'a dhcp_st_scheme" where
  "dhcp_apply iface offered_ip d s =
     (let s1 = s\<lparr>last_result := \<lparr>dr_ip_addr = offered_ip, dr_netmask = do_subnet_mask d, dr_gateway = do_router d,
                 dr_dns_server = do_dns d, dr_lease_time = ntohl (do_lease d), dr_ok = True\<rparr>, dhcp_state := 3\<rparr>;
          s2 = netif_set_addr (Some iface) offered_ip (do_subnet_mask d) (do_router d) s1;
          s3 = s2\<lparr>interfaces := (interfaces s2)[iface := (interfaces s2 ! iface)\<lparr>dns_server := do_dns d\<rparr>]\<rparr>;
          s4 = (if do_router d \<noteq> 0 then route_add 0 0 (do_router d) (Some iface) s3 else s3);
          s5 = route_add (offered_ip AND do_subnet_mask d) (do_subnet_mask d) 0 (Some iface) s4;
          s6 = dns_set_server (do_dns d) s5
      in s6\<lparr>klog := klog_write (ticks s6) KLOG_LEVEL_INFO (Some (c_string ''dhcp''))
                      (Some (c_string ''Configuracion IP obtenida'')) (klog s6)\<rparr>)"

definition dhcp_handle_reply :: "('a dhcp_st_scheme \<Rightarrow> 'a dhcp_st_scheme option) \<Rightarrow> nat \<Rightarrow> bytes_at \<Rightarrow> u16 \<Rightarrow>
    'a dhcp_st_scheme \<Rightarrow> 'a dhcp_st_scheme option" where
  "dhcp_handle_reply poll iface data len s =
     (if unat len < dhcp_fixed_len then Some s
      else if data 0 \<noteq> 2 then Some s
      else if ntohl (ld32 data 4) \<noteq> dhcp_xid s then Some s
      else
        let max_opts = min 312 (unat len - dhcp_fixed_len);
            d = dhcp_parse_options (\<lambda>k. data (dhcp_fixed_len + k)) max_opts 0
                  \<lparr>do_msg_type = 0, do_subnet_mask = 0, do_router = 0, do_dns = 0, do_lease = 0\<rparr>
        in if do_msg_type d = DHCP_OFFER \<and> dhcp_state s = 1
           then dhcp_send_request poll iface (ld32 data 16) (ld32 data 20) s
           else if do_msg_type d = DHCP_ACK \<and> dhcp_state s = 2 then Some (dhcp_apply iface (ld32 data 16) d s)
           else Some s)"

definition dhcp_get_result :: "'a dhcp_st_scheme \<Rightarrow> dhcp_result" where
  "dhcp_get_result s = last_result s"

section \<open>Monotonicity in the driver\<close>

lemma dhcp_handle_reply_mono [partial_function_mono]:
  assumes [partial_function_mono]: "\<And>t. mono_option (\<lambda>f. P f t)"
  shows "mono_option (\<lambda>f. dhcp_handle_reply (P f) iface data len s)"
  unfolding dhcp_handle_reply_def dhcp_send_request_def by (intro partial_function_mono)

end
