(* ===== verification/Net_Tcp.thy ===== *)
theory Net_Tcp
  imports Net_Dns
begin

text \<open>
  TCP, \<^verbatim>\<open>net/tcp.c\<close>. A pointer to a socket is its index. Sending a segment may poll the driver and so
  run the receive path on the same socket: every access to a socket after a call reads the table
  again. The busy waits of \<^verbatim>\<open>connect\<close> and \<^verbatim>\<open>accept\<close> are partial loops; \<open>irq\<close> is what interrupts do to
  the state between two reads of the condition. The counter \<^verbatim>\<open>retransmit_count\<close>, which nothing reads, is
  left out.
\<close>

section \<open>Sockets and segments\<close>

definition TCP_HDR_MIN_LEN :: u16 where "TCP_HDR_MIN_LEN = 20"
definition TCP_MAX_SOCKETS :: nat where "TCP_MAX_SOCKETS = 16"
definition TCP_RX_BUF_SIZE :: u16 where "TCP_RX_BUF_SIZE = 8192"
definition TCP_MSS :: u16 where "TCP_MSS = 1460"
definition TCP_WINDOW_SIZE :: u16 where "TCP_WINDOW_SIZE = 8192"
definition TCP_FIN :: u8 where "TCP_FIN = 0x01"
definition TCP_SYN :: u8 where "TCP_SYN = 0x02"
definition TCP_RST :: u8 where "TCP_RST = 0x04"
definition TCP_PSH :: u8 where "TCP_PSH = 0x08"
definition TCP_ACK :: u8 where "TCP_ACK = 0x10"

lemmas tcp_flag_defs = TCP_FIN_def TCP_SYN_def TCP_RST_def TCP_PSH_def TCP_ACK_def

datatype tcp_state = TCP_CLOSED | TCP_LISTEN | TCP_SYN_SENT | TCP_SYN_RECEIVED | TCP_ESTABLISHED | TCP_FIN_WAIT_1 |
  TCP_FIN_WAIT_2 | TCP_CLOSE_WAIT | TCP_CLOSING | TCP_LAST_ACK | TCP_TIME_WAIT

record tcp_socket =
  ts_used :: bool
  ts_state :: tcp_state
  ts_local_port :: u16
  ts_remote_ip :: u32
  ts_remote_port :: u16
  ts_snd_una :: u32
  ts_snd_nxt :: u32
  ts_rcv_nxt :: u32
  ts_rcv_wnd :: u32
  ts_rx_buf :: bytes_at
  ts_rx_len :: u16
  ts_rx_ready :: bool
  ts_last_ack_tick :: u32

record tcp_st = dhcp_st +
  tcp_sockets :: "tcp_socket list"
  tcp_isn :: u32

definition zero_tcp_socket :: tcp_socket where
  "zero_tcp_socket = \<lparr>ts_used = False, ts_state = TCP_CLOSED, ts_local_port = 0, ts_remote_ip = 0, ts_remote_port = 0,
     ts_snd_una = 0, ts_snd_nxt = 0, ts_rcv_nxt = 0, ts_rcv_wnd = 0, ts_rx_buf = (\<lambda>_. 0), ts_rx_len = 0,
     ts_rx_ready = False, ts_last_ack_tick = 0\<rparr>"

text \<open>Reading and writing the socket behind a pointer.\<close>

definition sk_at :: "nat \<Rightarrow> 'a tcp_st_scheme \<Rightarrow> tcp_socket" where
  "sk_at i s = tcp_sockets s ! i"

definition sk_upd :: "nat \<Rightarrow> (tcp_socket \<Rightarrow> tcp_socket) \<Rightarrow> 'a tcp_st_scheme \<Rightarrow> 'a tcp_st_scheme" where
  "sk_upd i f s = s\<lparr>tcp_sockets := (tcp_sockets s)[i := f (tcp_sockets s ! i)]\<rparr>"

definition tcp_checksum :: "u32 \<Rightarrow> u32 \<Rightarrow> bytes_at \<Rightarrow> u16 \<Rightarrow> u16" where
  "tcp_checksum src_ip dst_ip tcp_seg tcp_len =
     (let pseudo = st32 src_ip @ st32 dst_ip @ [0, IP_PROTO_TCP] @ st16 (htons tcp_len);
          acc = sum_words (nth pseudo) 0 12 0
      in ucast (NOT (fold_carries (sum_words tcp_seg 0 (unat tcp_len) acc))))"

definition tcp_header :: "u16 \<Rightarrow> u16 \<Rightarrow> u32 \<Rightarrow> u32 \<Rightarrow> u8 \<Rightarrow> u16 \<Rightarrow> u16 \<Rightarrow> u8 list" where
  "tcp_header src_port dst_port sequence ack flags window checksum =
     st16 (htons src_port) @ st16 (htons dst_port) @ st32 (htonl sequence) @ st32 (htonl ack) @
     [push_bit 4 (20 div 4), flags] @ st16 (htons window) @ st16 checksum @ st16 0"

text \<open>The callers that pass no payload pass the length 0 with it.\<close>

definition tcp_send_segment :: "('a tcp_st_scheme \<Rightarrow> 'a tcp_st_scheme option) \<Rightarrow> nat option \<Rightarrow> u32 \<Rightarrow> u16 \<Rightarrow> u16 \<Rightarrow> u32 \<Rightarrow> u32 \<Rightarrow>
    u8 \<Rightarrow> u16 \<Rightarrow> bytes_at \<Rightarrow> u16 \<Rightarrow> 'a tcp_st_scheme \<Rightarrow> (int \<times> 'a tcp_st_scheme) option" where
  "tcp_send_segment poll iface dst_ip src_port dst_port sequence ack flags window payload payload_len s =
     (let tcp_len = TCP_HDR_MIN_LEN + payload_len in
      if tcp_len > ETH_MTU - 20 then Some (-1, s)
      else
        let out_iface = (case iface of Some i \<Rightarrow> Some i | None \<Rightarrow> netif_get_default s);
            src_ip = (case out_iface of Some i \<Rightarrow> ip_addr (interfaces s ! i) | None \<Rightarrow> 0);
            buf = (\<lambda>checksum. tcp_header src_port dst_port sequence ack flags window checksum @
                               map payload [0..<unat payload_len]);
            checksum = tcp_checksum src_ip dst_ip (nth (buf 0)) tcp_len;
            s1 = s\<lparr>overrun := (overrun s \<or> unat TCP_HDR_MIN_LEN + unat payload_len > unat ETH_MTU)\<rparr>
        in ipv4_send poll out_iface dst_ip IP_PROTO_TCP (nth (buf checksum)) tcp_len s1)"

definition tcp_init :: "'a tcp_st_scheme \<Rightarrow> 'a tcp_st_scheme" where
  "tcp_init s = s\<lparr>tcp_sockets := replicate TCP_MAX_SOCKETS zero_tcp_socket, tcp_isn := ticks s * 12345 + 67890\<rparr>"

section \<open>Receiving\<close>

text \<open>What \<^verbatim>\<open>tcp_rx\<close> reads from a segment before it looks for the socket.\<close>

record tcp_seg =
  sg_iface :: nat
  sg_src_ip :: u32
  sg_src_port :: u16
  sg_dst_port :: u16
  sg_seq :: u32
  sg_ack :: u32
  sg_flags :: u8
  sg_payload :: bytes_at
  sg_payload_len :: u16

definition tcp_parse :: "nat \<Rightarrow> u32 \<Rightarrow> bytes_at \<Rightarrow> u16 \<Rightarrow> tcp_seg" where
  "tcp_parse iface src_ip data len =
     (let data_off = drop_bit 4 (data 12) * 4
      in \<lparr>sg_iface = iface, sg_src_ip = src_ip, sg_src_port = ntohs (ld16 data 0), sg_dst_port = ntohs (ld16 data 2),
          sg_seq = ntohl (ld32 data 4), sg_ack = ntohl (ld32 data 8), sg_flags = data 13,
          sg_payload = (\<lambda>k. data (unat data_off + k)), sg_payload_len = len - ucast data_off\<rparr>)"

definition has_flag :: "tcp_seg \<Rightarrow> u8 \<Rightarrow> bool" where
  "has_flag g f \<longleftrightarrow> sg_flags g AND f \<noteq> 0"

definition tcp_find :: "tcp_seg \<Rightarrow> tcp_socket list \<Rightarrow> nat option" where
  "tcp_find g sks =
     (case first_idx (\<lambda>k. ts_used k \<and> ts_local_port k = sg_dst_port g \<and> ts_remote_port k = sg_src_port g \<and>
                          ts_remote_ip k = sg_src_ip g) sks of
        Some i \<Rightarrow> Some i
      | None \<Rightarrow>
          (case first_idx (\<lambda>k. ts_used k \<and> ts_state k = TCP_LISTEN \<and> ts_local_port k = sg_dst_port g) sks of
             Some i \<Rightarrow> Some i
           | None \<Rightarrow> first_idx (\<lambda>k. ts_used k \<and> ts_state k = TCP_SYN_SENT \<and> ts_remote_ip k = sg_src_ip g \<and>
                                    ts_remote_port k = sg_src_port g) sks))"

text \<open>A segment without data on the connection of a socket, as the branches of \<^verbatim>\<open>tcp_rx\<close> send it.\<close>

definition tcp_reply :: "('a tcp_st_scheme \<Rightarrow> 'a tcp_st_scheme option) \<Rightarrow> tcp_seg \<Rightarrow> nat \<Rightarrow> u8 \<Rightarrow> u16 \<Rightarrow> 'a tcp_st_scheme \<Rightarrow>
    'a tcp_st_scheme option" where
  "tcp_reply poll g i flags window s =
     map_option snd (tcp_send_segment poll (Some (sg_iface g)) (sg_src_ip g) (ts_local_port (sk_at i s)) (sg_src_port g)
       (ts_snd_nxt (sk_at i s)) (ts_rcv_nxt (sk_at i s)) flags window (\<lambda>_. 0) 0 s)"

definition tcp_rx_listen :: "('a tcp_st_scheme \<Rightarrow> 'a tcp_st_scheme option) \<Rightarrow> tcp_seg \<Rightarrow> nat \<Rightarrow> 'a tcp_st_scheme \<Rightarrow>
    'a tcp_st_scheme option" where
  "tcp_rx_listen poll g i s =
     (if has_flag g TCP_SYN then
        let isn = tcp_isn s;
            s1 = sk_upd i (\<lambda>k. k\<lparr>ts_remote_ip := sg_src_ip g, ts_remote_port := sg_src_port g, ts_rcv_nxt := sg_seq g + 1,
                   ts_snd_nxt := isn, ts_snd_una := isn, ts_state := TCP_SYN_RECEIVED\<rparr>) (s\<lparr>tcp_isn := isn + 1\<rparr>)
        in do { s2 \<leftarrow> tcp_reply poll g i (TCP_SYN OR TCP_ACK) TCP_WINDOW_SIZE s1;
                Some (sk_upd i (\<lambda>k. k\<lparr>ts_snd_nxt := ts_snd_nxt k + 1\<rparr>) s2) }
      else Some s)"

definition tcp_rx_syn_sent :: "('a tcp_st_scheme \<Rightarrow> 'a tcp_st_scheme option) \<Rightarrow> tcp_seg \<Rightarrow> nat \<Rightarrow> 'a tcp_st_scheme \<Rightarrow>
    'a tcp_st_scheme option" where
  "tcp_rx_syn_sent poll g i s =
     (if sg_flags g AND (TCP_SYN OR TCP_ACK) = TCP_SYN OR TCP_ACK then
        tcp_reply poll g i TCP_ACK TCP_WINDOW_SIZE
          (sk_upd i (\<lambda>k. k\<lparr>ts_rcv_nxt := sg_seq g + 1, ts_snd_una := sg_ack g, ts_state := TCP_ESTABLISHED\<rparr>) s)
      else Some s)"

definition tcp_rx_syn_received :: "tcp_seg \<Rightarrow> nat \<Rightarrow> 'a tcp_st_scheme \<Rightarrow> 'a tcp_st_scheme" where
  "tcp_rx_syn_received g i s =
     (if has_flag g TCP_ACK then sk_upd i (\<lambda>k. k\<lparr>ts_snd_una := sg_ack g, ts_state := TCP_ESTABLISHED\<rparr>) s else s)"

text \<open>In-order data: what fits is appended to the receive buffer.\<close>

definition tcp_append :: "tcp_seg \<Rightarrow> tcp_socket \<Rightarrow> tcp_socket" where
  "tcp_append g k =
     (let space = TCP_RX_BUF_SIZE - ts_rx_len k;
          copy = (if sg_payload_len g < space then sg_payload_len g else space);
          k1 = (if copy > 0
                then k\<lparr>ts_rx_buf := copy_in (unat (ts_rx_len k)) (sg_payload g) copy (ts_rx_buf k),
                       ts_rx_len := ts_rx_len k + copy, ts_rx_ready := True\<rparr>
                else k)
      in k1\<lparr>ts_rcv_nxt := ts_rcv_nxt k1 + ucast (sg_payload_len g)\<rparr>)"

definition tcp_rx_established :: "('a tcp_st_scheme \<Rightarrow> 'a tcp_st_scheme option) \<Rightarrow> tcp_seg \<Rightarrow> nat \<Rightarrow> 'a tcp_st_scheme \<Rightarrow>
    'a tcp_st_scheme option" where
  "tcp_rx_established poll g i s =
     do { s1 \<leftarrow>
            (if has_flag g TCP_FIN then
               tcp_reply poll g i TCP_ACK TCP_WINDOW_SIZE
                 (sk_upd i (\<lambda>k. k\<lparr>ts_rcv_nxt := sg_seq g + ucast (sg_payload_len g) + 1, ts_state := TCP_CLOSE_WAIT\<rparr>) s)
             else if sg_payload_len g > 0 then
               tcp_reply poll g i TCP_ACK TCP_WINDOW_SIZE
                 (if sg_seq g = ts_rcv_nxt (sk_at i s) then sk_upd i (tcp_append g) s else s)
             else if has_flag g TCP_ACK then Some (sk_upd i (\<lambda>k. k\<lparr>ts_snd_una := sg_ack g\<rparr>) s)
             else Some s);
          Some (if has_flag g TCP_RST then sk_upd i (\<lambda>k. k\<lparr>ts_state := TCP_CLOSED, ts_used := False\<rparr>) s1 else s1) }"

definition tcp_rx_fin_wait_1 :: "('a tcp_st_scheme \<Rightarrow> 'a tcp_st_scheme option) \<Rightarrow> tcp_seg \<Rightarrow> nat \<Rightarrow> 'a tcp_st_scheme \<Rightarrow>
    'a tcp_st_scheme option" where
  "tcp_rx_fin_wait_1 poll g i s =
     (if has_flag g TCP_ACK \<and> has_flag g TCP_FIN then
        tcp_reply poll g i TCP_ACK 0 (sk_upd i (\<lambda>k. k\<lparr>ts_rcv_nxt := sg_seq g + 1, ts_state := TCP_TIME_WAIT\<rparr>) s)
      else if has_flag g TCP_ACK then Some (sk_upd i (\<lambda>k. k\<lparr>ts_snd_una := sg_ack g, ts_state := TCP_FIN_WAIT_2\<rparr>) s)
      else if has_flag g TCP_FIN then
        tcp_reply poll g i TCP_ACK 0 (sk_upd i (\<lambda>k. k\<lparr>ts_rcv_nxt := sg_seq g + 1, ts_state := TCP_CLOSING\<rparr>) s)
      else Some s)"

definition tcp_rx_fin_wait_2 :: "('a tcp_st_scheme \<Rightarrow> 'a tcp_st_scheme option) \<Rightarrow> tcp_seg \<Rightarrow> nat \<Rightarrow> 'a tcp_st_scheme \<Rightarrow>
    'a tcp_st_scheme option" where
  "tcp_rx_fin_wait_2 poll g i s =
     (if has_flag g TCP_FIN then
        tcp_reply poll g i TCP_ACK 0 (sk_upd i (\<lambda>k. k\<lparr>ts_rcv_nxt := sg_seq g + 1, ts_state := TCP_TIME_WAIT\<rparr>) s)
      else Some s)"

definition tcp_dispatch :: "('a tcp_st_scheme \<Rightarrow> 'a tcp_st_scheme option) \<Rightarrow> tcp_seg \<Rightarrow> nat \<Rightarrow> 'a tcp_st_scheme \<Rightarrow>
    'a tcp_st_scheme option" where
  "tcp_dispatch poll g i s =
     (case ts_state (sk_at i s) of
        TCP_LISTEN \<Rightarrow> tcp_rx_listen poll g i s
      | TCP_SYN_SENT \<Rightarrow> tcp_rx_syn_sent poll g i s
      | TCP_SYN_RECEIVED \<Rightarrow> Some (tcp_rx_syn_received g i s)
      | TCP_ESTABLISHED \<Rightarrow> tcp_rx_established poll g i s
      | TCP_FIN_WAIT_1 \<Rightarrow> tcp_rx_fin_wait_1 poll g i s
      | TCP_FIN_WAIT_2 \<Rightarrow> tcp_rx_fin_wait_2 poll g i s
      | TCP_CLOSING \<Rightarrow> Some (if has_flag g TCP_ACK then sk_upd i (\<lambda>k. k\<lparr>ts_state := TCP_TIME_WAIT\<rparr>) s else s)
      | TCP_LAST_ACK \<Rightarrow>
          Some (if has_flag g TCP_ACK then sk_upd i (\<lambda>k. k\<lparr>ts_state := TCP_CLOSED, ts_used := False\<rparr>) s else s)
      | TCP_CLOSE_WAIT \<Rightarrow> Some s
      | TCP_TIME_WAIT \<Rightarrow> Some (sk_upd i (\<lambda>k. k\<lparr>ts_last_ack_tick := ticks s\<rparr>) s)
      | TCP_CLOSED \<Rightarrow> Some s)"

definition tcp_rx :: "('a tcp_st_scheme \<Rightarrow> 'a tcp_st_scheme option) \<Rightarrow> nat \<Rightarrow> u32 \<Rightarrow> u32 \<Rightarrow> bytes_at \<Rightarrow> u16 \<Rightarrow>
    'a tcp_st_scheme \<Rightarrow> 'a tcp_st_scheme option" where
  "tcp_rx poll iface src_ip dst_ip data len s =
     (if len < TCP_HDR_MIN_LEN then Some s
      else
        let g = tcp_parse iface src_ip data len in
        case tcp_find g (tcp_sockets s) of
          None \<Rightarrow>
            (if \<not> has_flag g TCP_RST
             then map_option snd (tcp_send_segment poll (Some iface) src_ip (sg_dst_port g) (sg_src_port g) 0 (sg_seq g + 1)
                    (TCP_RST OR TCP_ACK) 0 (\<lambda>_. 0) 0 s)
             else Some s)
        | Some i \<Rightarrow> tcp_dispatch poll g i s)"

definition tcp_tick :: "'a tcp_st_scheme \<Rightarrow> 'a tcp_st_scheme" where
  "tcp_tick s = s\<lparr>tcp_sockets := map (\<lambda>k.
     if ts_used k \<and> ts_state k = TCP_TIME_WAIT \<and> ticks s - ts_last_ack_tick k > 200
     then k\<lparr>ts_state := TCP_CLOSED, ts_used := False\<rparr> else k) (tcp_sockets s)\<rparr>"

section \<open>The socket interface\<close>

definition tcp_bad_socket :: "int \<Rightarrow> 'a tcp_st_scheme \<Rightarrow> bool" where
  "tcp_bad_socket sock s \<longleftrightarrow> sock < 0 \<or> sock \<ge> int TCP_MAX_SOCKETS \<or> \<not> ts_used (sk_at (nat sock) s)"

definition tcp_socket_open :: "'a tcp_st_scheme \<Rightarrow> int \<times> 'a tcp_st_scheme" where
  "tcp_socket_open s =
     (case first_idx (\<lambda>k. \<not> ts_used k) (tcp_sockets s) of None \<Rightarrow> (-1, s)
      | Some i \<Rightarrow> (int i, sk_upd i (\<lambda>_. zero_tcp_socket\<lparr>ts_used := True, ts_state := TCP_CLOSED,
                                     ts_rcv_wnd := ucast TCP_WINDOW_SIZE\<rparr>) s))"

partial_function (option) tcp_wait :: "('a tcp_st_scheme \<Rightarrow> 'a tcp_st_scheme option) \<Rightarrow> ('a tcp_st_scheme \<Rightarrow> bool) \<Rightarrow> u32 \<Rightarrow> u32 \<Rightarrow>
    'a tcp_st_scheme \<Rightarrow> 'a tcp_st_scheme option" where
  "tcp_wait irq waiting start limit s =
     (if waiting s \<and> ticks s - start < limit then do { s1 \<leftarrow> irq s; tcp_wait irq waiting start limit s1 } else Some s)"

definition tcp_socket_connect :: "('a tcp_st_scheme \<Rightarrow> 'a tcp_st_scheme option) \<Rightarrow> ('a tcp_st_scheme \<Rightarrow> 'a tcp_st_scheme option) \<Rightarrow>
    int \<Rightarrow> u32 \<Rightarrow> u16 \<Rightarrow> 'a tcp_st_scheme \<Rightarrow> (int \<times> 'a tcp_st_scheme) option" where
  "tcp_socket_connect poll irq sock dst_ip dst_port s =
     (if tcp_bad_socket sock s then Some (-1, s)
      else
        let i = nat sock; isn = tcp_isn s;
            s1 = sk_upd i (\<lambda>k. k\<lparr>ts_remote_ip := dst_ip, ts_remote_port := dst_port, ts_local_port := ucast (49152 + isn mod 16384),
                   ts_snd_nxt := isn + 1, ts_snd_una := isn + 1, ts_state := TCP_SYN_SENT\<rparr>) (s\<lparr>tcp_isn := isn + 2\<rparr>)
        in do { (r, s2) \<leftarrow> tcp_send_segment poll None dst_ip (ts_local_port (sk_at i s1)) dst_port (ts_snd_nxt (sk_at i s1)) 0
                             TCP_SYN TCP_WINDOW_SIZE (\<lambda>_. 0) 0 s1;
                let s3 = sk_upd i (\<lambda>k. k\<lparr>ts_snd_nxt := ts_snd_nxt k + 1\<rparr>) s2 in
                do { s4 \<leftarrow> tcp_wait irq (\<lambda>s. ts_state (sk_at i s) = TCP_SYN_SENT) (ticks s3) 500 s3;
                     Some (if ts_state (sk_at i s4) = TCP_ESTABLISHED then 0 else -1, s4) } })"

definition tcp_socket_listen :: "int \<Rightarrow> u16 \<Rightarrow> 'a tcp_st_scheme \<Rightarrow> int \<times> 'a tcp_st_scheme" where
  "tcp_socket_listen sock port s =
     (if tcp_bad_socket sock s then (-1, s)
      else (0, sk_upd (nat sock) (\<lambda>k. k\<lparr>ts_local_port := port, ts_state := TCP_LISTEN\<rparr>) s))"

definition tcp_socket_accept :: "('a tcp_st_scheme \<Rightarrow> 'a tcp_st_scheme option) \<Rightarrow> int \<Rightarrow> 'a tcp_st_scheme \<Rightarrow>
    (int \<times> 'a tcp_st_scheme) option" where
  "tcp_socket_accept irq sock s =
     (if tcp_bad_socket sock s then Some (-1, s)
      else if ts_state (sk_at (nat sock) s) \<noteq> TCP_LISTEN then Some (-1, s)
      else
        let i = nat sock; start = ticks s in
        do { s1 \<leftarrow> tcp_wait irq (\<lambda>s. ts_state (sk_at i s) \<noteq> TCP_ESTABLISHED \<and> ts_state (sk_at i s) \<noteq> TCP_SYN_RECEIVED) start 3000 s;
             s2 \<leftarrow> (if ts_state (sk_at i s1) = TCP_SYN_RECEIVED
                   then tcp_wait irq (\<lambda>s. ts_state (sk_at i s) = TCP_SYN_RECEIVED) start 3000 s1
                   else Some s1);
             Some (if ts_state (sk_at i s2) = TCP_ESTABLISHED then sock else -1, s2) })"

function tcp_send_loop :: "('a tcp_st_scheme \<Rightarrow> 'a tcp_st_scheme option) \<Rightarrow> nat \<Rightarrow> bytes_at \<Rightarrow> u16 \<Rightarrow> u16 \<Rightarrow> 'a tcp_st_scheme \<Rightarrow>
    (u16 \<times> 'a tcp_st_scheme) option" where
  "tcp_send_loop poll i data len sent s =
     (if sent < len then
        let chunk = (if len - sent > TCP_MSS then TCP_MSS else len - sent);
            k = sk_at i s
        in do { (r, s1) \<leftarrow> tcp_send_segment poll None (ts_remote_ip k) (ts_local_port k) (ts_remote_port k) (ts_snd_nxt k)
                             (ts_rcv_nxt k) (TCP_ACK OR TCP_PSH) TCP_WINDOW_SIZE (\<lambda>j. data (unat sent + j)) chunk s;
                tcp_send_loop poll i data len (sent + chunk) (sk_upd i (\<lambda>k. k\<lparr>ts_snd_nxt := ts_snd_nxt k + ucast chunk\<rparr>) s1) }
      else Some (sent, s))"
  by pat_completeness auto

lemma tcp_chunk_progress:
  fixes sent len :: u16
  assumes "sent < len" and "chunk = (if len - sent > TCP_MSS then TCP_MSS else len - sent)"
  shows "unat (sent + chunk) = unat sent + unat chunk" "0 < unat chunk" "unat sent + unat chunk \<le> unat len"
proof -
  have d: "unat (len - sent) = unat len - unat sent" using assms(1) by (simp add: unat_sub_if' word_less_nat_alt)
  then have c: "unat chunk \<le> unat len - unat sent"
    using assms(2) by (auto simp: TCP_MSS_def word_less_nat_alt split: if_splits)
  show "0 < unat chunk" using assms d by (auto simp: TCP_MSS_def word_less_nat_alt)
  show le: "unat sent + unat chunk \<le> unat len" using c assms(1) by (simp add: word_less_nat_alt)
  then show "unat (sent + chunk) = unat sent + unat chunk"
    using unat_u16_less [of len] by (simp add: unat_plus_if')
qed

lemma tcp_chunk_less:
  fixes sent len :: u16
  assumes "sent < len" and "chunk = (if len - sent > TCP_MSS then TCP_MSS else len - sent)"
  shows "unat len - unat (sent + chunk) < unat len - unat sent"
  using tcp_chunk_progress [OF assms] by linarith

termination tcp_send_loop
  apply (relation "measure (\<lambda>(poll, i, data, len, sent, s). unat len - unat sent)")
   apply simp
  apply (simp only: in_measure prod.case)
  apply (erule tcp_chunk_less, rule refl)
  done

declare tcp_send_loop.simps [simp del]

definition tcp_socket_send :: "('a tcp_st_scheme \<Rightarrow> 'a tcp_st_scheme option) \<Rightarrow> int \<Rightarrow> bytes_at \<Rightarrow> u16 \<Rightarrow> 'a tcp_st_scheme \<Rightarrow>
    (int \<times> 'a tcp_st_scheme) option" where
  "tcp_socket_send poll sock data len s =
     (if tcp_bad_socket sock s then Some (-1, s)
      else if ts_state (sk_at (nat sock) s) \<noteq> TCP_ESTABLISHED \<and> ts_state (sk_at (nat sock) s) \<noteq> TCP_CLOSE_WAIT then Some (-1, s)
      else do { (sent, s1) \<leftarrow> tcp_send_loop poll (nat sock) data len 0 s; Some (int (unat sent), s1) })"

text \<open>The bytes after the first \<open>copy\<close> are shifted to the front of the buffer.\<close>

definition tcp_consume :: "u16 \<Rightarrow> tcp_socket \<Rightarrow> tcp_socket" where
  "tcp_consume copy k =
     (let remaining = ts_rx_len k - copy;
          buf = (if remaining > 0 then copy_in 0 (\<lambda>j. ts_rx_buf k (unat copy + j)) remaining (ts_rx_buf k) else ts_rx_buf k)
      in k\<lparr>ts_rx_buf := buf, ts_rx_len := remaining, ts_rx_ready := (if remaining = 0 then False else ts_rx_ready k)\<rparr>)"

text \<open>The result is the code and the bytes written to \<^verbatim>\<open>buf\<close>.\<close>

definition tcp_socket_recv :: "int \<Rightarrow> u16 \<Rightarrow> 'a tcp_st_scheme \<Rightarrow> (int \<times> u8 list) \<times> 'a tcp_st_scheme" where
  "tcp_socket_recv sock buf_len s =
     (if tcp_bad_socket sock s then ((-1, []), s)
      else
        let k = sk_at (nat sock) s in
        if \<not> ts_rx_ready k \<and> ts_state k \<noteq> TCP_ESTABLISHED \<and> ts_state k \<noteq> TCP_CLOSE_WAIT then ((-1, []), s)
        else if \<not> ts_rx_ready k then ((0, []), s)
        else
          let copy = (if ts_rx_len k > buf_len then buf_len else ts_rx_len k)
          in ((int (unat copy), map (ts_rx_buf k) [0..<unat copy]), sk_upd (nat sock) (tcp_consume copy) s))"

definition tcp_send_fin :: "('a tcp_st_scheme \<Rightarrow> 'a tcp_st_scheme option) \<Rightarrow> nat \<Rightarrow> tcp_state \<Rightarrow> 'a tcp_st_scheme \<Rightarrow>
    'a tcp_st_scheme option" where
  "tcp_send_fin poll i st s =
     (let s1 = sk_upd i (\<lambda>k. k\<lparr>ts_state := st\<rparr>) s; k = sk_at i s1
      in do { (r, s2) \<leftarrow> tcp_send_segment poll None (ts_remote_ip k) (ts_local_port k) (ts_remote_port k) (ts_snd_nxt k)
                           (ts_rcv_nxt k) (TCP_FIN OR TCP_ACK) 0 (\<lambda>_. 0) 0 s1;
              Some (sk_upd i (\<lambda>k. k\<lparr>ts_snd_nxt := ts_snd_nxt k + 1\<rparr>) s2) })"

definition tcp_socket_close :: "('a tcp_st_scheme \<Rightarrow> 'a tcp_st_scheme option) \<Rightarrow> int \<Rightarrow> 'a tcp_st_scheme \<Rightarrow>
    (int \<times> 'a tcp_st_scheme) option" where
  "tcp_socket_close poll sock s =
     (if tcp_bad_socket sock s then Some (-1, s)
      else
        let i = nat sock in
        if ts_state (sk_at i s) = TCP_ESTABLISHED then map_option (Pair 0) (tcp_send_fin poll i TCP_FIN_WAIT_1 s)
        else if ts_state (sk_at i s) = TCP_CLOSE_WAIT then map_option (Pair 0) (tcp_send_fin poll i TCP_LAST_ACK s)
        else Some (0, sk_upd i (\<lambda>k. k\<lparr>ts_state := TCP_CLOSED, ts_used := False\<rparr>) s))"

definition tcp_socket_state :: "int \<Rightarrow> 'a tcp_st_scheme \<Rightarrow> tcp_state" where
  "tcp_socket_state sock s = (if tcp_bad_socket sock s then TCP_CLOSED else ts_state (sk_at (nat sock) s))"

section \<open>Monotonicity in the driver\<close>

lemma tcp_send_segment_mono [partial_function_mono]:
  assumes [partial_function_mono]: "\<And>t. mono_option (\<lambda>f. P f t)"
  shows "mono_option (\<lambda>f. tcp_send_segment (P f) iface dst_ip src_port dst_port sequence ack flags window payload len s)"
  unfolding tcp_send_segment_def by (intro partial_function_mono)

lemma tcp_reply_mono [partial_function_mono]:
  assumes [partial_function_mono]: "\<And>t. mono_option (\<lambda>f. P f t)"
  shows "mono_option (\<lambda>f. tcp_reply (P f) g i flags window s)"
  unfolding tcp_reply_def by (intro partial_function_mono)

lemmas tcp_rx_defs = tcp_rx_listen_def tcp_rx_syn_sent_def tcp_rx_syn_received_def tcp_rx_established_def
  tcp_rx_fin_wait_1_def tcp_rx_fin_wait_2_def

lemma tcp_dispatch_mono [partial_function_mono]:
  assumes [partial_function_mono]: "\<And>t. mono_option (\<lambda>f. P f t)"
  shows "mono_option (\<lambda>f. tcp_dispatch (P f) g i s)"
  unfolding tcp_dispatch_def tcp_rx_defs
  by (cases "ts_state (sk_at i s)") (simp_all only: tcp_state.case, (intro partial_function_mono)+)

lemma tcp_rx_mono [partial_function_mono]:
  assumes [partial_function_mono]: "\<And>t. mono_option (\<lambda>f. P f t)"
  shows "mono_option (\<lambda>f. tcp_rx (P f) iface src_ip dst_ip data len s)"
  unfolding tcp_rx_def by (intro partial_function_mono)

end
