(* ===== verification/Net_Socket.thy ===== *)
theory Net_Socket
  imports Net_Tcp
begin

text \<open>
  The table of kernel sockets, \<^verbatim>\<open>net/socket.c\<close>: each entry names a socket of UDP or TCP, and every call
  is passed on to it.
\<close>

definition AF_INET :: int where "AF_INET = 2"
definition SOCK_STREAM :: int where "SOCK_STREAM = 1"
definition SOCK_DGRAM :: int where "SOCK_DGRAM = 2"
definition NET_MAX_SOCKETS :: nat where "NET_MAX_SOCKETS = 32"

record ksocket =
  ks_used :: bool
  ks_domain :: int
  ks_type :: int
  ks_proto_fd :: int

record sock_st = tcp_st +
  ksockets :: "ksocket list"

definition net_init :: "'a sock_st_scheme \<Rightarrow> 'a sock_st_scheme" where
  "net_init s =
     dns_init (tcp_init (udp_init (ipv4_init (arp_init (netif_init
       (s\<lparr>ksockets := replicate NET_MAX_SOCKETS \<lparr>ks_used = False, ks_domain = 0, ks_type = 0, ks_proto_fd = 0\<rparr>\<rparr>))))))"

definition net_bad_socket :: "int \<Rightarrow> 'a sock_st_scheme \<Rightarrow> bool" where
  "net_bad_socket sockfd s \<longleftrightarrow> sockfd < 0 \<or> sockfd \<ge> int NET_MAX_SOCKETS \<or> \<not> ks_used (ksockets s ! nat sockfd)"

definition proto_of :: "int \<Rightarrow> 'a sock_st_scheme \<Rightarrow> int" where
  "proto_of sockfd s = ks_proto_fd (ksockets s ! nat sockfd)"

definition type_of :: "int \<Rightarrow> 'a sock_st_scheme \<Rightarrow> int" where
  "type_of sockfd s = ks_type (ksockets s ! nat sockfd)"

definition net_socket :: "int \<Rightarrow> int \<Rightarrow> int \<Rightarrow> 'a sock_st_scheme \<Rightarrow> int \<times> 'a sock_st_scheme" where
  "net_socket domain type protocol s =
     (if domain \<noteq> AF_INET then (-1, s)
      else case first_idx (\<lambda>k. \<not> ks_used k) (ksockets s) of None \<Rightarrow> (-1, s)
           | Some i \<Rightarrow>
               let (proto_fd, s1) =
                     (if type = SOCK_DGRAM then udp_socket_open 0 s
                      else if type = SOCK_STREAM then tcp_socket_open s
                      else (-1, s))
               in if proto_fd < 0 then (-1, s1)
                  else (int i, s1\<lparr>ksockets := (ksockets s1)[i :=
                         \<lparr>ks_used = True, ks_domain = domain, ks_type = type, ks_proto_fd = proto_fd\<rparr>]\<rparr>))"

definition net_bind :: "int \<Rightarrow> u32 \<Rightarrow> u16 \<Rightarrow> 'a sock_st_scheme \<Rightarrow> int \<times> 'a sock_st_scheme" where
  "net_bind sockfd addr port s =
     (if net_bad_socket sockfd s then (-1, s)
      else if type_of sockfd s = SOCK_DGRAM then
        let s1 = snd (udp_socket_close (proto_of sockfd s) s);
            (proto_fd, s2) = udp_socket_open port s1;
            s3 = s2\<lparr>ksockets := (ksockets s2)[nat sockfd := (ksockets s2 ! nat sockfd)\<lparr>ks_proto_fd := proto_fd\<rparr>]\<rparr>
        in (if proto_of sockfd s3 \<ge> 0 then 0 else -1, s3)
      else (-1, s))"

definition net_connect :: "('a sock_st_scheme \<Rightarrow> 'a sock_st_scheme option) \<Rightarrow> ('a sock_st_scheme \<Rightarrow> 'a sock_st_scheme option) \<Rightarrow>
    int \<Rightarrow> u32 \<Rightarrow> u16 \<Rightarrow> 'a sock_st_scheme \<Rightarrow> (int \<times> 'a sock_st_scheme) option" where
  "net_connect poll irq sockfd addr port s =
     (if net_bad_socket sockfd s then Some (-1, s)
      else if type_of sockfd s = SOCK_STREAM then tcp_socket_connect poll irq (proto_of sockfd s) addr port s
      else if type_of sockfd s = SOCK_DGRAM then Some (udp_socket_bind (proto_of sockfd s) addr port s)
      else Some (-1, s))"

definition net_listen :: "int \<Rightarrow> int \<Rightarrow> 'a sock_st_scheme \<Rightarrow> int \<times> 'a sock_st_scheme" where
  "net_listen sockfd backlog s =
     (if net_bad_socket sockfd s then (-1, s)
      else if type_of sockfd s \<noteq> SOCK_STREAM then (-1, s)
      else tcp_socket_listen (proto_of sockfd s) 0 s)"

definition net_accept :: "('a sock_st_scheme \<Rightarrow> 'a sock_st_scheme option) \<Rightarrow> int \<Rightarrow> 'a sock_st_scheme \<Rightarrow>
    (int \<times> 'a sock_st_scheme) option" where
  "net_accept irq sockfd s =
     (if net_bad_socket sockfd s then Some (-1, s)
      else if type_of sockfd s \<noteq> SOCK_STREAM then Some (-1, s)
      else tcp_socket_accept irq (proto_of sockfd s) s)"

definition clamp16 :: "u32 \<Rightarrow> u16" where
  "clamp16 len = (if len > 0xFFFF then 0xFFFF else ucast len)"

definition net_send :: "('a sock_st_scheme \<Rightarrow> 'a sock_st_scheme option) \<Rightarrow> int \<Rightarrow> bytes_at \<Rightarrow> u32 \<Rightarrow> 'a sock_st_scheme \<Rightarrow>
    (int \<times> 'a sock_st_scheme) option" where
  "net_send poll sockfd buf len s =
     (if net_bad_socket sockfd s then Some (-1, s)
      else if type_of sockfd s = SOCK_STREAM then tcp_socket_send poll (proto_of sockfd s) buf (clamp16 len) s
      else Some (-1, s))"

definition net_recv :: "int \<Rightarrow> u32 \<Rightarrow> 'a sock_st_scheme \<Rightarrow> (int \<times> u8 list) \<times> 'a sock_st_scheme" where
  "net_recv sockfd len s =
     (if net_bad_socket sockfd s then ((-1, []), s)
      else if type_of sockfd s = SOCK_STREAM then tcp_socket_recv (proto_of sockfd s) (clamp16 len) s
      else ((-1, []), s))"

definition net_sendto :: "('a sock_st_scheme \<Rightarrow> 'a sock_st_scheme option) \<Rightarrow> int \<Rightarrow> bytes_at \<Rightarrow> u32 \<Rightarrow> u32 \<Rightarrow> u16 \<Rightarrow>
    'a sock_st_scheme \<Rightarrow> (int \<times> 'a sock_st_scheme) option" where
  "net_sendto poll sockfd buf len dst_addr dst_port s =
     (if net_bad_socket sockfd s then Some (-1, s)
      else if type_of sockfd s \<noteq> SOCK_DGRAM then Some (-1, s)
      else udp_socket_sendto poll (proto_of sockfd s) dst_addr dst_port buf (clamp16 len) s)"

definition net_recvfrom :: "int \<Rightarrow> u32 \<Rightarrow> 'a sock_st_scheme \<Rightarrow> (int \<times> u8 list \<times> (u32 \<times> u16) option) \<times> 'a sock_st_scheme" where
  "net_recvfrom sockfd len s =
     (if net_bad_socket sockfd s then ((-1, [], None), s)
      else if type_of sockfd s \<noteq> SOCK_DGRAM then ((-1, [], None), s)
      else udp_socket_recvfrom (proto_of sockfd s) (clamp16 len) s)"

definition net_close :: "('a sock_st_scheme \<Rightarrow> 'a sock_st_scheme option) \<Rightarrow> int \<Rightarrow> 'a sock_st_scheme \<Rightarrow>
    (int \<times> 'a sock_st_scheme) option" where
  "net_close poll sockfd s =
     (if net_bad_socket sockfd s then Some (-1, s)
      else
        do { s1 \<leftarrow> (if type_of sockfd s = SOCK_DGRAM then Some (snd (udp_socket_close (proto_of sockfd s) s))
                   else if type_of sockfd s = SOCK_STREAM then map_option snd (tcp_socket_close poll (proto_of sockfd s) s)
                   else Some s);
             Some (0, s1\<lparr>ksockets := (ksockets s1)[nat sockfd := (ksockets s1 ! nat sockfd)\<lparr>ks_used := False\<rparr>]\<rparr>) })"

end
