(* ===== verification/Net_Stack.thy ===== *)
theory Net_Stack
  imports Net_Socket
begin

text \<open>
  The receive path: the driver of the network card (\<^verbatim>\<open>e1000_poll_rx\<close> of \<^verbatim>\<open>drivers/net/e1000.c\<close>) and the
  dispatch of frames, packets and datagrams (\<^verbatim>\<open>eth_rx\<close>, \<^verbatim>\<open>ipv4_rx\<close>, \<^verbatim>\<open>udp_rx\<close>). Delivering a packet may
  send a reply, and sending may poll the driver again, so the polling loop is recursive; it is a partial
  function, and \<open>None\<close> is a call that never returns. The device is a field of the state: before the
  \<open>n\<close>-th read of a descriptor by the driver it changes the ring of descriptors by \<open>device n\<close>, and the
  clock shows \<open>clock n\<close>.
\<close>

section \<open>Dispatch\<close>

definition udp_rx :: "('a dhcp_st_scheme \<Rightarrow> 'a dhcp_st_scheme option) \<Rightarrow> nat \<Rightarrow> u32 \<Rightarrow> u32 \<Rightarrow> bytes_at \<Rightarrow> u16 \<Rightarrow>
    'a dhcp_st_scheme \<Rightarrow> 'a dhcp_st_scheme option" where
  "udp_rx poll iface src_ip dst_ip data len s =
     (if len < UDP_HDR_LEN then Some s
      else
        let src_port = ntohs (ld16 data 0);
            dst_port = ntohs (ld16 data 2);
            udp_len = ntohs (ld16 data 4);
            payload_len = udp_len - UDP_HDR_LEN;
            payload = (\<lambda>k. data (unat UDP_HDR_LEN + k))
        in if dst_port = DHCP_CLIENT_PORT then dhcp_handle_reply poll iface payload payload_len s
           else if src_port = DNS_PORT then Some (dns_rx payload payload_len s)
           else Some (udp_deliver dst_port src_ip src_port payload payload_len s))"

definition ipv4_rx :: "('a tcp_st_scheme \<Rightarrow> 'a tcp_st_scheme option) \<Rightarrow> nat \<Rightarrow> bytes_at \<Rightarrow> u16 \<Rightarrow> 'a tcp_st_scheme \<Rightarrow>
    'a tcp_st_scheme option" where
  "ipv4_rx poll iface data len s =
     (if len < IP_HDR_MIN_LEN then Some s
      else
        let version = drop_bit 4 (data 0) AND 0x0F;
            ihl = (data 0 AND 0x0F) * 4
        in if version \<noteq> 4 \<or> ucast ihl < IP_HDR_MIN_LEN then Some s
           else
             let total_len = ntohs (ld16 data 2) in
             if total_len > len then Some s
             else if ipv4_checksum data (ucast ihl) \<noteq> 0 then Some s
             else
               let dst = ld32 data 16; src = ld32 data 12; n = interfaces s ! iface in
               if dst \<noteq> ip_addr n \<and> dst \<noteq> 0xFFFFFFFF \<and> dst AND NOT (netmask n) \<noteq> NOT (netmask n) then Some s
               else
                 let payload = (\<lambda>k. data (unat ihl + k)); payload_len = total_len - ucast ihl in
                 if data 9 = IP_PROTO_ICMP then icmp_rx poll iface src payload payload_len s
                 else if data 9 = IP_PROTO_UDP then udp_rx poll iface src dst payload payload_len s
                 else if data 9 = IP_PROTO_TCP then tcp_rx poll iface src dst payload payload_len s
                 else Some s)"

definition eth_rx :: "('a tcp_st_scheme \<Rightarrow> 'a tcp_st_scheme option) \<Rightarrow> nat \<Rightarrow> bytes_at \<Rightarrow> u16 \<Rightarrow> 'a tcp_st_scheme \<Rightarrow>
    'a tcp_st_scheme option" where
  "eth_rx poll iface frame len s =
     (if len < ETH_HDR_LEN then Some s
      else
        let ethertype = ntohs (ld16 frame 12);
            payload = (\<lambda>k. frame (unat ETH_HDR_LEN + k));
            payload_len = len - ETH_HDR_LEN
        in if ethertype = ETHERTYPE_ARP then Some (arp_rx iface payload payload_len s)
           else if ethertype = ETHERTYPE_IPV4 then ipv4_rx poll iface payload payload_len s
           else Some s)"

definition netif_rx :: "('a tcp_st_scheme \<Rightarrow> 'a tcp_st_scheme option) \<Rightarrow> nat \<Rightarrow> bytes_at \<Rightarrow> u16 \<Rightarrow> 'a tcp_st_scheme \<Rightarrow>
    'a tcp_st_scheme option" where
  "netif_rx poll iface data len s = eth_rx poll iface data len s"

lemma udp_rx_mono [partial_function_mono]:
  assumes [partial_function_mono]: "\<And>t. mono_option (\<lambda>f. P f t)"
  shows "mono_option (\<lambda>f. udp_rx (P f) iface src_ip dst_ip data len s)"
  unfolding udp_rx_def by (intro partial_function_mono)

lemma netif_rx_mono [partial_function_mono]:
  assumes [partial_function_mono]: "\<And>t. mono_option (\<lambda>f. P f t)"
  shows "mono_option (\<lambda>f. netif_rx (P f) iface data len s)"
  unfolding netif_rx_def eth_rx_def ipv4_rx_def by (intro partial_function_mono)

section \<open>The driver\<close>

definition E1000_NUM_RX_DESC :: nat where "E1000_NUM_RX_DESC = 32"
definition E1000_RXD_STAT_DD :: u8 where "E1000_RXD_STAT_DD = 1"
definition E1000_RXD_STAT_EOP :: u8 where "E1000_RXD_STAT_EOP = 2"

record rx_desc =
  rd_length :: u16
  rd_status :: u8
  rd_buf :: bytes_at

record e1000_st = sock_st +
  e1000_present :: bool
  e1000_netif :: "nat option"
  rx_descs :: "nat \<Rightarrow> rx_desc"
  rx_cur :: nat
  rdt :: nat
  device :: "nat \<Rightarrow> (nat \<Rightarrow> rx_desc) \<Rightarrow> nat \<Rightarrow> rx_desc"
  clock :: "nat \<Rightarrow> u32"
  reads :: nat

text \<open>The device and the clock run until the next read of a descriptor.\<close>

definition device_runs :: "'a e1000_st_scheme \<Rightarrow> 'a e1000_st_scheme" where
  "device_runs s = s\<lparr>rx_descs := device s (reads s) (rx_descs s), ticks := clock s (reads s), reads := reads s + 1\<rparr>"

definition e1000_next_desc :: "'a e1000_st_scheme \<Rightarrow> 'a e1000_st_scheme" where
  "e1000_next_desc s =
     s\<lparr>rx_descs := (rx_descs s)(rx_cur s := (rx_descs s (rx_cur s))\<lparr>rd_status := 0\<rparr>),
       rx_cur := (rx_cur s + 1) mod E1000_NUM_RX_DESC, rdt := rx_cur s\<rparr>"

definition e1000_deliver :: "('a e1000_st_scheme \<Rightarrow> 'a e1000_st_scheme option) \<Rightarrow> rx_desc \<Rightarrow> 'a e1000_st_scheme \<Rightarrow>
    'a e1000_st_scheme option" where
  "e1000_deliver poll d s =
     (if rd_status d AND E1000_RXD_STAT_EOP \<noteq> 0 \<and> rd_length d > 0
      then (case e1000_netif s of
              Some iface \<Rightarrow> netif_rx poll iface (rd_buf d) (rd_length d) s
            | None \<Rightarrow> Some s)
      else Some s)"

lemma e1000_deliver_mono [partial_function_mono]:
  assumes [partial_function_mono]: "\<And>t. mono_option (\<lambda>f. P f t)"
  shows "mono_option (\<lambda>f. e1000_deliver (P f) d s)"
  unfolding e1000_deliver_def by (intro partial_function_mono)

partial_function (option) e1000_rx_loop :: "'a e1000_st_scheme \<Rightarrow> 'a e1000_st_scheme option" where
  "e1000_rx_loop s0 =
     (let s = device_runs s0; d = rx_descs s (rx_cur s) in
      if rd_status d AND E1000_RXD_STAT_DD \<noteq> 0 then
        do { s1 \<leftarrow> e1000_deliver (\<lambda>t. if \<not> e1000_present t then Some t else e1000_rx_loop t) d s;
             e1000_rx_loop (e1000_next_desc s1) }
      else Some s)"

definition e1000_poll_rx :: "'a e1000_st_scheme \<Rightarrow> 'a e1000_st_scheme option" where
  "e1000_poll_rx s = (if \<not> e1000_present s then Some s else e1000_rx_loop s)"

text \<open>The end of \<^verbatim>\<open>e1000_init\<close>, once the card is found and programmed: it is marked present and its interface
  is registered under the address \<open>mac\<close> read from the card.\<close>

definition e1000_register :: "u8 list \<Rightarrow> (u8 list \<Rightarrow> int) \<Rightarrow> 'a e1000_st_scheme \<Rightarrow> 'a e1000_st_scheme" where
  "e1000_register mac_addr e1000_netif_send s =
     (let (iface, s1) = netif_register (c_string ''eth0'') mac_addr (Some e1000_netif_send) (s\<lparr>e1000_present := True\<rparr>)
      in s1\<lparr>e1000_netif := iface\<rparr>)"

text \<open>Reading the cause register, whose value is not used, only clears it in the device.\<close>

definition e1000_irq_handler :: "'a e1000_st_scheme \<Rightarrow> 'a e1000_st_scheme option" where
  "e1000_irq_handler s = (if \<not> e1000_present s then Some s else e1000_poll_rx s)"

section \<open>A host\<close>

text \<open>The stack before \<^verbatim>\<open>net_init\<close>, with a card that receives nothing, and a host on which it is up.\<close>

definition cold_net :: e1000_st where
  "cold_net = \<lparr>ticks = 0, interfaces = [], iface_count = 0, default_iface = None, arp_cache = [], tx = [],
     ip_id_counter = 0, routes = [], route_count = 0, overrun = False, reply_callback = False, echo_replies = [],
     udp_sockets = [], dns_cache = [], dns_server_ip = 0, dns_next_id = 0, pending_id = 0, pending_result = 0, pending_done = False,
     last_result = \<lparr>dr_ip_addr = 0, dr_netmask = 0, dr_gateway = 0, dr_dns_server = 0, dr_lease_time = 0, dr_ok = False\<rparr>,
     dhcp_xid = 0, dhcp_state = 0,
     klog = \<lparr>klog_entries = (\<lambda>_. \<lparr>kl_ticks = 0, kl_level = KLOG_LEVEL_INFO, kl_component = (\<lambda>_. 0), kl_message = (\<lambda>_. 0)\<rparr>),
             klog_start = 0, klog_size = 0\<rparr>,
     tcp_sockets = [], tcp_isn = 0, ksockets = [], e1000_present = False, e1000_netif = None,
     rx_descs = (\<lambda>_. \<lparr>rd_length = 0, rd_status = 0, rd_buf = (\<lambda>_. 0)\<rparr>), rx_cur = 0, rdt = 0,
     device = (\<lambda>_ ring. ring), clock = (\<lambda>_. 0), reads = 0\<rparr>"

definition host :: "u32 \<Rightarrow> u8 list \<Rightarrow> e1000_st" where
  "host ip mac = netif_set_addr (Some 0) ip 0x00FFFFFF 0 (e1000_register mac (\<lambda>frame. 0) (net_init cold_net))"

lemma host_fields:
  "ip_addr (interfaces (host ip mac) ! 0) = ip" "netmask (interfaces (host ip mac) ! 0) = 0x00FFFFFF"
  "gateway (interfaces (host ip mac) ! 0) = 0" "nif_mac (interfaces (host ip mac) ! 0) = take 6 mac"
  "nif_send (interfaces (host ip mac) ! 0) = Some (\<lambda>frame. 0)"
  "default_iface (host ip mac) = Some 0" "e1000_netif (host ip mac) = Some 0" "e1000_present (host ip mac)"
  "arp_cache (host ip mac) = replicate ARP_CACHE_SIZE zero_arp_entry"
  "udp_sockets (host ip mac) = replicate UDP_MAX_SOCKETS zero_udp_socket"
  by (simp_all add: host_def netif_set_addr_def e1000_register_def netif_register_def net_init_def netif_init_def arp_init_def
      ipv4_init_def udp_init_def tcp_init_def dns_init_def cold_net_def Let_def NETIF_MAX_def zero_netif_def split: prod.split)

end
