(* ===== verification/Net_Inv.thy ===== *)
theory Net_Inv
  imports Net_Stack
begin

text \<open>
  The network stack as a whole: a well-formedness invariant of its state, and that every entry point
  keeps it, whatever the device delivers and however deep the stack calls itself through the driver.
\<close>

section \<open>Well-formed states\<close>

definition udp_sock_ok :: "udp_socket \<Rightarrow> bool" where
  "udp_sock_ok k \<longleftrightarrow> us_rx_len k \<le> UDP_RX_BUF_SIZE"

definition tcp_sock_ok :: "tcp_socket \<Rightarrow> bool" where
  "tcp_sock_ok k \<longleftrightarrow> ts_rx_len k \<le> TCP_RX_BUF_SIZE \<and> (ts_rx_ready k \<longleftrightarrow> ts_rx_len k \<noteq> 0)"

definition ksock_ok :: "ksocket \<Rightarrow> bool" where
  "ksock_ok k \<longleftrightarrow> (ks_used k \<longrightarrow>
     ks_domain k = AF_INET \<and> ks_type k \<in> {SOCK_STREAM, SOCK_DGRAM} \<and> -1 \<le> ks_proto_fd k \<and> ks_proto_fd k < 16)"

text \<open>A pointer to an interface is null or points to a registered one.\<close>

definition iface_ok :: "nat \<Rightarrow> nat option \<Rightarrow> bool" where
  "iface_ok count p \<longleftrightarrow> (case p of None \<Rightarrow> True | Some i \<Rightarrow> i < count)"

definition link_ok :: "'a ip_st_scheme \<Rightarrow> bool" where
  "link_ok s \<longleftrightarrow> length (interfaces s) = NETIF_MAX \<and> iface_count s \<le> NETIF_MAX \<and> iface_ok (iface_count s) (default_iface s) \<and>
     (\<forall>n \<in> set (interfaces s). length (nif_mac n) = 6) \<and>
     length (arp_cache s) = ARP_CACHE_SIZE \<and> (\<forall>e \<in> set (arp_cache s). length (ae_mac e) = 6) \<and>
     length (routes s) = ROUTE_MAX \<and> route_count s \<le> ROUTE_MAX \<and>
     (\<forall>r \<in> set (take (route_count s) (routes s)). iface_ok (iface_count s) (rt_iface r))"

definition stack_ok :: "'a e1000_st_scheme \<Rightarrow> bool" where
  "stack_ok s \<longleftrightarrow> link_ok s \<and>
     length (udp_sockets s) = UDP_MAX_SOCKETS \<and> (\<forall>k \<in> set (udp_sockets s). udp_sock_ok k) \<and>
     length (tcp_sockets s) = TCP_MAX_SOCKETS \<and> (\<forall>k \<in> set (tcp_sockets s). tcp_sock_ok k) \<and>
     length (ksockets s) = NET_MAX_SOCKETS \<and> (\<forall>k \<in> set (ksockets s). ksock_ok k) \<and>
     length (dns_cache s) = DNS_CACHE_SIZE \<and> klog_start (klog s) < KLOG_MAX_ENTRIES \<and>
     klog_size (klog s) \<le> KLOG_MAX_ENTRIES \<and> rx_cur s < E1000_NUM_RX_DESC \<and> iface_ok (iface_count s) (e1000_netif s)"

named_theorems stack_keeps

lemma iface_ok_mono: "iface_ok m p \<Longrightarrow> m \<le> n \<Longrightarrow> iface_ok n p"
  by (cases p) (simp_all add: iface_ok_def)

lemma stack_ok_neutral [stack_keeps]:
  assumes "stack_ok s"
  shows "stack_ok (s\<lparr>tx := x1\<rparr>)" "stack_ok (s\<lparr>ip_id_counter := x2\<rparr>)" "stack_ok (s\<lparr>overrun := x3\<rparr>)"
    "stack_ok (s\<lparr>echo_replies := x4\<rparr>)" "stack_ok (s\<lparr>pending_id := x5\<rparr>)" "stack_ok (s\<lparr>dns_next_id := x6\<rparr>)"
    "stack_ok (s\<lparr>pending_result := x7\<rparr>)" "stack_ok (s\<lparr>pending_done := x8\<rparr>)" "stack_ok (s\<lparr>dns_server_ip := x9\<rparr>)"
    "stack_ok (s\<lparr>last_result := x10\<rparr>)" "stack_ok (s\<lparr>dhcp_xid := x11\<rparr>)" "stack_ok (s\<lparr>dhcp_state := x12\<rparr>)"
    "stack_ok (s\<lparr>tcp_isn := x13\<rparr>)"
  using assms by (simp_all add: stack_ok_def link_ok_def)

lemma stack_ok_device [stack_keeps]: "stack_ok s \<Longrightarrow> stack_ok (device_runs s)"
  by (simp add: device_runs_def stack_ok_def link_ok_def)

lemma stack_ok_next_desc [stack_keeps]: "stack_ok s \<Longrightarrow> stack_ok (e1000_next_desc s)"
  by (simp add: e1000_next_desc_def stack_ok_def link_ok_def E1000_NUM_RX_DESC_def)

lemma set_updateD: "\<forall>x \<in> set xs. P x \<Longrightarrow> P v \<Longrightarrow> \<forall>x \<in> set (xs[i := v]). P x"
  using set_update_subset_insert [of xs i v] by auto

lemma stack_ok_udp [stack_keeps]:
  "stack_ok s \<Longrightarrow> udp_sock_ok k \<Longrightarrow> stack_ok (s\<lparr>udp_sockets := (udp_sockets s)[i := k]\<rparr>)"
  using set_updateD [of "udp_sockets s" udp_sock_ok k i] by (simp add: stack_ok_def link_ok_def)

lemma stack_ok_ksock [stack_keeps]:
  "stack_ok s \<Longrightarrow> ksock_ok k \<Longrightarrow> stack_ok (s\<lparr>ksockets := (ksockets s)[i := k]\<rparr>)"
  using set_updateD [of "ksockets s" ksock_ok k i] by (simp add: stack_ok_def link_ok_def)

lemma stack_ok_dns_cache [stack_keeps]:
  "stack_ok s \<Longrightarrow> stack_ok (s\<lparr>dns_cache := (dns_cache s)[i := e]\<rparr>)"
  by (simp add: stack_ok_def link_ok_def)

lemma stack_ok_sk_upd [stack_keeps]:
  assumes "stack_ok s" and f: "tcp_sock_ok (sk_at i s) \<Longrightarrow> tcp_sock_ok (f (sk_at i s))"
  shows "stack_ok (sk_upd i f s)"
proof (cases "i < length (tcp_sockets s)")
  case True
  then have "tcp_sock_ok (f (tcp_sockets s ! i))" using assms by (simp add: stack_ok_def sk_at_def)
  then show ?thesis
    using assms(1) set_updateD [of "tcp_sockets s" tcp_sock_ok "f (tcp_sockets s ! i)" i]
    by (simp add: sk_upd_def stack_ok_def link_ok_def)
next
  case False
  then have "sk_upd i f s = s" by (simp add: sk_upd_def list_update_beyond)
  then show ?thesis using assms(1) by simp
qed

lemma stack_ok_iface_upd [stack_keeps]:
  "stack_ok s \<Longrightarrow> length (nif_mac n) = 6 \<or> i \<ge> NETIF_MAX \<Longrightarrow> stack_ok (s\<lparr>interfaces := (interfaces s)[i := n]\<rparr>)"
  using set_updateD [of "interfaces s" "\<lambda>n. length (nif_mac n) = 6" n i] list_update_beyond [of "interfaces s" i n]
  by (auto simp: stack_ok_def link_ok_def)

lemma stack_ok_mac: "stack_ok s \<Longrightarrow> length (nif_mac (interfaces s ! i)) = 6 \<or> i \<ge> NETIF_MAX"
  by (auto simp: stack_ok_def link_ok_def)

lemma stack_ok_iface_fields:
  "stack_ok s \<Longrightarrow> nif_mac n = nif_mac (interfaces s ! i) \<Longrightarrow> stack_ok (s\<lparr>interfaces := (interfaces s)[i := n]\<rparr>)"
  using stack_ok_mac [of s i] by (intro stack_ok_iface_upd) auto

lemma stack_ok_route [stack_keeps]:
  assumes "stack_ok s" and "iface_ok (iface_count s) p"
  shows "stack_ok (route_add network msk gw p s)"
proof (cases "route_count s < ROUTE_MAX")
  case True
  let ?r = "\<lparr>rt_network = network, rt_netmask = msk, rt_gateway = gw, rt_iface = p\<rparr>"
  have "take (Suc (route_count s)) ((routes s)[route_count s := ?r]) = take (route_count s) (routes s) @ [?r]"
    using assms(1) True by (simp add: stack_ok_def link_ok_def take_Suc_conv_app_nth)
  then show ?thesis
    using assms True by (simp add: route_add_def stack_ok_def link_ok_def)
qed (use assms(1) in \<open>simp add: route_add_def\<close>)

lemma stack_ok_klog [stack_keeps]: "stack_ok s \<Longrightarrow> stack_ok (s\<lparr>klog := klog_write now level c m (klog s)\<rparr>)"
  by (auto simp: stack_ok_def link_ok_def klog_write_def Let_def KLOG_MAX_ENTRIES_def)

lemma stack_ok_arp_upd:
  "stack_ok s \<Longrightarrow> length (ae_mac e) = 6 \<Longrightarrow> stack_ok (s\<lparr>arp_cache := (arp_cache s)[i := e]\<rparr>)"
  using set_updateD [of "arp_cache s" "\<lambda>e. length (ae_mac e) = 6" e i] by (simp add: stack_ok_def link_ok_def)

lemma stack_ok_arp [stack_keeps]:
  "stack_ok s \<Longrightarrow> length mac = 6 \<Longrightarrow> stack_ok (arp_cache_add ip mac s)"
  by (simp add: arp_cache_add_def Let_def stack_ok_arp_upd split: option.split)

lemma stack_ok_eth_send [stack_keeps]: "stack_ok s \<Longrightarrow> stack_ok (snd (eth_send iface mac ethertype payload len s))"
  by (simp add: eth_send_def Let_def stack_ok_neutral(1) split: option.split)

lemma stack_ok_arp_rx [stack_keeps]: "stack_ok s \<Longrightarrow> stack_ok (arp_rx iface data len s)"
  by (simp add: arp_rx_def Let_def stack_ok_eth_send stack_ok_arp)

lemma stack_ok_dns_rx [stack_keeps]: "stack_ok s \<Longrightarrow> stack_ok (dns_rx data len s)"
  by (simp add: dns_rx_def Let_def stack_keeps split: option.split)

lemma stack_ok_udp_deliver [stack_keeps]: "stack_ok s \<Longrightarrow> stack_ok (udp_deliver dp ip sp payload len s)"
  by (auto simp: udp_deliver_def Let_def udp_sock_ok_def UDP_RX_BUF_SIZE_def not_less
      intro!: stack_keeps split: option.split)

lemma stack_ok_set_addr [stack_keeps]: "stack_ok s \<Longrightarrow> stack_ok (netif_set_addr p ip msk gw s)"
  by (simp add: netif_set_addr_def stack_ok_iface_fields split: option.split)

lemma iface_count_set_addr [simp]: "iface_count (netif_set_addr p ip msk gw s) = iface_count s"
  by (simp add: netif_set_addr_def split: option.split)

lemma stack_ok_if: "stack_ok s \<Longrightarrow> stack_ok t \<Longrightarrow> stack_ok (if b then s else t)"
  by simp

lemma dhcp_apply_ok:
  assumes "stack_ok s" and "iface < iface_count s"
  shows "stack_ok (dhcp_apply iface ip d s)"
proof -
  let ?s1 = "s\<lparr>last_result := \<lparr>dr_ip_addr = ip, dr_netmask = do_subnet_mask d, dr_gateway = do_router d,
     dr_dns_server = do_dns d, dr_lease_time = ntohl (do_lease d), dr_ok = True\<rparr>, dhcp_state := 3\<rparr>"
  let ?s2 = "netif_set_addr (Some iface) ip (do_subnet_mask d) (do_router d) ?s1"
  have "stack_ok ?s2" using assms(1) by (intro stack_keeps)
  then have "stack_ok (?s2\<lparr>interfaces := (interfaces ?s2)[iface := (interfaces ?s2 ! iface)\<lparr>dns_server := do_dns d\<rparr>]\<rparr>)"
    by (rule stack_ok_iface_fields) simp
  then show ?thesis
    using assms(2) unfolding dhcp_apply_def Let_def dns_set_server_def
    by (intro stack_ok_klog stack_ok_neutral(9) stack_ok_route stack_ok_if)
      (simp_all add: iface_ok_def route_add_def)
qed

lemma tcp_append_ok:
  assumes "tcp_sock_ok k"
  shows "tcp_sock_ok (tcp_append g k)"
proof -
  let ?sp = "TCP_RX_BUF_SIZE - ts_rx_len k"
  let ?c = "if sg_payload_len g < ?sp then sg_payload_len g else ?sp"
  have le: "unat (ts_rx_len k) \<le> 8192"
    using assms by (simp add: tcp_sock_ok_def TCP_RX_BUF_SIZE_def word_le_nat_alt)
  have sp: "unat ?sp = 8192 - unat (ts_rx_len k)"
    using le by (simp add: TCP_RX_BUF_SIZE_def unat_sub_if')
  have "unat ?c \<le> 8192 - unat (ts_rx_len k)" using sp by (simp add: word_less_nat_alt)
  then have sum: "unat (ts_rx_len k + ?c) = unat (ts_rx_len k) + unat ?c" "unat (ts_rx_len k) + unat ?c \<le> 8192"
    using le by (simp_all add: unat_plus_if')
  have "ts_rx_len k + ?c \<le> TCP_RX_BUF_SIZE"
    unfolding word_le_nat_alt sum(1) using sum(2) by (simp add: TCP_RX_BUF_SIZE_def)
  moreover have "ts_rx_len k + ?c \<noteq> 0" if "?c > 0"
    using sum(1) that by (metis add_is_0 unat_0 unat_eq_0 less_irrefl)
  ultimately show ?thesis using assms unfolding tcp_append_def Let_def by (simp add: tcp_sock_ok_def)
qed

section \<open>Every layer keeps a well-formed state\<close>

lemma tcp_sock_ok_fields [simp]:
  "tcp_sock_ok (k\<lparr>ts_used := b\<rparr>) = tcp_sock_ok k" "tcp_sock_ok (k\<lparr>ts_state := st\<rparr>) = tcp_sock_ok k"
  "tcp_sock_ok (k\<lparr>ts_local_port := p1\<rparr>) = tcp_sock_ok k" "tcp_sock_ok (k\<lparr>ts_remote_ip := ip\<rparr>) = tcp_sock_ok k"
  "tcp_sock_ok (k\<lparr>ts_remote_port := p2\<rparr>) = tcp_sock_ok k" "tcp_sock_ok (k\<lparr>ts_snd_una := n1\<rparr>) = tcp_sock_ok k"
  "tcp_sock_ok (k\<lparr>ts_snd_nxt := n2\<rparr>) = tcp_sock_ok k" "tcp_sock_ok (k\<lparr>ts_rcv_nxt := n3\<rparr>) = tcp_sock_ok k"
  "tcp_sock_ok (k\<lparr>ts_last_ack_tick := n4\<rparr>) = tcp_sock_ok k"
  by (simp_all add: tcp_sock_ok_def)

definition keeps_ok :: "('a e1000_st_scheme \<Rightarrow> 'a e1000_st_scheme option) \<Rightarrow> bool" where
  "keeps_ok p \<longleftrightarrow> (\<forall>s t. stack_ok s \<longrightarrow> p s = Some t \<longrightarrow> stack_ok t)"

lemma keeps_okD: "keeps_ok p \<Longrightarrow> p s = Some t \<Longrightarrow> stack_ok s \<Longrightarrow> stack_ok t"
  by (simp add: keeps_ok_def)

lemma dns_wait_ok:
  assumes "dns_wait poll start s = Some t" and "keeps_ok poll" and "stack_ok s"
  shows "stack_ok t"
proof -
  let ?P = "\<lambda>poll start s t. keeps_ok poll \<longrightarrow> stack_ok s \<longrightarrow> stack_ok t"
  have "?P poll start s t"
    by (rule dns_wait.raw_induct [where P = ?P, OF _ assms(1)])
      (auto simp: Option.bind_eq_Some_conv split: if_splits, metis keeps_okD)
  then show ?thesis using assms(2,3) by blast
qed

lemma tcp_wait_ok:
  assumes "tcp_wait irq w start n s = Some t" and "keeps_ok irq" and "stack_ok s"
  shows "stack_ok t"
proof -
  let ?P = "\<lambda>irq w start n s t. keeps_ok irq \<longrightarrow> stack_ok s \<longrightarrow> stack_ok t"
  have "?P irq w start n s t"
    by (rule tcp_wait.raw_induct [where P = ?P, OF _ assms(1)])
      (auto simp: Option.bind_eq_Some_conv split: if_splits, metis keeps_okD)
  then show ?thesis using assms(2,3) by blast
qed

lemma stack_ok_netif: "stack_ok s \<Longrightarrow> e1000_netif s = Some iface \<Longrightarrow> iface < iface_count s"
  by (simp add: stack_ok_def iface_ok_def)

locale stack_poll =
  fixes poll :: "'a e1000_st_scheme \<Rightarrow> 'a e1000_st_scheme option"
  assumes poll_ok: "keeps_ok poll"
begin

sublocale polled stack_ok poll
  by unfold_locales (auto intro: keeps_okD [OF poll_ok] stack_keeps)

lemma udp_send_ok: "stack_ok s \<Longrightarrow> udp_send poll iface ip sp dp p n s = Some (r, t) \<Longrightarrow> stack_ok t"
  using ipv4_send_keeps [OF stack_ok_neutral(3)] by (simp add: udp_send_def Let_def split: if_splits)

lemma icmp_send_echo_ok: "stack_ok s \<Longrightarrow> icmp_send_echo poll stk iface ip ident sq p n s = Some (r, t) \<Longrightarrow> stack_ok t"
  using ipv4_send_keeps [OF stack_ok_neutral(3)] by (simp add: icmp_send_echo_def Let_def split: if_splits)

lemma tcp_send_segment_ok:
  "stack_ok s \<Longrightarrow> tcp_send_segment poll iface ip sp dp sq ack flags window p n s = Some (r, t) \<Longrightarrow> stack_ok t"
  using ipv4_send_keeps [OF stack_ok_neutral(3)] by (simp add: tcp_send_segment_def Let_def split: if_splits)

lemma icmp_rx_ok: "stack_ok s \<Longrightarrow> icmp_rx poll iface ip data len s = Some t \<Longrightarrow> stack_ok t"
  by (auto simp: icmp_rx_def Let_def split: if_splits intro: ipv4_send_keeps stack_keeps)

lemma tcp_reply_ok: "stack_ok s \<Longrightarrow> tcp_reply poll g i flags window s = Some t \<Longrightarrow> stack_ok t"
  by (auto simp: tcp_reply_def intro: tcp_send_segment_ok)

lemma dhcp_handle_reply_ok:
  assumes "stack_ok s" and "iface < iface_count s" and "dhcp_handle_reply poll iface data len s = Some t"
  shows "stack_ok t"
proof -
  show ?thesis
    using assms dhcp_apply_ok udp_send_ok [OF stack_ok_neutral(12) [OF assms(1)]]
    by (auto simp: dhcp_handle_reply_def dhcp_send_request_def Let_def split: if_splits)
qed

lemma udp_rx_ok:
  "stack_ok s \<Longrightarrow> iface < iface_count s \<Longrightarrow> udp_rx poll iface ip ip' data len s = Some t \<Longrightarrow> stack_ok t"
  by (auto simp: udp_rx_def Let_def split: if_splits intro: dhcp_handle_reply_ok stack_keeps)

lemma tcp_dispatch_ok: "stack_ok s \<Longrightarrow> tcp_dispatch poll g i s = Some t \<Longrightarrow> stack_ok t"
  by (auto simp: tcp_dispatch_def tcp_rx_defs Let_def Option.bind_eq_Some_conv
      split: tcp_state.splits if_splits
      intro!: stack_ok_sk_upd stack_ok_neutral(13) tcp_append_ok elim!: tcp_reply_ok [rotated])

lemma tcp_rx_ok: "stack_ok s \<Longrightarrow> tcp_rx poll iface ip ip' data len s = Some t \<Longrightarrow> stack_ok t"
  by (auto simp: tcp_rx_def Let_def split: if_splits option.splits intro: tcp_send_segment_ok tcp_dispatch_ok)

lemma ipv4_rx_ok: "stack_ok s \<Longrightarrow> iface < iface_count s \<Longrightarrow> ipv4_rx poll iface data len s = Some t \<Longrightarrow> stack_ok t"
  by (auto simp: ipv4_rx_def Let_def split: if_splits intro: icmp_rx_ok udp_rx_ok tcp_rx_ok)

lemma netif_rx_ok: "stack_ok s \<Longrightarrow> iface < iface_count s \<Longrightarrow> netif_rx poll iface data len s = Some t \<Longrightarrow> stack_ok t"
  by (auto simp: netif_rx_def eth_rx_def Let_def split: if_splits intro: stack_ok_arp_rx ipv4_rx_ok)

lemma e1000_deliver_ok: "stack_ok s \<Longrightarrow> e1000_deliver poll d s = Some t \<Longrightarrow> stack_ok t"
  using stack_ok_netif [of s] by (auto simp: e1000_deliver_def split: if_splits option.splits intro: netif_rx_ok)

text \<open>The clients of the stack, which may poll the driver through \<open>poll\<close> while they send and through \<open>irq\<close>
  while they wait.\<close>

lemma dhcp_discover_ok:
  assumes "stack_ok s" and "dhcp_discover poll p s = Some (r, t)"
  shows "stack_ok t"
proof (cases p)
  case (Some i)
  define s1 where "s1 = s\<lparr>dhcp_xid := 0x12345678, dhcp_state := 1,
    last_result := \<lparr>dr_ip_addr = 0, dr_netmask = 0, dr_gateway = 0, dr_dns_server = 0, dr_lease_time = 0, dr_ok = False\<rparr>\<rparr>"
  have "stack_ok s1" using assms(1) unfolding s1_def by (intro stack_ok_neutral)
  then have ok: "stack_ok (s1\<lparr>interfaces := (interfaces s1)[i := (interfaces s1 ! i)\<lparr>ip_addr := 0\<rparr>]\<rparr>)"
    by (rule stack_ok_iface_fields) simp
  show ?thesis
    using assms(2) Some udp_send_ok [OF ok]
    by (auto simp: dhcp_discover_def Let_def s1_def Option.bind_eq_Some_conv intro!: stack_ok_iface_fields)
qed (use assms in \<open>simp add: dhcp_discover_def\<close>)

lemma dns_cache_result_ok: "stack_ok s \<Longrightarrow> stack_ok (dns_cache_result hostname s)"
  by (simp add: dns_cache_result_def stack_ok_dns_cache split: option.split prod.split)

lemma dns_ask_ok:
  assumes "stack_ok s" and "dns_ask poll hostname buf s = Some (r, t)"
  shows "stack_ok t"
proof -
  note w = dns_wait_ok [OF _ poll_ok]
  have "stack_ok (s\<lparr>overrun := b, pending_done := d, pending_result := x\<rparr>)" for b d x
    using assms(1) by (intro stack_ok_neutral)
  note u = udp_send_ok [OF this]
  show ?thesis
    using assms(2)
    by (auto simp: dns_ask_def Let_def Option.bind_eq_Some_conv split: if_splits
        dest!: w u intro!: dns_cache_result_ok)
qed

lemma dns_resolve_ok: "stack_ok s \<Longrightarrow> dns_resolve poll hostname s = Some (r, t) \<Longrightarrow> stack_ok t"
  by (auto simp: dns_resolve_def Let_def Option.bind_eq_Some_conv stack_ok_neutral(5,6)
      split: if_splits option.splits intro: dns_ask_ok [OF stack_ok_neutral(6) [OF stack_ok_neutral(5)]])

end

section \<open>The socket interface keeps a well-formed state\<close>

lemma udp_sock_ok_fields [simp]:
  "udp_sock_ok (k\<lparr>us_used := b\<rparr>) = udp_sock_ok k" "udp_sock_ok (k\<lparr>us_rx_ready := r\<rparr>) = udp_sock_ok k"
  "udp_sock_ok (k\<lparr>us_remote_ip := ip\<rparr>) = udp_sock_ok k" "udp_sock_ok (k\<lparr>us_remote_port := p\<rparr>) = udp_sock_ok k"
  by (simp_all add: udp_sock_ok_def)

lemma stack_ok_udp_sock: "stack_ok s \<Longrightarrow> 0 \<le> i \<Longrightarrow> i < int UDP_MAX_SOCKETS \<Longrightarrow> udp_sock_ok (udp_sockets s ! nat i)"
  by (simp add: stack_ok_def)

lemma udp_api_ok [stack_keeps]:
  assumes "stack_ok s"
  shows "stack_ok (snd (udp_socket_open port s))" "stack_ok (snd (udp_socket_close sock s))"
    "stack_ok (snd (udp_socket_bind sock ip rport s))" "stack_ok (snd (udp_socket_recvfrom sock n s))"
  using assms stack_ok_udp_sock [OF assms]
  by (auto simp: udp_socket_open_def udp_socket_close_def udp_socket_bind_def udp_socket_recvfrom_def udp_bad_socket_def
      Let_def zero_udp_socket_def udp_sock_ok_def split: option.split intro!: stack_ok_udp)

lemma tcp_consume_ok: "tcp_sock_ok k \<Longrightarrow> copy \<le> ts_rx_len k \<Longrightarrow> ts_rx_ready k \<Longrightarrow> tcp_sock_ok (tcp_consume copy k)"
  using word_sub_le [of copy "ts_rx_len k"] by (auto simp: tcp_consume_def tcp_sock_ok_def Let_def)

lemma tcp_api_ok [stack_keeps]:
  assumes "stack_ok s"
  shows "stack_ok (snd (tcp_socket_open s))" "stack_ok (snd (tcp_socket_listen sock port s))"
    "stack_ok (snd (tcp_socket_recv sock n s))" "stack_ok (tcp_tick s)"
proof -
  show "stack_ok (snd (tcp_socket_open s))" "stack_ok (snd (tcp_socket_listen sock port s))"
    using assms by (auto simp: tcp_socket_open_def tcp_socket_listen_def zero_tcp_socket_def tcp_sock_ok_def
        split: option.split intro!: stack_ok_sk_upd)
  show "stack_ok (snd (tcp_socket_recv sock n s))"
    using assms by (auto simp: tcp_socket_recv_def Let_def intro!: stack_ok_sk_upd tcp_consume_ok)
  show "stack_ok (tcp_tick s)" using assms by (auto simp: tcp_tick_def stack_ok_def link_ok_def)
qed

locale stack_clients = stack_poll poll for poll :: "'a e1000_st_scheme \<Rightarrow> 'a e1000_st_scheme option" +
  fixes irq :: "'a e1000_st_scheme \<Rightarrow> 'a e1000_st_scheme option"
  assumes irq_ok: "keeps_ok irq"
begin

lemmas waits_ok = tcp_wait_ok [OF _ irq_ok]

lemma tcp_connect_ok: "stack_ok s \<Longrightarrow> tcp_socket_connect poll irq sock ip port s = Some (r, t) \<Longrightarrow> stack_ok t"
  by (auto simp: tcp_socket_connect_def Let_def Option.bind_eq_Some_conv split: if_splits
      dest!: waits_ok intro!: stack_ok_sk_upd stack_ok_neutral(13) elim!: tcp_send_segment_ok [rotated])

lemma tcp_accept_ok: "stack_ok s \<Longrightarrow> tcp_socket_accept irq sock s = Some (r, t) \<Longrightarrow> stack_ok t"
  by (auto simp: tcp_socket_accept_def Let_def Option.bind_eq_Some_conv split: if_splits dest!: waits_ok)

lemma tcp_send_loop_ok: "stack_ok s \<Longrightarrow> tcp_send_loop poll i data len sent s = Some (r, t) \<Longrightarrow> stack_ok t"
proof (induction "unat len - unat sent" arbitrary: sent s rule: less_induct)
  case less
  show ?case
  proof (cases "sent < len")
    case True
    define chunk where "chunk = (if len - sent > TCP_MSS then TCP_MSS else len - sent)"
    let ?k = "sk_at i s"
    obtain r1 s1 where s1: "tcp_send_segment poll None (ts_remote_ip ?k) (ts_local_port ?k) (ts_remote_port ?k) (ts_snd_nxt ?k)
          (ts_rcv_nxt ?k) (TCP_ACK OR TCP_PSH) TCP_WINDOW_SIZE (\<lambda>j. data (unat sent + j)) chunk s = Some (r1, s1)"
        and t: "tcp_send_loop poll i data len (sent + chunk) (sk_upd i (\<lambda>k. k\<lparr>ts_snd_nxt := ts_snd_nxt k + ucast chunk\<rparr>) s1) =
          Some (r, t)"
      using less.prems(2) True unfolding tcp_send_loop.simps [of poll i data len sent s] Let_def chunk_def [symmetric]
      by (auto simp: Option.bind_eq_Some_conv)
    have "stack_ok (sk_upd i (\<lambda>k. k\<lparr>ts_snd_nxt := ts_snd_nxt k + ucast chunk\<rparr>) s1)"
      using tcp_send_segment_ok [OF less.prems(1) s1] by (rule stack_ok_sk_upd) simp
    from less.hyps [OF tcp_chunk_less [OF True chunk_def] this t] show ?thesis .
  qed (use less.prems in \<open>auto simp: tcp_send_loop.simps [of poll i data len sent s]\<close>)
qed

lemma tcp_close_ok: "stack_ok s \<Longrightarrow> tcp_socket_close poll sock s = Some (r, t) \<Longrightarrow> stack_ok t"
  by (auto simp: tcp_socket_close_def tcp_send_fin_def Let_def Option.bind_eq_Some_conv split: if_splits
      intro!: stack_ok_sk_upd elim!: tcp_send_segment_ok [rotated])

lemma net_connect_ok: "stack_ok s \<Longrightarrow> net_connect poll irq sockfd ip port s = Some (r, t) \<Longrightarrow> stack_ok t"
  using udp_api_ok(3) [of s "proto_of sockfd s" ip port]
  by (auto simp: net_connect_def split: if_splits intro: tcp_connect_ok)

lemma net_accept_ok: "stack_ok s \<Longrightarrow> net_accept irq sockfd s = Some (r, t) \<Longrightarrow> stack_ok t"
  by (auto simp: net_accept_def split: if_splits intro: tcp_accept_ok)

lemma net_send_ok: "stack_ok s \<Longrightarrow> net_send poll sockfd buf len s = Some (r, t) \<Longrightarrow> stack_ok t"
  by (auto simp: net_send_def tcp_socket_send_def Option.bind_eq_Some_conv split: if_splits intro: tcp_send_loop_ok)

lemma net_sendto_ok: "stack_ok s \<Longrightarrow> net_sendto poll sockfd buf len ip port s = Some (r, t) \<Longrightarrow> stack_ok t"
  by (auto simp: net_sendto_def udp_socket_sendto_def split: if_splits intro: udp_send_ok)

lemma net_close_ok: "stack_ok s \<Longrightarrow> net_close poll sockfd s = Some (r, t) \<Longrightarrow> stack_ok t"
  by (auto simp: net_close_def Option.bind_eq_Some_conv ksock_ok_def split: if_splits
      intro!: stack_ok_ksock intro: udp_api_ok tcp_close_ok)

end

lemma udp_open_bound: "stack_ok s \<Longrightarrow> -1 \<le> fst (udp_socket_open port s) \<and> fst (udp_socket_open port s) < 16"
  by (auto simp: udp_socket_open_def stack_ok_def UDP_MAX_SOCKETS_def split: option.split dest: first_idx_SomeD)

lemma tcp_open_bound: "stack_ok s \<Longrightarrow> -1 \<le> fst (tcp_socket_open s) \<and> fst (tcp_socket_open s) < 16"
  by (auto simp: tcp_socket_open_def stack_ok_def TCP_MAX_SOCKETS_def split: option.split dest: first_idx_SomeD)

lemma net_api_ok:
  assumes "stack_ok s"
  shows "stack_ok (snd (net_socket domain type protocol s))" "stack_ok (snd (net_bind sockfd addr port s))"
    "stack_ok (snd (net_listen sockfd backlog s))" "stack_ok (snd (net_recv sockfd n s))"
    "stack_ok (snd (net_recvfrom sockfd n s))"
proof -
  show "stack_ok (snd (net_socket domain type protocol s))"
    using assms udp_open_bound [OF assms, of 0] tcp_open_bound [OF assms] udp_api_ok(1) [OF assms, of 0] tcp_api_ok(1) [OF assms]
    by (auto simp: net_socket_def ksock_ok_def Let_def split: option.split prod.splits if_splits intro!: stack_ok_ksock)
  let ?s1 = "snd (udp_socket_close (proto_of sockfd s) s)"
  obtain fd s2 where o: "udp_socket_open port ?s1 = (fd, s2)" by fastforce
  have "stack_ok ?s1" using assms by (rule udp_api_ok)
  then have s2: "stack_ok s2" "-1 \<le> fd" "fd < 16"
    using udp_api_ok(1) [of ?s1 port] udp_open_bound [of ?s1 port] by (simp_all add: o)
  then have "stack_ok (s2\<lparr>ksockets := (ksockets s2)[nat sockfd := (ksockets s2 ! nat sockfd)\<lparr>ks_proto_fd := fd\<rparr>]\<rparr>)"
    if "\<not> net_bad_socket sockfd s"
    using that by (intro stack_ok_ksock) (auto simp: stack_ok_def ksock_ok_def net_bad_socket_def)
  then show "stack_ok (snd (net_bind sockfd addr port s))"
    using assms by (simp add: net_bind_def Let_def o)
  show "stack_ok (snd (net_listen sockfd backlog s))" "stack_ok (snd (net_recv sockfd n s))"
    "stack_ok (snd (net_recvfrom sockfd n s))"
    using assms by (auto simp: net_listen_def net_recv_def net_recvfrom_def intro: tcp_api_ok udp_api_ok)
qed

section \<open>Polling the driver keeps a well-formed state\<close>

lemma e1000_rx_loop_ok:
  fixes s :: "'a e1000_st_scheme"
  assumes "e1000_rx_loop s = Some t"
  shows "stack_ok s \<longrightarrow> stack_ok t"
proof (rule e1000_rx_loop.raw_induct [where P = "\<lambda>s t. stack_ok s \<longrightarrow> stack_ok t", OF _ assms], rule impI)
  fix f :: "'a e1000_st_scheme \<Rightarrow> 'a e1000_st_scheme option" and s0 t :: "'a e1000_st_scheme"
  assume IH: "\<And>s t. f s = Some t \<Longrightarrow> stack_ok s \<longrightarrow> stack_ok t" and "stack_ok s0"
  define s d where "s = device_runs s0" and "d = rx_descs s (rx_cur s)"
  define poll where "poll = (\<lambda>t. if \<not> e1000_present t then Some t else f t)"
  have "keeps_ok poll" using IH by (auto simp: keeps_ok_def poll_def split: if_splits)
  note deliver = stack_poll.e1000_deliver_ok [OF stack_poll.intro [OF this]]
  have ok: "stack_ok s" unfolding s_def using \<open>stack_ok s0\<close> by (rule stack_ok_device)
  assume "(let s = device_runs s0; d = rx_descs s (rx_cur s) in
      if rd_status d AND E1000_RXD_STAT_DD \<noteq> 0 then
        do { s1 \<leftarrow> e1000_deliver (\<lambda>t. if \<not> e1000_present t then Some t else f t) d s; f (e1000_next_desc s1) }
      else Some s) = Some t"
  then have "s = t \<or> (\<exists>s1. e1000_deliver poll d s = Some s1 \<and> f (e1000_next_desc s1) = Some t)"
    unfolding Let_def s_def [symmetric] d_def [symmetric] poll_def [symmetric]
    by (simp add: Option.bind_eq_Some_conv split: if_splits)
  then show "stack_ok t" using IH deliver ok stack_ok_next_desc by blast
qed

lemma e1000_poll_rx_ok: "keeps_ok e1000_poll_rx"
  using e1000_rx_loop_ok by (auto simp: keeps_ok_def e1000_poll_rx_def split: if_splits)

text \<open>One turn of a busy wait: the device and the clock run, and the interrupt is handled.\<close>

definition idle_turn :: "'a e1000_st_scheme \<Rightarrow> 'a e1000_st_scheme option" where
  "idle_turn s = e1000_irq_handler (device_runs s)"

lemma idle_turn_ok: "keeps_ok idle_turn"
  using keeps_okD [OF e1000_poll_rx_ok] stack_ok_device
  by (auto simp: keeps_ok_def idle_turn_def e1000_irq_handler_def split: if_splits)

interpretation stack: stack_clients e1000_poll_rx idle_turn
  by unfold_locales (rule e1000_poll_rx_ok, rule idle_turn_ok)

section \<open>Reachable states\<close>

lemma stack_ok_register [stack_keeps]:
  assumes "stack_ok s" and "length mac = 6"
  shows "stack_ok (snd (netif_register name mac send s))"
proof (cases "iface_count s < NETIF_MAX")
  case True
  obtain k nm where c: "str_copy_loop 0 0 name NETIF_NAME_MAX (nif_name zero_netif) = (k, nm)" by fastforce
  have "\<forall>r \<in> set (take (route_count s) (routes s)). iface_ok (Suc (iface_count s)) (rt_iface r)"
    "iface_ok (Suc (iface_count s)) (default_iface s)" "iface_ok (Suc (iface_count s)) (e1000_netif s)"
    using assms(1) by (auto simp: stack_ok_def link_ok_def elim!: iface_ok_mono)
  moreover have "\<forall>n \<in> set ((interfaces s)[iface_count s := zero_netif\<lparr>nif_name := nm(k := 0), nif_mac := mac,
      nif_send := send, nif_up := True\<rparr>]). length (nif_mac n) = 6"
    using assms by (intro set_updateD) (auto simp: stack_ok_def link_ok_def)
  ultimately show ?thesis
    using assms True
    by (simp add: netif_register_def Let_def c stack_ok_def link_ok_def iface_ok_def [of _ "Some _"])
qed (use assms in \<open>simp add: netif_register_def\<close>)

lemma register_bound: "iface_ok (iface_count (snd (netif_register name mac send s))) (fst (netif_register name mac send s))"
  by (simp add: netif_register_def Let_def iface_ok_def split: prod.split)

lemma stack_ok_e1000_register [stack_keeps]:
  assumes "stack_ok s" and "length mac = 6"
  shows "stack_ok (e1000_register mac send s)"
proof -
  have "stack_ok (s\<lparr>e1000_present := True\<rparr>)" using assms(1) by (simp add: stack_ok_def link_ok_def)
  then have ok: "stack_ok (snd (netif_register nm mac sd (s\<lparr>e1000_present := True\<rparr>)))" for nm sd
    using assms(2) by (rule stack_ok_register)
  obtain p s1 where p: "netif_register (c_string ''eth0'') mac (Some send) (s\<lparr>e1000_present := True\<rparr>) = (p, s1)"
    by fastforce
  then have "stack_ok s1" "iface_ok (iface_count s1) p"
    using ok [of "c_string ''eth0''" "Some send"] register_bound [of "c_string ''eth0''" mac "Some send" "s\<lparr>e1000_present := True\<rparr>"]
    by simp_all
  then show ?thesis by (simp add: e1000_register_def p stack_ok_def link_ok_def)
qed

lemma netif_get_ok: "iface_ok (iface_count s) (netif_get index s)"
  by (auto simp: netif_get_def iface_ok_def)

text \<open>The entry points of the stack: what the device, the timer, the drivers and the callers of the socket interface do.\<close>

inductive net_step :: "'a e1000_st_scheme \<Rightarrow> 'a e1000_st_scheme \<Rightarrow> bool" where
  runs: "net_step s (device_runs s)"
| poll: "e1000_poll_rx s = Some t \<Longrightarrow> net_step s t"
| irq: "e1000_irq_handler s = Some t \<Longrightarrow> net_step s t"
| tick: "net_step s (tcp_tick s)"
| attach: "length mac = 6 \<Longrightarrow> net_step s (e1000_register mac send s)"
| register: "length mac = 6 \<Longrightarrow> net_step s (snd (netif_register name mac sender s))"
| set_addr: "net_step s (netif_set_addr (netif_get index s) ip msk gw s)"
| route: "net_step s (route_add network msk gw (netif_get index s) s)"
| callback: "net_step s (icmp_set_reply_callback cb s)"
| ping: "icmp_send_echo e1000_poll_rx stk (netif_get index s) ip ident sequence payload n s = Some (r, t) \<Longrightarrow> net_step s t"
| discover: "dhcp_discover e1000_poll_rx (netif_get index s) s = Some (r, t) \<Longrightarrow> net_step s t"
| resolve: "dns_resolve e1000_poll_rx hostname s = Some (ip, t) \<Longrightarrow> net_step s t"
| set_server: "net_step s (dns_set_server ip s)"
| socket: "net_step s (snd (net_socket domain type protocol s))"
| bind: "net_step s (snd (net_bind sockfd addr port s))"
| connect: "net_connect e1000_poll_rx idle_turn sockfd addr port s = Some (r, t) \<Longrightarrow> net_step s t"
| listen: "net_step s (snd (net_listen sockfd backlog s))"
| accept: "net_accept idle_turn sockfd s = Some (r, t) \<Longrightarrow> net_step s t"
| send: "net_send e1000_poll_rx sockfd buf len s = Some (r, t) \<Longrightarrow> net_step s t"
| recv: "net_step s (snd (net_recv sockfd len s))"
| sendto: "net_sendto e1000_poll_rx sockfd buf len addr port s = Some (r, t) \<Longrightarrow> net_step s t"
| recvfrom: "net_step s (snd (net_recvfrom sockfd len s))"
| close: "net_close e1000_poll_rx sockfd s = Some (r, t) \<Longrightarrow> net_step s t"

lemma e1000_irq_ok: "keeps_ok e1000_irq_handler"
  using keeps_okD [OF e1000_poll_rx_ok] by (auto simp: keeps_ok_def e1000_irq_handler_def split: if_splits)

lemma net_step_ok: "net_step s t \<Longrightarrow> stack_ok s \<Longrightarrow> stack_ok t"
proof (induction rule: net_step.induct)
  case (poll s t)
  then show ?case using keeps_okD [OF e1000_poll_rx_ok] by blast
next
  case (irq s t)
  then show ?case using keeps_okD [OF e1000_irq_ok] by blast
next
  case (callback s cb)
  then show ?case by (simp add: icmp_set_reply_callback_def stack_ok_def link_ok_def)
next
  case (set_server s ip)
  then show ?case by (simp add: dns_set_server_def stack_ok_neutral)
qed (auto intro: stack_keeps net_api_ok netif_get_ok stack.icmp_send_echo_ok stack.dhcp_discover_ok stack.dns_resolve_ok
    stack.net_connect_ok stack.net_accept_ok stack.net_send_ok stack.net_sendto_ok stack.net_close_ok)

lemma stack_ok_init:
  assumes "klog_start (klog s) < KLOG_MAX_ENTRIES" and "klog_size (klog s) \<le> KLOG_MAX_ENTRIES"
    and "rx_cur s < E1000_NUM_RX_DESC" and "e1000_netif s = None"
  shows "stack_ok (net_init s)"
  using assms
  by (simp add: net_init_def netif_init_def arp_init_def ipv4_init_def udp_init_def tcp_init_def dns_init_def stack_ok_def
      link_ok_def iface_ok_def zero_netif_def zero_arp_entry_def zero_udp_socket_def udp_sock_ok_def zero_tcp_socket_def
      tcp_sock_ok_def ksock_ok_def)

section \<open>Properties\<close>

text \<open>C6: every state of the network stack reachable from \<^verbatim>\<open>net_init\<close> is well-formed, whatever the
  device receives: all tables keep their size, every interface pointer names a registered interface,
  every receive buffer of a UDP or TCP socket is filled at most to its size, and every kernel socket
  in use names an entry of a protocol table or none.\<close>

theorem stack_reachable:
  assumes "klog_start (klog s) < KLOG_MAX_ENTRIES" and "klog_size (klog s) \<le> KLOG_MAX_ENTRIES"
    and "rx_cur s < E1000_NUM_RX_DESC" and "e1000_netif s = None" and "net_step\<^sup>*\<^sup>* (net_init s) t"
  shows "stack_ok t"
  using assms(5)
proof (induction rule: rtranclp_induct)
  case base
  show ?case using assms(1-4) by (rule stack_ok_init)
qed (rule net_step_ok)

theorem stack_reachable_witness:
  "stack_ok (snd (net_socket AF_INET SOCK_DGRAM 0 (e1000_register [2, 0, 0, 0, 0, 1] (\<lambda>frame. 0) (net_init cold_net))))"
proof (rule stack_reachable [of cold_net])
  show "klog_start (klog cold_net) < KLOG_MAX_ENTRIES" "klog_size (klog cold_net) \<le> KLOG_MAX_ENTRIES"
    "rx_cur cold_net < E1000_NUM_RX_DESC" "e1000_netif cold_net = None"
    by (simp_all add: cold_net_def KLOG_MAX_ENTRIES_def E1000_NUM_RX_DESC_def)
  have "net_step (net_init cold_net) (e1000_register [2, 0, 0, 0, 0, 1] (\<lambda>frame. 0) (net_init cold_net))"
    by (rule net_step.attach) simp
  then show "net_step\<^sup>*\<^sup>* (net_init cold_net)
      (snd (net_socket AF_INET SOCK_DGRAM 0 (e1000_register [2, 0, 0, 0, 0, 1] (\<lambda>frame. 0) (net_init cold_net))))"
    by (blast intro: rtranclp.rtrancl_into_rtrancl net_step.socket)
qed

end
