(* ===== verification/Net_Delivery.thy ===== *)
theory Net_Delivery
  imports Net_Stack
begin

text \<open>
  Delivery between two hosts: the frame that one of them hands to its driver is read back by the layers
  of the other.
\<close>

section \<open>The sender\<close>

definition eth_frame :: "u8 list \<Rightarrow> u8 list \<Rightarrow> u8 list \<Rightarrow> u8 list" where
  "eth_frame dst src packet = dst @ src @ st16 (htons ETHERTYPE_IPV4) @ packet"

lemma ipv4_packet_length: "length (ipv4_packet i dst_ip protocol payload len s) = 20 + unat len"
  by (simp add: ipv4_packet_def Let_def)

lemma ipv4_send_resolved:
  assumes "nif_send (interfaces s ! i) = Some send" and "unat len \<le> 1480" and "length mac = 6"
    and "arp_lookup i (ipv4_next_hop (interfaces s ! i) dst_ip) s = Some mac"
    and frame_def: "frame = eth_frame mac (nif_mac (interfaces s ! i)) (ipv4_packet i dst_ip protocol payload len s)"
  shows "ipv4_send poll (Some i) dst_ip protocol payload len s =
    Some (send frame, s\<lparr>ip_id_counter := ip_id_counter s + 1, tx := tx s @ [(i, frame)]\<rparr>)"
proof -
  let ?s = "s\<lparr>ip_id_counter := ip_id_counter s + 1, overrun := overrun s\<rparr>"
  let ?p = "ipv4_packet i dst_ip protocol payload len s"
  have n: "unat (IP_HDR_MIN_LEN + len) = 20 + unat len"
    using assms(2) by (simp add: IP_HDR_MIN_LEN_def unat_plus_if')
  then have le: "\<not> IP_HDR_MIN_LEN + len > ETH_MTU"
    using assms(2) by (simp add: ETH_MTU_def word_less_nat_alt)
  have "map (nth ?p) [0..<20 + unat len] = ?p"
    using map_nth [of ?p] by (simp add: ipv4_packet_length)
  then have "eth_send (Some i) mac ETHERTYPE_IPV4 (nth ?p) (IP_HDR_MIN_LEN + len) ?s =
      (send frame, s\<lparr>ip_id_counter := ip_id_counter s + 1, tx := tx s @ [(i, frame)]\<rparr>)"
    using assms(1,3) le n by (simp add: eth_send_def frame_def eth_frame_def Let_def)
  moreover have "ipv4_resolve poll i (ipv4_next_hop (interfaces s ! i) dst_ip) ?s = Some (Some mac, ?s)"
    using assms(4) arp_lookup_cong [of ?s s] by (simp add: ipv4_resolve_def arp_resolve_lookup)
  moreover have "\<not> unat ETH_MTU < unat IP_HDR_MIN_LEN + unat len"
    using assms(2) by (simp add: ETH_MTU_def IP_HDR_MIN_LEN_def)
  ultimately show ?thesis using le by (simp add: ipv4_send_def ipv4_output_iface_def Let_def)
qed

section \<open>The receiver\<close>

lemma eth_frame_bytes:
  assumes "length dst = 6" and "length src = 6"
  shows "eth_frame dst src packet ! (14 + k) = packet ! k" "ld16 (nth (eth_frame dst src packet)) 12 = htons ETHERTYPE_IPV4"
proof -
  show "eth_frame dst src packet ! (14 + k) = packet ! k"
    using assms by (simp add: eth_frame_def nth_append st16_def)
  show "ld16 (nth (eth_frame dst src packet)) 12 = htons ETHERTYPE_IPV4"
    by (rule ld16_bytes) (use assms in \<open>simp_all add: eth_frame_def nth_append st16_def\<close>)
qed

lemma eth_rx_frame:
  assumes "length dst = 6" and "length src = 6" and "length packet \<le> 1500"
  shows "netif_rx poll j (nth (eth_frame dst src packet)) (of_nat (length (eth_frame dst src packet))) t =
    ipv4_rx poll j (nth packet) (of_nat (length packet)) t"
proof -
  let ?f = "eth_frame dst src packet"
  have l: "length ?f = 14 + length packet" using assms by (simp add: eth_frame_def)
  note d = eth_frame_bytes(1) [OF assms(1,2), of packet] and e = eth_frame_bytes(2) [OF assms(1,2), of packet]
  have "unat (of_nat (length ?f) :: u16) = 14 + length packet"
    unfolding l using assms(3) by (simp only: unat_of_nat) simp
  then have "\<not> (of_nat (length ?f) :: u16) < ETH_HDR_LEN"
    by (simp add: ETH_HDR_LEN_def word_less_nat_alt)
  moreover have "(of_nat (length ?f) :: u16) - ETH_HDR_LEN = of_nat (length packet)"
    by (simp add: l ETH_HDR_LEN_def)
  ultimately show ?thesis
    by (simp add: netif_rx_def eth_rx_def Let_def e d ETHERTYPE_IPV4_def ETHERTYPE_ARP_def ETH_HDR_LEN_def)
qed

lemma ipv4_packet_bytes:
  assumes "pk = ipv4_packet i dst_ip protocol payload len s"
  shows "pk ! 0 = 0x45" "ld16 (nth pk) 2 = htons (20 + len)" "pk ! 9 = protocol" "ld32 (nth pk) 12 = ip_addr (interfaces s ! i)"
    "ld32 (nth pk) 16 = dst_ip" "pk ! (20 + k) = map payload [0..<unat len] ! k" "ipv4_checksum (nth pk) 20 = 0"
proof -
  let ?h = "\<lambda>c. ipv4_header (20 + len) (ip_id_counter s) protocol c (ip_addr (interfaces s ! i)) dst_ip"
  have pk: "pk = ?h (ipv4_checksum (nth (?h 0)) 20) @ map payload [0..<unat len]"
    by (simp add: assms ipv4_packet_def Let_def IP_HDR_MIN_LEN_def)
  note b = ipv4_header_bytes [of "nth pk", unfolded pk, OF refl, folded pk]
  show "pk ! 0 = 0x45" "ld16 (nth pk) 2 = htons (20 + len)" "pk ! 9 = protocol" "ld32 (nth pk) 12 = ip_addr (interfaces s ! i)"
    "ld32 (nth pk) 16 = dst_ip" "pk ! (20 + k) = map payload [0..<unat len] ! k"
    by (rule b)+
  show "ipv4_checksum (nth pk) 20 = 0" unfolding pk by (rule ipv4_header_checksum) simp
qed

lemma ipv4_rx_packet:
  assumes "unat len \<le> 1480" and "ip_addr (interfaces t ! j) = dst_ip"
    and "pk = ipv4_packet i dst_ip IP_PROTO_UDP payload len s"
  shows "ipv4_rx poll j (nth pk) (of_nat (length pk)) t =
    udp_rx poll j (ip_addr (interfaces s ! i)) dst_ip (nth (map payload [0..<unat len])) len t"
proof -
  let ?n = "20 + len"
  note b = ipv4_packet_bytes [OF assms(3)]
  have n: "of_nat (length pk) = ?n"
    by (simp add: assms(3) ipv4_packet_length)
  have "unat ?n = 20 + unat len" using assms(1) by (simp add: unat_plus_if')
  then have "\<not> ?n < IP_HDR_MIN_LEN" by (simp add: IP_HDR_MIN_LEN_def word_less_nat_alt)
  then show ?thesis
    using assms(2) by (simp add: ipv4_rx_def Let_def n b IP_PROTO_ICMP_def IP_PROTO_UDP_def IP_HDR_MIN_LEN_def)
qed

definition udp_datagram :: "u16 \<Rightarrow> u16 \<Rightarrow> bytes_at \<Rightarrow> u16 \<Rightarrow> u8 list" where
  "udp_datagram src_port dst_port payload len =
     st16 (htons src_port) @ st16 (htons dst_port) @ st16 (htons (UDP_HDR_LEN + len)) @ st16 0 @ map payload [0..<unat len]"

lemma udp_send_datagram:
  assumes "unat len \<le> 1472"
  shows "udp_send poll iface dst_ip src_port dst_port payload len s =
    ipv4_send poll iface dst_ip IP_PROTO_UDP (nth (udp_datagram src_port dst_port payload len)) (8 + len) s"
    "unat (8 + len) = 8 + unat len"
proof -
  show n: "unat (8 + len) = 8 + unat len" using assms by (simp add: unat_plus_if')
  have "\<not> ETH_MTU - 20 < UDP_HDR_LEN + len" "\<not> unat ETH_MTU < unat UDP_HDR_LEN + unat len"
    using assms n by (simp_all add: ETH_MTU_def UDP_HDR_LEN_def word_less_nat_alt)
  then show "udp_send poll iface dst_ip src_port dst_port payload len s =
    ipv4_send poll iface dst_ip IP_PROTO_UDP (nth (udp_datagram src_port dst_port payload len)) (8 + len) s"
    by (simp add: udp_send_def Let_def udp_datagram_def UDP_HDR_LEN_def)
qed

lemma udp_rx_datagram:
  assumes "unat len \<le> 1472" and "dst_port \<noteq> DHCP_CLIENT_PORT" and "src_port \<noteq> DNS_PORT"
  shows "udp_rx poll j src_ip dst_ip (nth (udp_datagram src_port dst_port payload len)) (8 + len) t =
    Some (udp_deliver dst_port src_ip src_port (nth (map payload [0..<unat len])) len t)"
proof -
  let ?b = "udp_datagram src_port dst_port payload len"
  have "ld16 (nth ?b) 0 = htons src_port" "ld16 (nth ?b) 2 = htons dst_port" "ld16 (nth ?b) 4 = htons (8 + len)"
    by (rule ld16_bytes; simp add: udp_datagram_def st16_def UDP_HDR_LEN_def)+
  moreover have "?b ! (8 + k) = map payload [0..<unat len] ! k" for k
    by (simp add: udp_datagram_def nth_append st16_def)
  moreover have "\<not> 8 + len < UDP_HDR_LEN"
    using udp_send_datagram(2) [OF assms(1)] by (simp add: UDP_HDR_LEN_def word_less_nat_alt)
  ultimately show ?thesis
    using assms(2,3) by (simp add: udp_rx_def Let_def UDP_HDR_LEN_def)
qed

lemma udp_deliver_recvfrom:
  assumes "first_idx (udp_matches dst_port src_ip src_port) (udp_sockets t) = Some k"
    and "length (udp_sockets t) = UDP_MAX_SOCKETS" and "unat len \<le> 4096" and "len \<le> n"
  shows "fst (udp_socket_recvfrom (int k) n (udp_deliver dst_port src_ip src_port payload len t)) =
    (int (unat len), map payload [0..<unat len], Some (src_ip, src_port))"
proof -
  have k: "k < 16" "us_used (udp_sockets t ! k)"
    using first_idx_SomeD [OF assms(1)] assms(2) by (simp_all add: UDP_MAX_SOCKETS_def udp_matches_def)
  have "\<not> len > UDP_RX_BUF_SIZE" "\<not> len > n"
    using assms(3,4) by (simp_all add: UDP_RX_BUF_SIZE_def word_less_nat_alt word_le_nat_alt)
  then show ?thesis
    using assms(1,2) k
    by (simp add: udp_deliver_def udp_socket_recvfrom_def udp_bad_socket_def Let_def copy_in_def UDP_MAX_SOCKETS_def)
qed

section \<open>Properties\<close>

text \<open>C7: a datagram of at most 1472 bytes sent from a socket of one host to an address whose hardware
  address is known is handed to the driver as one frame; the host with that address, when it receives the
  frame, delivers it to the first socket bound to the port, and receiving from that socket returns exactly
  the bytes sent, with the address and the port of the sender.\<close>

theorem udp_round_trip:
  assumes "\<not> udp_bad_socket sock s" and "src_port = us_local_port (udp_sockets s ! nat sock)"
    and "default_iface s = Some i" and "src_ip = ip_addr (interfaces s ! i)"
    and "nif_send (interfaces s ! i) = Some send" and "length (nif_mac (interfaces s ! i)) = 6"
    and "arp_lookup i (ipv4_next_hop (interfaces s ! i) dst_ip) s = Some mac" and "length mac = 6"
    and "unat len \<le> 1472" and "len \<le> n"
    and "ip_addr (interfaces t ! j) = dst_ip" and "length (udp_sockets t) = UDP_MAX_SOCKETS"
    and "first_idx (udp_matches dst_port src_ip src_port) (udp_sockets t) = Some k"
    and "dst_port \<noteq> DHCP_CLIENT_PORT" and "src_port \<noteq> DNS_PORT"
  shows "\<exists>frame s' t'.
    udp_socket_sendto poll sock dst_ip dst_port data len s = Some (send frame, s') \<and> tx s' = tx s @ [(i, frame)] \<and>
    netif_rx poll' j (nth frame) (of_nat (length frame)) t = Some t' \<and>
    fst (udp_socket_recvfrom (int k) n t') = (int (unat len), map data [0..<unat len], Some (src_ip, src_port))"
proof -
  let ?u = "udp_datagram src_port dst_port data len"
  let ?p = "ipv4_packet i dst_ip IP_PROTO_UDP (nth ?u) (8 + len) s"
  let ?f = "eth_frame mac (nif_mac (interfaces s ! i)) ?p"
  let ?s = "s\<lparr>ip_id_counter := ip_id_counter s + 1, tx := tx s @ [(i, ?f)]\<rparr>"
  let ?t = "udp_deliver dst_port src_ip src_port (nth (map data [0..<unat len])) len t"
  note n = udp_send_datagram(2) [OF assms(9)]
  have l: "unat (8 + len) \<le> 1480" using assms(9) n by simp
  have "length ?u = unat (8 + len)" using n by (simp add: udp_datagram_def)
  then have u: "map (nth ?u) [0..<unat (8 + len)] = ?u" by (metis map_nth)
  have "udp_socket_sendto poll sock dst_ip dst_port data len s = Some (send ?f, ?s)"
    using assms(1-3) ipv4_send_resolved [OF assms(5) l assms(8,7) refl]
    by (simp add: udp_socket_sendto_def netif_get_default_def udp_send_datagram(1) [OF assms(9)])
  moreover have "netif_rx poll' j (nth ?f) (of_nat (length ?f)) t = Some ?t"
  proof -
    have "netif_rx poll' j (nth ?f) (of_nat (length ?f)) t = ipv4_rx poll' j (nth ?p) (of_nat (length ?p)) t"
      using l by (intro eth_rx_frame assms(8,6)) (simp add: ipv4_packet_length)
    also have "\<dots> = udp_rx poll' j src_ip dst_ip (nth ?u) (8 + len) t"
      using ipv4_rx_packet [OF l assms(11) refl, of poll' i "nth ?u" s] u assms(4) by simp
    also have "\<dots> = Some ?t" by (rule udp_rx_datagram [OF assms(9,14,15)])
    finally show ?thesis .
  qed
  moreover have "map (nth (map data [0..<unat len])) [0..<unat len] = map data [0..<unat len]"
    by (rule nth_equalityI) simp_all
  then have "fst (udp_socket_recvfrom (int k) n ?t) = (int (unat len), map data [0..<unat len], Some (src_ip, src_port))"
    using udp_deliver_recvfrom [OF assms(13,12) _ assms(10)] assms(9) by simp
  ultimately show ?thesis by (intro exI [of _ ?f] exI [of _ ?s] exI [of _ ?t]) simp
qed

text \<open>Two hosts on one network, with sockets on the ports 1000 and 2000; the first knows the second.\<close>

definition sender_host :: e1000_st where
  "sender_host = arp_cache_add 0x0200000A [2, 0, 0, 0, 0, 2]
     (snd (udp_socket_open 1000 (host 0x0100000A [2, 0, 0, 0, 0, 1])))"

definition receiver_host :: e1000_st where
  "receiver_host = snd (udp_socket_open 2000 (host 0x0200000A [2, 0, 0, 0, 0, 2]))"

lemma udp_socket_open_fields:
  "udp_sockets s = replicate UDP_MAX_SOCKETS zero_udp_socket \<Longrightarrow> snd (udp_socket_open port s) =
     s\<lparr>udp_sockets := zero_udp_socket\<lparr>us_used := True, us_local_port := port\<rparr> # replicate 15 zero_udp_socket\<rparr>"
  by (simp add: udp_socket_open_def UDP_MAX_SOCKETS_def zero_udp_socket_def numeral_eq_Suc)

lemma sender_host_fields:
  "interfaces sender_host = interfaces (host 0x0100000A [2, 0, 0, 0, 0, 1])" "default_iface sender_host = Some 0"
  "udp_sockets sender_host = zero_udp_socket\<lparr>us_used := True, us_local_port := 1000\<rparr> # replicate 15 zero_udp_socket"
  "arp_cache sender_host = \<lparr>ae_ip = 0x0200000A, ae_mac = [2, 0, 0, 0, 0, 2], ae_timestamp = ticks sender_host, ae_valid = True\<rparr> #
     replicate 31 zero_arp_entry"
  by (simp_all add: sender_host_def udp_socket_open_fields host_fields arp_cache_add_def Let_def ARP_CACHE_SIZE_def zero_arp_entry_def
      numeral_eq_Suc)

theorem udp_round_trip_witness:
  "\<exists>frame s' t'. udp_socket_sendto Some 0 0x0200000A 2000 (nth [104, 105]) 2 sender_host = Some (0, s') \<and>
     tx s' = tx sender_host @ [(0, frame)] \<and>
     netif_rx Some 0 (nth frame) (of_nat (length frame)) receiver_host = Some t' \<and>
     fst (udp_socket_recvfrom 0 100 t') = (2, [104, 105], Some (0x0100000A, 1000))"
proof -
  have s: "\<not> udp_bad_socket 0 sender_host" "1000 = us_local_port (udp_sockets sender_host ! nat 0)"
    "0x0100000A = ip_addr (interfaces sender_host ! 0)" "nif_send (interfaces sender_host ! 0) = Some (\<lambda>frame. 0)"
    "length (nif_mac (interfaces sender_host ! 0)) = 6"
    "arp_lookup 0 (ipv4_next_hop (interfaces sender_host ! 0) 0x0200000A) sender_host = Some [2, 0, 0, 0, 0, 2]"
    by (simp_all add: udp_bad_socket_def sender_host_fields host_fields UDP_MAX_SOCKETS_def arp_lookup_def ipv4_next_hop_def)
  have t: "ip_addr (interfaces receiver_host ! 0) = 0x0200000A" "length (udp_sockets receiver_host) = UDP_MAX_SOCKETS"
    "first_idx (udp_matches 2000 0x0100000A 1000) (udp_sockets receiver_host) = Some 0"
    by (simp_all add: receiver_host_def udp_socket_open_fields host_fields UDP_MAX_SOCKETS_def udp_matches_def zero_udp_socket_def)
  have u: "unat (2 :: u16) \<le> 1472" "(2 :: u16) \<le> 100" "length [2, 0, 0, 0, 0, 2 :: u8] = 6"
    "2000 \<noteq> DHCP_CLIENT_PORT" "1000 \<noteq> DNS_PORT"
    by (simp_all add: DHCP_CLIENT_PORT_def DNS_PORT_def)
  have "map (nth [104, 105 :: u8]) [0..<unat (2 :: u16)] = [104, 105]" by (simp add: upt_rec)
  then show ?thesis
    using udp_round_trip [OF s(1,2) sender_host_fields(2) s(3-6) u(3,1,2) t u(4,5), of Some "nth [104, 105]" Some]
    by simp
qed

end
