(* ===== verification/Net_Echo.thy ===== *)
theory Net_Echo
  imports Net_Delivery
begin

text \<open>
  An echo request whose sender cannot be resolved. The driver marks a descriptor as free only after the
  stack has handled its packet; the stack answers an echo request by sending, and sending polls the driver
  while it waits for the address of the sender. That inner poll finds the same descriptor, and handles the
  same packet again.
\<close>

section \<open>The pending packet\<close>

text \<open>The descriptor that the driver looks at next holds a complete echo request for this host, from an
  address that is not in the cache.\<close>

definition pending_echo :: "'a e1000_st_scheme \<Rightarrow> bool" where
  "pending_echo s \<longleftrightarrow>
     (case e1000_netif s of None \<Rightarrow> False
      | Some i \<Rightarrow>
          let d = rx_descs s (rx_cur s);
              p = (\<lambda>k. rd_buf d (14 + k));
              total = ntohs (ld16 p 2)
          in rd_status d AND E1000_RXD_STAT_DD \<noteq> 0 \<and> rd_status d AND E1000_RXD_STAT_EOP \<noteq> 0 \<and>
             ntohs (ld16 (rd_buf d) 12) = ETHERTYPE_IPV4 \<and> p 0 = 0x45 \<and> p 9 = IP_PROTO_ICMP \<and>
             28 \<le> unat total \<and> unat total \<le> 1500 \<and> unat total + 14 \<le> unat (rd_length d) \<and>
             ipv4_checksum p 20 = 0 \<and> ld32 p 16 = ip_addr (interfaces s ! i) \<and> p 20 = ICMP_ECHO_REQUEST \<and>
             arp_lookup i (ipv4_next_hop (interfaces s ! i) (ld32 p 12)) s = None)"

text \<open>The card does not write to a descriptor that it has completed until the driver returns it.\<close>

definition device_waits :: "'a e1000_st_scheme \<Rightarrow> bool" where
  "device_waits s \<longleftrightarrow> (\<forall>m ring. rd_status (ring (rx_cur s)) AND E1000_RXD_STAT_DD \<noteq> 0 \<longrightarrow>
     device s m ring (rx_cur s) = ring (rx_cur s))"

definition stuck :: "'a e1000_st_scheme \<Rightarrow> bool" where
  "stuck s \<longleftrightarrow> e1000_present s \<and> device_waits s \<and> pending_echo s"

lemma stuck_cong:
  assumes "stuck s" and "e1000_present t = e1000_present s" "device t = device s" "rx_cur t = rx_cur s"
    "e1000_netif t = e1000_netif s" "rx_descs t (rx_cur s) = rx_descs s (rx_cur s)" "interfaces t = interfaces s"
    "arp_cache t = arp_cache s"
  shows "stuck t"
  using assms arp_lookup_cong [OF assms(7,8)]
  by (simp add: stuck_def device_waits_def pending_echo_def Let_def split: option.splits)

lemma stuck_device: "stuck s \<Longrightarrow> stuck (device_runs s) \<and> rx_descs (device_runs s) (rx_cur s) = rx_descs s (rx_cur s)"
proof -
  assume s: "stuck s"
  then have "device s (reads s) (rx_descs s) (rx_cur s) = rx_descs s (rx_cur s)"
    by (auto simp: stuck_def device_waits_def pending_echo_def Let_def split: option.splits)
  then show ?thesis using s by (auto intro!: stuck_cong [OF s] simp: device_runs_def)
qed

lemma arp_request_tx: "\<exists>x. arp_request i ip s = s\<lparr>tx := x\<rparr>"
proof -
  have "\<exists>x. s = s\<lparr>tx := x\<rparr>" by (rule exI [of _ "tx s"]) simp
  then show ?thesis by (auto simp: arp_request_def eth_send_def Let_def split: option.split)
qed

lemma ipv4_send_stuck:
  assumes "stuck s" and poll: "\<And>t. stuck t \<Longrightarrow> poll t = None" and "unat len \<le> 1480"
    and "arp_lookup i (ipv4_next_hop (interfaces s ! i) dst_ip) s = None"
  shows "ipv4_send poll (Some i) dst_ip protocol payload len s = None"
proof -
  let ?s = "s\<lparr>ip_id_counter := ip_id_counter s + 1, overrun := (overrun s \<or> unat IP_HDR_MIN_LEN + unat len > unat ETH_MTU)\<rparr>"
  let ?nh = "ipv4_next_hop (interfaces s ! i) dst_ip"
  obtain x where x: "arp_request i ?nh ?s = ?s\<lparr>tx := x\<rparr>" using arp_request_tx by blast
  have "stuck (?s\<lparr>tx := x\<rparr>)" by (rule stuck_cong [OF assms(1)]) simp_all
  then have "poll (?s\<lparr>tx := x\<rparr>) = None" by (rule poll)
  moreover have "arp_lookup i ?nh ?s = None" using assms(4) arp_lookup_cong [of ?s s] by simp
  ultimately have "ipv4_resolve poll i ?nh ?s = None"
    unfolding ipv4_resolve_def arp_resolve_lookup by (simp add: x numeral_eq_Suc)
  moreover have "\<not> IP_HDR_MIN_LEN + len > ETH_MTU"
    using assms(3) by (simp add: IP_HDR_MIN_LEN_def ETH_MTU_def word_less_nat_alt unat_plus_if')
  ultimately show ?thesis by (simp add: ipv4_send_def ipv4_output_iface_def Let_def)
qed

lemma deliver_stuck:
  assumes "stuck s" and poll: "\<And>t. stuck t \<Longrightarrow> poll t = None"
  shows "e1000_deliver poll (rx_descs s (rx_cur s)) s = None"
proof -
  let ?d = "rx_descs s (rx_cur s)"
  define p total where "p = (\<lambda>k. rd_buf ?d (14 + k))" and "total = ntohs (ld16 p 2)"
  obtain i where i: "e1000_netif s = Some i"
    using assms(1) by (auto simp: stuck_def pending_echo_def split: option.splits)
  have d: "rd_status ?d AND E1000_RXD_STAT_EOP \<noteq> 0" "ntohs (ld16 (rd_buf ?d) 12) = ETHERTYPE_IPV4"
    and h: "p 0 = 0x45" "p 9 = IP_PROTO_ICMP" "ipv4_checksum p 20 = 0" "ld32 p 16 = ip_addr (interfaces s ! i)"
      "p 20 = ICMP_ECHO_REQUEST" "arp_lookup i (ipv4_next_hop (interfaces s ! i) (ld32 p 12)) s = None"
    and n: "28 \<le> unat total" "unat total \<le> 1500" "unat total + 14 \<le> unat (rd_length ?d)"
    using assms(1) i by (simp_all add: stuck_def pending_echo_def Let_def p_def total_def)
  have l: "unat (rd_length ?d - ETH_HDR_LEN) = unat (rd_length ?d) - 14"
    using n by (simp add: ETH_HDR_LEN_def unat_sub_if')
  have t: "unat (total - 20) = unat total - 20" using n by (simp add: unat_sub_if')
  have "icmp_rx poll i (ld32 p 12) (\<lambda>k. p (20 + k)) (total - 20) s = None"
  proof -
    have "\<not> total - 20 < sizeof_icmp_header" "\<not> total - 20 > ETH_MTU - 20" "unat (total - 20) \<le> 1480"
      using n t by (simp_all add: sizeof_icmp_header_def ETH_MTU_def word_less_nat_alt)
    then show ?thesis
      using h(5) ipv4_send_stuck [OF assms(1) poll _ h(6)] by (simp add: icmp_rx_def Let_def)
  qed
  moreover have "ipv4_rx poll i p (rd_length ?d - ETH_HDR_LEN) s =
      icmp_rx poll i (ld32 p 12) (\<lambda>k. p (20 + k)) (total - 20) s"
  proof -
    have "\<not> rd_length ?d - ETH_HDR_LEN < IP_HDR_MIN_LEN" "\<not> total > rd_length ?d - ETH_HDR_LEN"
      using l n by (simp_all add: IP_HDR_MIN_LEN_def word_less_nat_alt)
    then show ?thesis
      using h by (simp add: ipv4_rx_def Let_def total_def [symmetric] IP_HDR_MIN_LEN_def)
  qed
  moreover have "\<not> rd_length ?d < ETH_HDR_LEN" "rd_length ?d > 0"
    using n by (auto simp: ETH_HDR_LEN_def word_less_nat_alt)
  ultimately show ?thesis
    using d i
    by (simp add: e1000_deliver_def netif_rx_def eth_rx_def Let_def p_def ETHERTYPE_IPV4_def ETHERTYPE_ARP_def ETH_HDR_LEN_def)
qed

lemma rx_loop_stuck:
  fixes s :: "'a e1000_st_scheme"
  assumes "stuck s"
  shows "e1000_rx_loop s = None"
proof (rule ccontr)
  assume "e1000_rx_loop s \<noteq> None"
  then obtain t where t: "e1000_rx_loop s = Some t" by blast
  have "\<not> stuck s"
  proof (rule e1000_rx_loop.raw_induct [where P = "\<lambda>s t. \<not> stuck s", OF _ t], rule notI)
    fix f :: "'a e1000_st_scheme \<Rightarrow> 'a e1000_st_scheme option" and s0 t :: "'a e1000_st_scheme"
    assume IH: "\<And>s t. f s = Some t \<Longrightarrow> \<not> stuck s" and s0: "stuck s0"
    define s d where "s = device_runs s0" and "d = rx_descs s (rx_cur s)"
    have s: "stuck s" "rx_cur s = rx_cur s0" using stuck_device [OF s0] by (simp_all add: s_def device_runs_def)
    have "(if \<not> e1000_present t then Some t else f t) = None" if "stuck t" for t
      using IH [of t] that by (cases "f t") (auto simp: stuck_def)
    then have "e1000_deliver (\<lambda>t. if \<not> e1000_present t then Some t else f t) d s = None"
      unfolding d_def by (intro deliver_stuck s(1))
    moreover have "rd_status d AND E1000_RXD_STAT_DD \<noteq> 0"
      using s(1) by (auto simp: stuck_def pending_echo_def d_def Let_def split: option.splits)
    moreover assume "(let s = device_runs s0; d = rx_descs s (rx_cur s) in
      if rd_status d AND E1000_RXD_STAT_DD \<noteq> 0 then
        do { s1 \<leftarrow> e1000_deliver (\<lambda>t. if \<not> e1000_present t then Some t else f t) d s; f (e1000_next_desc s1) }
      else Some s) = Some t"
    ultimately show False by (simp add: Let_def flip: s_def d_def)
  qed
  then show False using assms by simp
qed

section \<open>Properties\<close>

text \<open>C8: once an echo request from an unresolved address is at the head of the ring of the card, polling the
  driver never returns: the handler of the request polls the driver, which handles the same request, without end.\<close>

theorem echo_poll_never_returns:
  assumes "e1000_present s" and "device_waits s" and "pending_echo s"
  shows "e1000_poll_rx s = None"
  using rx_loop_stuck [of s] assms by (simp add: e1000_poll_rx_def stuck_def)

text \<open>An echo request from 10.0.0.9, of which the cache knows nothing, received by 10.0.0.1.\<close>

definition echo_frame :: "u8 list" where
  "echo_frame = eth_frame [2, 0, 0, 0, 0, 1] [2, 0, 0, 0, 0, 9]
     (ipv4_packet 0 0x0100000A IP_PROTO_ICMP (nth [8, 0, 0xF7, 0xFF, 0, 0, 0, 0]) 8 (host 0x0900000A [2, 0, 0, 0, 0, 9]))"

definition pinged_host :: e1000_st where
  "pinged_host = (host 0x0100000A [2, 0, 0, 0, 0, 1])\<lparr>rx_descs := (\<lambda>_. \<lparr>rd_length = 42, rd_status = 3, rd_buf = nth echo_frame\<rparr>)\<rparr>"

theorem echo_poll_never_returns_witness: "e1000_poll_rx pinged_host = None"
proof (rule echo_poll_never_returns)
  show "e1000_present pinged_host" by (simp add: pinged_host_def host_fields)
  show "device_waits pinged_host"
    by (simp add: pinged_host_def device_waits_def host_def netif_set_addr_def e1000_register_def netif_register_def net_init_def
        netif_init_def arp_init_def ipv4_init_def udp_init_def tcp_init_def dns_init_def cold_net_def Let_def split: prod.split)
  define pk where "pk = ipv4_packet 0 0x0100000A IP_PROTO_ICMP (nth [8, 0, 0xF7, 0xFF, 0, 0, 0, 0]) 8 (host 0x0900000A [2, 0, 0, 0, 0, 9])"
  note b = ipv4_packet_bytes [OF pk_def]
  have f: "echo_frame ! (14 + k) = pk ! k" "ld16 (nth echo_frame) 12 = htons ETHERTYPE_IPV4" for k
    using eth_frame_bytes [of "[2, 0, 0, 0, 0, 1]" "[2, 0, 0, 0, 0, 9]" pk] by (simp_all add: echo_frame_def pk_def)
  have e: "pk ! 20 = ICMP_ECHO_REQUEST" using b(6) [of 0] by (simp add: ICMP_ECHO_REQUEST_def)
  have a: "arp_lookup 0 (ipv4_next_hop (interfaces pinged_host ! 0) 0x0900000A) pinged_host = None"
    by (simp add: pinged_host_def host_fields arp_lookup_def ipv4_next_hop_def zero_arp_entry_def first_idx_None_iff)
  show "pending_echo pinged_host"
    using a f(1) [of 0] f(1) [of 9] f(1) [of 20]
    by (simp add: pending_echo_def pinged_host_def host_fields Let_def f b e E1000_RXD_STAT_DD_def E1000_RXD_STAT_EOP_def)
qed

end
