(* ===== verification/Net_Stream.thy ===== *)
theory Net_Stream
  imports Net_Inv Net_Echo "HOL-Library.Multiset"
begin

text \<open>
  What the layers of the stack compute: the address cache as a list in the order of recency, the receive buffer of a TCP
  connection as a queue of bytes, and the sizes that UDP accepts.
\<close>

section \<open>The address cache\<close>

definition cache_of :: "arp_entry list \<Rightarrow> u32 \<Rightarrow> u8 list option" where
  "cache_of c ip = map_option (\<lambda>i. ae_mac (c ! i)) (first_idx (\<lambda>e. ae_valid e \<and> ae_ip e = ip) c)"

text \<open>No two valid entries are for the same address.\<close>

definition arp_unique :: "arp_entry list \<Rightarrow> bool" where
  "arp_unique c \<longleftrightarrow> (\<forall>i < length c. \<forall>j < length c.
     ae_valid (c ! i) \<and> ae_valid (c ! j) \<and> ae_ip (c ! i) = ae_ip (c ! j) \<longrightarrow> i = j)"

lemma cache_of_Some: "arp_unique c \<Longrightarrow> i < length c \<Longrightarrow> ae_valid (c ! i) \<Longrightarrow> cache_of c (ae_ip (c ! i)) = Some (ae_mac (c ! i))"
proof -
  assume a: "arp_unique c" "i < length c" "ae_valid (c ! i)"
  have "first_idx (\<lambda>e. ae_valid e \<and> ae_ip e = ae_ip (c ! i)) c = Some i"
    using a unfolding first_idx_Some_iff arp_unique_def by (metis less_irrefl less_trans)
  then show ?thesis by (simp add: cache_of_def)
qed

lemma cache_of_None: "cache_of c ip = None \<longleftrightarrow> (\<forall>i < length c. ae_valid (c ! i) \<longrightarrow> ae_ip (c ! i) \<noteq> ip)"
  by (auto simp: cache_of_def first_idx_None_iff all_set_conv_all_nth)

lemma cache_of_eqI:
  assumes "arp_unique c" and "arp_unique c'"
    and "\<And>m. (\<exists>i < length c. ae_valid (c ! i) \<and> ae_ip (c ! i) = ip \<and> ae_mac (c ! i) = m) \<longleftrightarrow>
              (\<exists>i < length c'. ae_valid (c' ! i) \<and> ae_ip (c' ! i) = ip \<and> ae_mac (c' ! i) = m)"
  shows "cache_of c ip = cache_of c' ip"
proof -
  have iff: "cache_of c ip = Some m \<longleftrightarrow> (\<exists>i < length c. ae_valid (c ! i) \<and> ae_ip (c ! i) = ip \<and> ae_mac (c ! i) = m)"
    if "arp_unique c" for c m
    using cache_of_Some [OF that] cache_of_None [of c ip] by (metis option.distinct(1) option.inject)
  show ?thesis using iff [OF assms(1)] iff [OF assms(2)] assms(3) by (metis option.exhaust)
qed

text \<open>Writing a valid entry for \<open>ip\<close>, which no other slot holds.\<close>

lemma cache_of_upd:
  assumes u: "arp_unique c" and i: "i < length c" and e: "ae_valid e" "ae_ip e = ip"
    and other: "\<forall>j < length c. j \<noteq> i \<and> ae_valid (c ! j) \<longrightarrow> ae_ip (c ! j) \<noteq> ip"
  shows "arp_unique (c[i := e])" "cache_of (c[i := e]) ip = Some (ae_mac e)"
    "ip' \<noteq> ip \<Longrightarrow> cache_of (c[i := e]) ip' = (if ae_valid (c ! i) \<and> ae_ip (c ! i) = ip' then None else cache_of c ip')"
proof -
  show u': "arp_unique (c[i := e])"
    using u i e other unfolding arp_unique_def by (auto simp: nth_list_update)
  show "cache_of (c[i := e]) ip = Some (ae_mac e)" using cache_of_Some [OF u', of i] i e by simp
  assume ne: "ip' \<noteq> ip"
  show "cache_of (c[i := e]) ip' = (if ae_valid (c ! i) \<and> ae_ip (c ! i) = ip' then None else cache_of c ip')"
  proof (cases "ae_valid (c ! i) \<and> ae_ip (c ! i) = ip'")
    case True
    then have "cache_of (c[i := e]) ip' = None"
      using u i e ne unfolding cache_of_None arp_unique_def by (auto simp: nth_list_update)
    then show ?thesis using True by simp
  next
    case False
    then have "cache_of (c[i := e]) ip' = cache_of c ip'"
      using i e ne by (intro cache_of_eqI [OF u' u]) (auto simp: nth_list_update split: if_splits)
    then show ?thesis using False by auto
  qed
qed

lemma arp_oldest_min:
  assumes "length c = ARP_CACHE_SIZE"
  shows "fst (arp_oldest c) < length c" "\<forall>j < length c. ae_timestamp (c ! fst (arp_oldest c)) \<le> ae_timestamp (c ! j)"
proof -
  let ?f = "\<lambda>i (oldest, oldest_tick).
    if ae_timestamp (c ! i) < oldest_tick then (i, ae_timestamp (c ! i)) else (oldest, oldest_tick)"
  have "case fold ?f [1..<Suc n] (0, ae_timestamp (c ! 0)) of (o', t) \<Rightarrow>
      o' \<le> n \<and> t = ae_timestamp (c ! o') \<and> (\<forall>j \<le> n. t \<le> ae_timestamp (c ! j))" for n
  proof (induction n)
    case (Suc n)
    then show ?case by (auto simp: le_Suc_eq split: prod.splits)
  qed simp
  from this [of 31] show "fst (arp_oldest c) < length c"
    "\<forall>j < length c. ae_timestamp (c ! fst (arp_oldest c)) \<le> ae_timestamp (c ! j)"
    using assms by (auto simp: arp_oldest_def ARP_CACHE_SIZE_def split: prod.splits)
qed

text \<open>
  What the cache remembers, without slots and times: the pairs in the order in which they were last heard, the latest
  first, and at most 32 of them.
\<close>

definition arp_learn :: "u32 \<Rightarrow> u8 list \<Rightarrow> (u32 \<times> u8 list) list \<Rightarrow> (u32 \<times> u8 list) list" where
  "arp_learn ip mac l = take 32 ((ip, mac) # filter (\<lambda>(ip', _). ip' \<noteq> ip) l)"

text \<open>A pair heard at a given time.\<close>

definition arp_hear :: "u32 \<times> u32 \<times> u8 list \<Rightarrow> 'a net_st_scheme \<Rightarrow> 'a net_st_scheme" where
  "arp_hear h s = (case h of (t, ip, mac) \<Rightarrow> arp_cache_add ip mac (s\<lparr>ticks := t\<rparr>))"

text \<open>The entries of the cache in that order, with the times before the next one.\<close>

definition arp_recency :: "arp_entry list \<Rightarrow> u32 option \<Rightarrow> arp_entry list \<Rightarrow> bool" where
  "arp_recency c now es \<longleftrightarrow> length c = 32 \<and> arp_unique c \<and> mset es = filter_mset ae_valid (mset c) \<and>
     sorted_wrt (\<lambda>d e. ae_timestamp e < ae_timestamp d) es \<and> distinct (map ae_ip es) \<and>
     (\<forall>e \<in> set es. case now of None \<Rightarrow> False | Some t \<Rightarrow> ae_timestamp e \<le> t)"

definition arp_pair :: "arp_entry \<Rightarrow> u32 \<times> u8 list" where
  "arp_pair e = (ae_ip e, ae_mac e)"

lemma arp_recency_set:
  assumes "arp_recency c now es"
  shows "e \<in> set es \<longleftrightarrow> (\<exists>i < length c. c ! i = e \<and> ae_valid e)"
proof -
  have "e \<in> set es \<longleftrightarrow> e \<in># filter_mset ae_valid (mset c)" using assms unfolding arp_recency_def by (metis set_mset_mset)
  then show ?thesis by (auto simp: in_set_conv_nth)
qed

lemma arp_recency_map:
  assumes r: "arp_recency c now es"
  shows "cache_of c = map_of (map arp_pair es)"
proof
  fix ip
  have u: "arp_unique c" and d: "distinct (map fst (map arp_pair es))"
    using r by (simp_all add: arp_recency_def arp_pair_def comp_def)
  show "cache_of c ip = map_of (map arp_pair es) ip"
  proof (cases "\<exists>i < length c. ae_valid (c ! i) \<and> ae_ip (c ! i) = ip")
    case True
    then obtain i where i: "i < length c" "ae_valid (c ! i)" "ae_ip (c ! i) = ip" by blast
    then have "c ! i \<in> set es" using arp_recency_set [OF r] by blast
    then have "map_of (map arp_pair es) ip = Some (ae_mac (c ! i))" using i(3) d by (intro map_of_is_SomeI) (auto simp: arp_pair_def)
    then show ?thesis using cache_of_Some [OF u i(1,2)] i(3) by simp
  next
    case False
    then have "ip \<notin> fst ` set (map arp_pair es)" using arp_recency_set [OF r] by (auto simp: arp_pair_def)
    then have "map_of (map arp_pair es) ip = None" unfolding map_of_eq_None_iff by simp
    moreover have "cache_of c ip = None" using False unfolding cache_of_None by blast
    ultimately show ?thesis by simp
  qed
qed

text \<open>Each way to enter a pair, as a change of the list.\<close>

lemma arp_recency_enter:
  assumes r: "arp_recency c now es" and i: "i < 32" and e: "ae_valid e" "\<And>d. d \<in> set fs \<Longrightarrow> ae_ip d \<noteq> ae_ip e"
    and other: "\<forall>j < length c. j \<noteq> i \<and> ae_valid (c ! j) \<longrightarrow> ae_ip (c ! j) \<noteq> ae_ip e"
    and now: "\<And>t. now = Some t \<Longrightarrow> t < ae_timestamp e"
    and fs: "sorted_wrt (\<lambda>d e. ae_timestamp e < ae_timestamp d) fs" "distinct (map ae_ip fs)"
      "mset es = (if ae_valid (c ! i) then add_mset (c ! i) (mset fs) else mset fs)"
  shows "arp_recency (c[i := e]) (Some (ae_timestamp e)) (e # fs)"
proof -
  have len: "length c = 32" and u: "arp_unique c" and es: "mset es = filter_mset ae_valid (mset c)"
    and old: "\<And>d. d \<in> set es \<Longrightarrow> case now of None \<Rightarrow> False | Some t \<Rightarrow> ae_timestamp d \<le> t"
    using r by (simp_all add: arp_recency_def)
  have "mset (c[i := e]) = add_mset e (mset c - {#c ! i#})" using i len by (simp add: mset_update)
  moreover have "c ! i \<in># mset c" using i len by simp
  ultimately have "filter_mset ae_valid (mset (c[i := e])) = mset (e # fs)"
    using e(1) fs(3) unfolding es by (cases "ae_valid (c ! i)") (simp_all add: filter_diff_mset)
  moreover have "ae_timestamp d < ae_timestamp e" if "d \<in> set fs" for d
  proof -
    have "d \<in> set es" using that fs(3) by (metis in_multiset_in_set insert_iff set_mset_add_mset_insert)
    then show ?thesis using old [of d] now by (auto split: option.splits)
  qed
  ultimately show ?thesis
    unfolding arp_recency_def using len e(1,2) fs(1,2) cache_of_upd(1) [OF u, of i e "ae_ip e"] i other by fastforce
qed

lemma arp_recency_filter:
  assumes r: "arp_recency c now es" and i: "i < length c" "ae_valid (c ! i)"
  shows "mset es = add_mset (c ! i) (mset (filter (\<lambda>d. ae_ip d \<noteq> ae_ip (c ! i)) es))"
proof -
  have m: "c ! i \<in> set es" and d: "distinct (map ae_ip es)" using arp_recency_set [OF r] i r by (auto simp: arp_recency_def)
  obtain us vs where es: "es = us @ (c ! i) # vs" using split_list [OF m] by blast
  then have "ae_ip (c ! i) \<notin> ae_ip ` (set us \<union> set vs)" using d by auto
  then have "ae_ip d \<noteq> ae_ip (c ! i)" if "d \<in> set us \<union> set vs" for d using that by (metis imageI)
  then have "filter (\<lambda>d. ae_ip d \<noteq> ae_ip (c ! i)) us = us" "filter (\<lambda>d. ae_ip d \<noteq> ae_ip (c ! i)) vs = vs"
    by (auto intro: filter_True)
  then have "filter (\<lambda>d. ae_ip d \<noteq> ae_ip (c ! i)) es = us @ vs" by (simp add: es)
  then show ?thesis using es by simp
qed

lemma arp_recency_oldest:
  assumes r: "arp_recency c now es" and v: "\<forall>e \<in> set c. ae_valid e"
  shows "\<exists>gs. fst (arp_oldest c) < 32 \<and> ae_valid (c ! fst (arp_oldest c)) \<and> es = gs @ [c ! fst (arp_oldest c)] \<and> length gs = 31"
proof -
  have len: "length c = 32" and st: "sorted_wrt (\<lambda>d e. ae_timestamp e < ae_timestamp d) es"
    and es: "mset es = filter_mset ae_valid (mset c)" using r by (simp_all add: arp_recency_def)
  have "filter_mset ae_valid (mset c) = mset c" using v by (simp add: filter_mset_eq_conv)
  then have m: "mset es = mset c" using es by simp
  then have "length es = 32" using len by (metis size_mset)
  then obtain gs z where gz: "es = gs @ [z]" "length gs = 31" by (cases es rule: rev_cases) auto
  note o = arp_oldest_min [of c, unfolded ARP_CACHE_SIZE_def, OF len]
  have "c ! fst (arp_oldest c) \<in> set es" using o(1) m by (metis nth_mem set_mset_mset)
  moreover have zc: "z \<in> set c" using m gz(1) by (metis in_set_conv_decomp set_mset_mset)
  then have "ae_timestamp (c ! fst (arp_oldest c)) \<le> ae_timestamp z" using o(2) by (metis in_set_conv_nth)
  ultimately have "c ! fst (arp_oldest c) = z" using st gz(1) by (auto simp: sorted_wrt_append)
  then show ?thesis using gz o(1) v zc len by (intro exI [of _ gs]) simp
qed

lemma arp_recency_add:
  fixes s :: "'a net_st_scheme"
  assumes r: "arp_recency (arp_cache s) now es" and mac: "length mac = 6" and now: "\<And>t. now = Some t \<Longrightarrow> t < ticks s"
  shows "\<exists>fs. arp_recency (arp_cache (arp_cache_add ip mac s)) (Some (ticks s)) fs \<and>
    map arp_pair fs = arp_learn ip mac (map arp_pair es)"
proof -
  let ?c = "arp_cache s" and ?e = "\<lparr>ae_ip = ip, ae_mac = mac, ae_timestamp = ticks s, ae_valid = True\<rparr>"
  let ?fs = "filter (\<lambda>d. ae_ip d \<noteq> ip) es"
  have len: "length ?c = 32" and st: "sorted_wrt (\<lambda>d e. ae_timestamp e < ae_timestamp d) es" "distinct (map ae_ip es)"
    and es: "mset es = filter_mset ae_valid (mset ?c)"
    using r by (simp_all add: arp_recency_def)
  have "size (mset es) \<le> 32" unfolding es using len size_filter_mset_lesseq [of ae_valid "mset ?c"] by simp
  then have len_es: "length es \<le> 32" by simp
  have fs: "sorted_wrt (\<lambda>d e. ae_timestamp e < ae_timestamp d) ?fs" "distinct (map ae_ip ?fs)"
    using st by (simp_all add: sorted_wrt_filter distinct_map_filter)
  have learn: "arp_learn ip mac (map arp_pair es) = take 32 (map arp_pair (?e # ?fs))"
    by (simp add: arp_learn_def arp_pair_def filter_map comp_def)
  have enter: ?thesis if "arp_cache (arp_cache_add ip mac s) = ?c[i := ?e]" "arp_recency (?c[i := ?e]) (Some (ticks s)) (?e # gs)"
    "take 31 ?fs = gs" for i gs
    using that unfolding learn by (intro exI [of _ "?e # gs"]) (simp add: take_map numeral_eq_Suc)
  show ?thesis
  proof (cases "first_idx (\<lambda>e. ae_valid e \<and> ae_ip e = ip) ?c")
    case (Some i)
    note i = first_idx_SomeD [OF Some]
    have "(?c ! i)\<lparr>ae_mac := mac, ae_timestamp := ticks s\<rparr> = ?e" using i by (cases "?c ! i") simp
    then have c': "arp_cache (arp_cache_add ip mac s) = ?c[i := ?e]" using mac Some by (simp add: arp_cache_add_def)
    have m: "mset es = add_mset (?c ! i) (mset ?fs)" using arp_recency_filter [OF r, of i] i by simp
    then have "length es = Suc (length ?fs)" by (metis size_add_mset size_mset)
    then have "take 31 ?fs = ?fs" using len_es by simp
    moreover have "\<forall>j < length ?c. j \<noteq> i \<and> ae_valid (?c ! j) \<longrightarrow> ae_ip (?c ! j) \<noteq> ip"
      using i r by (auto simp: arp_recency_def arp_unique_def)
    then have "arp_recency (?c[i := ?e]) (Some (ae_timestamp ?e)) (?e # ?fs)"
      by (intro arp_recency_enter [OF r _ _ _ _ _ fs]) (use i len now m in simp_all)
    ultimately show ?thesis using enter c' by simp
  next
    case None
    then have no: "\<forall>j < length ?c. ae_valid (?c ! j) \<longrightarrow> ae_ip (?c ! j) \<noteq> ip"
      by (auto simp: first_idx_None_iff all_set_conv_all_nth)
    then have ne: "ae_ip d \<noteq> ip" if "d \<in> set es" for d using arp_recency_set [OF r] that by auto
    then have all: "?fs = es" by (simp add: filter_id_conv)
    show ?thesis
    proof (cases "first_idx (\<lambda>e. \<not> ae_valid e) ?c")
      case (Some i)
      note i = first_idx_SomeD [OF Some]
      have c': "arp_cache (arp_cache_add ip mac s) = ?c[i := ?e]" using mac None Some by (simp add: arp_cache_add_def)
      have "?c ! i \<in># mset ?c" using i by simp
      then have "size (filter_mset ae_valid (mset ?c)) < size (mset ?c)"
        using i(2) by (intro mset_subset_size) (metis filter_mset_eq_conv multiset_filter_subset subset_mset.le_imp_less_or_eq)
      then have "take 31 ?fs = ?fs" using len all es [symmetric] by simp
      moreover have "arp_recency (?c[i := ?e]) (Some (ae_timestamp ?e)) (?e # ?fs)"
        by (intro arp_recency_enter [OF r _ _ _ _ _ fs]) (use i len now no all ne in simp_all)
      ultimately show ?thesis using enter c' by simp
    next
      case full: None
      let ?o = "fst (arp_oldest ?c)"
      have c': "arp_cache (arp_cache_add ip mac s) = ?c[?o := ?e]" using mac None full by (simp add: arp_cache_add_def)
      have "\<forall>e \<in> set ?c. ae_valid e" using full by (simp add: first_idx_None_iff)
      from arp_recency_oldest [OF r this] obtain gs where gs: "?o < 32" "ae_valid (?c ! ?o)" "es = gs @ [?c ! ?o]" "length gs = 31"
        by blast
      have "arp_recency (?c[?o := ?e]) (Some (ae_timestamp ?e)) (?e # gs)"
        by (intro arp_recency_enter [OF r]) (use len now no ne st gs in \<open>auto simp: sorted_wrt_append\<close>)
      moreover have "take 31 ?fs = gs" unfolding all using gs(3,4) by simp
      ultimately show ?thesis using enter [OF c'] by simp
    qed
  qed
qed

text \<open>C10: the address cache is a recency list of 32 pairs. After \<^verbatim>\<open>arp_init\<close> and any history of pairs heard at increasing times of
  the clock (no two at the same tick, and the clock does not wrap), what the cache knows is exactly what the list knows in which a pair heard goes to
  the front, an older pair of the same address is dropped, and from the 33rd address on the one heard least recently.\<close>

theorem arp_cache_recency:
  fixes s :: "'a net_st_scheme"
  assumes "sorted_wrt (<) (map fst hs)" and "\<forall>(t, ip, mac) \<in> set hs. length mac = 6"
  shows "cache_of (arp_cache (fold arp_hear hs (arp_init s))) = map_of (fold (\<lambda>(t, ip, mac). arp_learn ip mac) hs [])"
proof -
  have "\<exists>es. arp_recency (arp_cache (fold arp_hear hs (arp_init s))) (if hs = [] then None else Some (fst (last hs))) es \<and>
      map arp_pair es = fold (\<lambda>(t, ip, mac). arp_learn ip mac) hs []"
    using assms
  proof (induction hs rule: rev_induct)
    case Nil
    have "arp_recency (arp_cache (arp_init s)) None []"
      by (simp add: arp_init_def arp_recency_def arp_unique_def zero_arp_entry_def ARP_CACHE_SIZE_def filter_mset_eq_conv)
    then show ?case by auto
  next
    case (snoc h hs)
    obtain t ip mac where h: "h = (t, ip, mac)" by (cases h)
    obtain es where es: "arp_recency (arp_cache (fold arp_hear hs (arp_init s))) (if hs = [] then None else Some (fst (last hs))) es"
      "map arp_pair es = fold (\<lambda>(t, ip, mac). arp_learn ip mac) hs []"
      using snoc by (auto simp: sorted_wrt_append)
    have "u < t" if "(if hs = [] then None else Some (fst (last hs))) = Some u" for u
      using that snoc.prems(1) h by (auto simp: sorted_wrt_append split: if_splits)
    then obtain fs where "arp_recency (arp_cache (arp_hear h (fold arp_hear hs (arp_init s)))) (Some t) fs"
      "map arp_pair fs = arp_learn ip mac (map arp_pair es)"
      using arp_recency_add [of "(fold arp_hear hs (arp_init s))\<lparr>ticks := t\<rparr>" "if hs = [] then None else Some (fst (last hs))" es mac ip]
        es(1) snoc.prems(2) unfolding arp_hear_def h by auto
    then show ?case using es(2) h by auto
  qed
  then show ?thesis using arp_recency_map by fastforce
qed

text \<open>Thirty-three addresses, the first heard again before the last: the second is forgotten.\<close>

theorem arp_cache_recency_witness:
  "let hs = map (\<lambda>i. (of_nat i, of_nat i, [2, 0, 0, 0, 0, of_nat i])) [0..<32] @ [(32, 0, [2, 0, 0, 0, 0, 9]), (33, 32, [2, 0, 0, 0, 0, 32])];
       c = arp_cache (fold arp_hear hs (arp_init (host 0x0100000A [2, 0, 0, 0, 0, 1])))
   in cache_of c 0 = Some [2, 0, 0, 0, 0, 9] \<and> cache_of c 1 = None \<and> cache_of c 2 = Some [2, 0, 0, 0, 0, 2] \<and>
      cache_of c 32 = Some [2, 0, 0, 0, 0, 32]"
proof -
  have up: "[0..<32] = [0, 1, 2, 3, 4, 5, 6, 7, 8, 9, 10, 11, 12, 13, 14, 15, 16, 17, 18, 19, 20, 21, 22, 23, 24, 25, 26, 27, 28, 29, 30, 31 :: nat]"
    by (simp add: upt_rec)
  show ?thesis
    unfolding Let_def up list.map
    by (subst (1 2 3 4) arp_cache_recency) (simp_all add: arp_learn_def)
qed

section \<open>The receive buffer of a connection\<close>

definition tcp_data :: "tcp_socket \<Rightarrow> u8 list" where
  "tcp_data k = map (ts_rx_buf k) [0..<unat (ts_rx_len k)]"

definition sg_data :: "tcp_seg \<Rightarrow> u8 list" where
  "sg_data g = map (sg_payload g) [0..<unat (sg_payload_len g)]"

lemma tcp_append_data:
  assumes "tcp_sock_ok k"
  shows "tcp_data (tcp_append g k) = tcp_data k @ take (8192 - length (tcp_data k)) (sg_data g)"
    "ts_rcv_nxt (tcp_append g k) = ts_rcv_nxt k + ucast (sg_payload_len g)"
proof -
  let ?n = "ts_rx_len k" and ?sp = "TCP_RX_BUF_SIZE - ts_rx_len k"
  define w where "w = (if sg_payload_len g < ?sp then sg_payload_len g else ?sp)"
  have n: "unat ?n \<le> 8192" using assms by (simp add: tcp_sock_ok_def TCP_RX_BUF_SIZE_def word_le_nat_alt)
  have sp: "unat ?sp = 8192 - unat ?n" using n by (simp add: TCP_RX_BUF_SIZE_def unat_sub_if')
  have c: "unat w = min (unat (sg_payload_len g)) (8192 - unat ?n)"
    using sp by (simp add: w_def word_less_nat_alt)
  then have "unat ?n + unat w \<le> 8192" using n by simp
  then have s: "unat (?n + w) = unat ?n + unat w" by (simp add: unat_plus_if')
  have "map (copy_in (unat ?n) (sg_payload g) w (ts_rx_buf k)) [0..<unat ?n + unat w] =
      tcp_data k @ map (sg_payload g) [0..<unat w]"
    by (rule nth_equalityI) (auto simp: tcp_data_def copy_in_def nth_append)
  moreover have "map (sg_payload g) [0..<unat w] = take (8192 - unat ?n) (sg_data g)"
    by (rule nth_equalityI) (auto simp: c sg_data_def)
  moreover have "tcp_data (tcp_append g k) = (if w > 0 then map (copy_in (unat ?n) (sg_payload g) w (ts_rx_buf k)) [0..<unat (?n + w)]
      else tcp_data k)"
    unfolding tcp_append_def Let_def w_def [symmetric] by (simp add: tcp_data_def)
  moreover have "take (8192 - unat ?n) (sg_data g) = []" if "\<not> w > 0"
    using that c by (auto simp: sg_data_def min_def word_gt_0 split: if_splits)
  ultimately show "tcp_data (tcp_append g k) = tcp_data k @ take (8192 - length (tcp_data k)) (sg_data g)"
    using s by (simp add: tcp_data_def)
  show "ts_rcv_nxt (tcp_append g k) = ts_rcv_nxt k + ucast (sg_payload_len g)"
    by (simp add: tcp_append_def Let_def)
qed

lemma tcp_consume_data:
  assumes "copy \<le> ts_rx_len k"
  shows "tcp_data (tcp_consume copy k) = drop (unat copy) (tcp_data k)"
proof -
  have n: "unat (ts_rx_len k - copy) = unat (ts_rx_len k) - unat copy"
    using assms by (simp add: unat_sub_if' word_le_nat_alt)
  show ?thesis
    by (rule nth_equalityI) (auto simp: tcp_data_def tcp_consume_def Let_def n copy_in_def word_less_nat_alt)
qed

lemma tcp_find_used: "tcp_find g sks = Some i \<Longrightarrow> i < length sks \<and> ts_used (sks ! i)"
  by (auto simp: tcp_find_def first_idx_Some_iff split: option.splits)

lemma tcp_recv_data:
  assumes "\<not> tcp_bad_socket (int i) s" and "tcp_sock_ok (sk_at i s)" and "tcp_data (sk_at i s) \<noteq> []" and "i < length (tcp_sockets s)"
  shows "\<exists>t. tcp_socket_recv (int i) n s =
      ((int (min (unat n) (length (tcp_data (sk_at i s)))), take (unat n) (tcp_data (sk_at i s))), t) \<and>
    tcp_data (sk_at i t) = drop (unat n) (tcp_data (sk_at i s))"
proof -
  let ?k = "sk_at i s"
  define w where "w = (if ts_rx_len ?k > n then n else ts_rx_len ?k)"
  have w: "w \<le> ts_rx_len ?k" "unat w = min (unat n) (unat (ts_rx_len ?k))"
    by (auto simp: w_def word_less_nat_alt word_le_nat_alt)
  have "ts_rx_ready ?k" using assms(2,3) by (auto simp: tcp_sock_ok_def tcp_data_def)
  then have "tcp_socket_recv (int i) n s = ((int (unat w), map (ts_rx_buf ?k) [0..<unat w]), sk_upd i (tcp_consume w) s)"
    using assms(1) by (simp add: tcp_socket_recv_def Let_def w_def)
  moreover have "map (ts_rx_buf ?k) [0..<unat w] = take (unat n) (tcp_data ?k)"
    by (rule nth_equalityI) (auto simp: w(2) tcp_data_def)
  moreover have "tcp_data (sk_at i (sk_upd i (tcp_consume w) s)) = drop (unat n) (tcp_data ?k)"
    using tcp_consume_data [OF w(1)] assms(4) w(2) by (simp add: sk_at_def sk_upd_def) (simp add: tcp_data_def min_def)
  ultimately show ?thesis using w(2) by (simp add: tcp_data_def)
qed

text \<open>C9: the receive buffer of a connection is a queue of at most 8192 bytes. An in-order segment
  without FIN or RST on an established connection appends the part of its data that fits; the number of the next byte
  expected, which the acknowledgement carries, advances by all of it. Receiving returns the oldest
  bytes and leaves the rest.\<close>

theorem tcp_rx_queue:
  assumes "\<not> len < TCP_HDR_MIN_LEN" and "g = tcp_parse iface src_ip data len" and "tcp_find g (tcp_sockets s) = Some i"
    and "ts_state (sk_at i s) = TCP_ESTABLISHED" and "tcp_sock_ok (sk_at i s)" and "length (tcp_sockets s) = TCP_MAX_SOCKETS"
    and "\<not> has_flag g TCP_FIN" and "\<not> has_flag g TCP_RST" and "sg_data g \<noteq> []" and "sg_seq g = ts_rcv_nxt (sk_at i s)"
  shows "\<exists>s'. tcp_rx poll iface src_ip dst_ip data len s = tcp_reply poll g i TCP_ACK TCP_WINDOW_SIZE s' \<and>
      tcp_data (sk_at i s') = tcp_data (sk_at i s) @ take (8192 - length (tcp_data (sk_at i s))) (sg_data g) \<and>
      ts_rcv_nxt (sk_at i s') = ts_rcv_nxt (sk_at i s) + of_nat (length (sg_data g)) \<and>
      (\<forall>n. \<exists>t. tcp_socket_recv (int i) n s' =
          ((int (min (unat n) (length (tcp_data (sk_at i s')))), take (unat n) (tcp_data (sk_at i s'))), t) \<and>
        tcp_data (sk_at i t) = drop (unat n) (tcp_data (sk_at i s')))"
proof -
  let ?k = "sk_at i s" and ?s = "sk_upd i (tcp_append g) s"
  have i: "i < length (tcp_sockets s)" "ts_used ?k" using tcp_find_used [OF assms(3)] by (simp_all add: sk_at_def)
  have at: "sk_at i ?s = tcp_append g ?k" using i by (simp add: sk_at_def sk_upd_def)
  note d = tcp_append_data [OF assms(5), of g]
  have "sg_payload_len g > 0" using assms(9) by (auto simp: sg_data_def word_gt_0)
  then have "tcp_rx poll iface src_ip dst_ip data len s = tcp_reply poll g i TCP_ACK TCP_WINDOW_SIZE ?s"
    using assms by (simp add: tcp_rx_def tcp_dispatch_def tcp_rx_established_def Let_def)
  moreover have "ts_rcv_nxt (sk_at i ?s) = ts_rcv_nxt ?k + of_nat (length (sg_data g))"
    unfolding at d by (simp add: sg_data_def)
  moreover have "\<exists>t. tcp_socket_recv (int i) n ?s =
      ((int (min (unat n) (length (tcp_data (sk_at i ?s)))), take (unat n) (tcp_data (sk_at i ?s))), t) \<and>
    tcp_data (sk_at i t) = drop (unat n) (tcp_data (sk_at i ?s))" for n
  proof (rule tcp_recv_data)
    have "ts_used (tcp_append g ?k)" using i by (simp add: tcp_append_def Let_def)
    then show "\<not> tcp_bad_socket (int i) ?s"
      using i assms(6) by (simp add: tcp_bad_socket_def at)
    show "tcp_sock_ok (sk_at i ?s)" unfolding at by (rule tcp_append_ok [OF assms(5)])
    show "tcp_data (sk_at i ?s) \<noteq> []" unfolding at d using assms(9) by (cases "tcp_data ?k") auto
    show "i < length (tcp_sockets ?s)" using i by (simp add: sk_upd_def)
  qed
  moreover have "tcp_data (sk_at i ?s) = tcp_data ?k @ take (8192 - length (tcp_data ?k)) (sg_data g)"
    unfolding at by (rule d)
  ultimately show ?thesis by (intro exI [of _ ?s]) simp
qed

text \<open>A connection between port 80 of 10.0.0.1 and port 1000 of 10.0.0.2, and a segment with two bytes on it.\<close>

definition connected_host :: e1000_st where
  "connected_host = sk_upd 0 (\<lambda>_. zero_tcp_socket\<lparr>ts_used := True, ts_state := TCP_ESTABLISHED, ts_local_port := 80,
     ts_remote_ip := 0x0200000A, ts_remote_port := 1000, ts_rcv_nxt := 500\<rparr>) (host 0x0100000A [2, 0, 0, 0, 0, 1])"

definition data_segment :: "u8 list" where
  "data_segment = tcp_header 1000 80 500 0 TCP_ACK TCP_WINDOW_SIZE 0 @ [104, 105]"

lemma data_segment_parse:
  "tcp_parse 0 0x0200000A (nth data_segment) 22 = \<lparr>sg_iface = 0, sg_src_ip = 0x0200000A, sg_src_port = 1000, sg_dst_port = 80,
     sg_seq = 500, sg_ack = 0, sg_flags = TCP_ACK, sg_payload = (\<lambda>k. data_segment ! (20 + k)), sg_payload_len = 2\<rparr>"
  by (simp add: tcp_parse_def data_segment_def tcp_header_def st16_def st32_def ld16_def ld32_def htons_def ntohs_def htonl_def ntohl_def)

lemma connected_host_fields:
  "length (tcp_sockets connected_host) = TCP_MAX_SOCKETS"
  "tcp_sockets connected_host = zero_tcp_socket\<lparr>ts_used := True, ts_state := TCP_ESTABLISHED, ts_local_port := 80,
     ts_remote_ip := 0x0200000A, ts_remote_port := 1000, ts_rcv_nxt := 500\<rparr> # replicate 15 zero_tcp_socket"
proof -
  have "tcp_sockets (host ip mac) = replicate TCP_MAX_SOCKETS zero_tcp_socket" for ip mac
    by (simp add: host_def netif_set_addr_def e1000_register_def netif_register_def net_init_def netif_init_def arp_init_def
        ipv4_init_def udp_init_def tcp_init_def dns_init_def cold_net_def Let_def split: prod.split)
  then show "length (tcp_sockets connected_host) = TCP_MAX_SOCKETS"
    "tcp_sockets connected_host = zero_tcp_socket\<lparr>ts_used := True, ts_state := TCP_ESTABLISHED, ts_local_port := 80,
       ts_remote_ip := 0x0200000A, ts_remote_port := 1000, ts_rcv_nxt := 500\<rparr> # replicate 15 zero_tcp_socket"
    by (simp_all add: connected_host_def sk_upd_def TCP_MAX_SOCKETS_def numeral_eq_Suc)
qed

theorem tcp_rx_queue_witness:
  "\<exists>s'. tcp_rx Some 0 0x0200000A 0x0100000A (nth data_segment) 22 connected_host =
       tcp_reply Some (tcp_parse 0 0x0200000A (nth data_segment) 22) 0 TCP_ACK TCP_WINDOW_SIZE s' \<and>
     tcp_data (sk_at 0 s') = [104, 105] \<and> ts_rcv_nxt (sk_at 0 s') = 502 \<and>
     fst (tcp_socket_recv 0 1 s') = (1, [104])"
proof -
  let ?g = "tcp_parse 0 0x0200000A (nth data_segment) 22"
  have k: "sk_at 0 connected_host = zero_tcp_socket\<lparr>ts_used := True, ts_state := TCP_ESTABLISHED, ts_local_port := 80,
     ts_remote_ip := 0x0200000A, ts_remote_port := 1000, ts_rcv_nxt := 500\<rparr>"
    by (simp add: sk_at_def connected_host_fields)
  have f: "tcp_find ?g (tcp_sockets connected_host) = Some 0"
    by (simp add: tcp_find_def connected_host_fields data_segment_parse)
  have d: "sg_data ?g = [104, 105]"
    unfolding sg_data_def data_segment_parse by (simp add: upt_rec data_segment_def tcp_header_def st16_def st32_def)
  have c: "\<not> (22 :: u16) < TCP_HDR_MIN_LEN" "ts_state (sk_at 0 connected_host) = TCP_ESTABLISHED" "tcp_sock_ok (sk_at 0 connected_host)"
    "\<not> has_flag ?g TCP_FIN" "\<not> has_flag ?g TCP_RST" "sg_seq ?g = ts_rcv_nxt (sk_at 0 connected_host)"
    by (simp_all add: TCP_HDR_MIN_LEN_def k tcp_sock_ok_def zero_tcp_socket_def has_flag_def data_segment_parse tcp_flag_defs)
  have ne: "sg_data ?g \<noteq> []" unfolding d by simp
  have e: "tcp_data (sk_at 0 connected_host) = []" "ts_rcv_nxt (sk_at 0 connected_host) = 500"
    by (simp_all add: tcp_data_def k zero_tcp_socket_def)
  obtain s' where s': "tcp_rx Some 0 0x0200000A 0x0100000A (nth data_segment) 22 connected_host =
        tcp_reply Some ?g 0 TCP_ACK TCP_WINDOW_SIZE s'" and "tcp_data (sk_at 0 s') = [] @ take (8192 - length ([] :: u8 list)) [104, 105]"
      and "ts_rcv_nxt (sk_at 0 s') = 500 + of_nat (length [104, 105 :: u8])"
      and r: "\<forall>n. \<exists>t. tcp_socket_recv (int 0) n s' =
          ((int (min (unat n) (length (tcp_data (sk_at 0 s')))), take (unat n) (tcp_data (sk_at 0 s'))), t) \<and>
        tcp_data (sk_at 0 t) = drop (unat n) (tcp_data (sk_at 0 s'))"
    using tcp_rx_queue [OF c(1) refl f c(2,3) connected_host_fields(1) c(4,5) ne c(6), of Some "0x0100000A"]
    unfolding d e by blast
  then have "tcp_data (sk_at 0 s') = [104, 105]" "ts_rcv_nxt (sk_at 0 s') = 502" by simp_all
  then show ?thesis using s' spec [OF r, of 1] by (intro exI [of _ s']) auto
qed

section \<open>The sizes that UDP accepts\<close>

text \<open>C40: a datagram of up to 1472 bytes is passed to IP, and one of more is refused, but the sum of the
  lengths is taken modulo 65536: from 65528 bytes on it is small again, and the copy runs past the end of the
  buffer of 1500 bytes on the stack.\<close>

theorem udp_send_bounds:
  "udp_send poll iface dst_ip src_port dst_port payload n s =
     (if unat n \<le> 1472 \<or> 65528 \<le> unat n
      then ipv4_send poll iface dst_ip IP_PROTO_UDP (nth (udp_datagram src_port dst_port payload n)) (8 + n)
             (s\<lparr>overrun := (overrun s \<or> 65528 \<le> unat n)\<rparr>)
      else Some (-1, s))"
proof -
  have n: "unat (8 + n) = (if unat n < 65528 then unat n + 8 else unat n - 65528)"
    using unat_u16_less [of n] by (simp add: unat_plus_if')
  have "8 + n > ETH_MTU - 20 \<longleftrightarrow> \<not> (unat n \<le> 1472 \<or> 65528 \<le> unat n)"
    using n unat_u16_less [of n] by (auto simp: ETH_MTU_def word_less_nat_alt)
  moreover have "unat n \<le> 1472 \<or> 65528 \<le> unat n \<Longrightarrow> unat UDP_HDR_LEN + unat n > unat ETH_MTU \<longleftrightarrow> 65528 \<le> unat n"
    by (auto simp: UDP_HDR_LEN_def ETH_MTU_def)
  ultimately show ?thesis
    by (auto simp: udp_send_def Let_def udp_datagram_def UDP_HDR_LEN_def)
qed

end
