(* ===== verification/Paging.thy ===== *)
theory Paging
  imports Physmem Kstring
begin

text \<open>
  The page tables, \<^verbatim>\<open>kernel/mem/paging.c\<close>. Tables are pages of 512 entries in physical memory, which
  the kernel sees at its own addresses; \<open>mem\<close> is that memory and a pointer to a table is its address,
  0 the null pointer. \<open>boot_tables\<close> holds the addresses that the linker gives to the tables of
  \<^verbatim>\<open>boot64.s\<close>. The processor appears as the register \<open>cr3\<close> and the translations it has cached,
  \<open>tlb\<close>: \<^verbatim>\<open>invlpg\<close> drops the one of a page, a load of the register drops all of them. Tables are
  allocated from the frames of \<open>Physmem\<close>, whose state this one extends.
\<close>

unbundle bit_operations_syntax

section \<open>Constants and state\<close>

definition ENTRIES_PER_TABLE :: nat where "ENTRIES_PER_TABLE = 512"
definition PAGE_SIZE_2MB :: u64 where "PAGE_SIZE_2MB = 0x200000"
definition PG_PRESENT :: u64 where "PG_PRESENT = 0x001"
definition PG_WRITABLE :: u64 where "PG_WRITABLE = 0x002"
definition PG_USER :: u64 where "PG_USER = 0x004"
definition PG_PWT :: u64 where "PG_PWT = 0x008"
definition PG_PS :: u64 where "PG_PS = 0x080"
definition PG_COW :: u64 where "PG_COW = 0x200"
definition PG_ADDR_MASK :: u64 where "PG_ADDR_MASK = 0x000FFFFFFFFFF000"
definition PAGING_PAGE_SIZE :: u64 where "PAGING_PAGE_SIZE = 0x1000"
definition PAGING_USER_BASE :: u64 where "PAGING_USER_BASE = 0x01000000"
definition PAGING_USER_SIZE :: u64 where "PAGING_USER_SIZE = 0x00400000"
definition PAGING_USER_STACK_SIZE :: u64 where "PAGING_USER_STACK_SIZE = 0x1000"
definition PAGING_USER_SHM_SIZE :: u64 where "PAGING_USER_SHM_SIZE = 16 * PAGING_PAGE_SIZE"
definition PAGING_USER_STACK_GUARD_BASE :: u64 where
  "PAGING_USER_STACK_GUARD_BASE =
     PAGING_USER_BASE + PAGING_USER_SIZE - PAGING_USER_STACK_SIZE - PAGING_PAGE_SIZE"
definition PAGING_USER_SHM_BASE :: u64 where
  "PAGING_USER_SHM_BASE = PAGING_USER_STACK_GUARD_BASE - PAGING_USER_SHM_SIZE"
definition USER_PD_START :: nat where "USER_PD_START = unat (drop_bit 21 PAGING_USER_BASE)"
definition USER_PD_COUNT :: nat where "USER_PD_COUNT = 2"
definition EARLY_EXTRA_PD_MAX :: int where "EARLY_EXTRA_PD_MAX = 16"

record boot_tables =
  boot_pml4 :: u64
  early_extra_pds :: u64
  early_extra_pdpt :: u64

record paging_st = physmem +
  mem :: bmem
  early_pd_next :: int
  early_pdpt_used :: bool
  kernel_pml4 :: u64
  current_pml4 :: u64
  paging_enabled :: bool
  paging_bytes_mapped :: u64
  kernel_pdpt :: u64
  kernel_pd0 :: u64
  cr3 :: u64
  tlb :: "u64 \<rightharpoonup> u64"

definition PML4_IDX :: "u64 \<Rightarrow> nat" where "PML4_IDX va = unat (drop_bit 39 va AND 0x1FF)"
definition PDPT_IDX :: "u64 \<Rightarrow> nat" where "PDPT_IDX va = unat (drop_bit 30 va AND 0x1FF)"
definition PD_IDX :: "u64 \<Rightarrow> nat" where "PD_IDX va = unat (drop_bit 21 va AND 0x1FF)"
definition PT_IDX :: "u64 \<Rightarrow> nat" where "PT_IDX va = unat (drop_bit 12 va AND 0x1FF)"

section \<open>Memory and the processor\<close>

definition load64 :: "bmem \<Rightarrow> u64 \<Rightarrow> u64" where
  "load64 m p = fold (\<lambda>i v. v OR push_bit (8 * i) (ucast (m (p + of_nat i)))) [0..<8] 0"

text \<open>\<^verbatim>\<open>table[i]\<close> as a value and as the target of an assignment.\<close>

definition entry :: "bmem \<Rightarrow> u64 \<Rightarrow> nat \<Rightarrow> u64" where
  "entry m t i = load64 m (t + 8 * of_nat i)"

definition put_entry :: "u64 \<Rightarrow> nat \<Rightarrow> u64 \<Rightarrow> 'a paging_st_scheme \<Rightarrow> 'a paging_st_scheme" where
  "put_entry t i v s = s\<lparr>mem := store_le 8 (t + 8 * of_nat i) v (mem s)\<rparr>"

definition has :: "u64 \<Rightarrow> u64 \<Rightarrow> bool" where
  "has e flag \<longleftrightarrow> e AND flag \<noteq> 0"

definition load_cr3 :: "u64 \<Rightarrow> 'a paging_st_scheme \<Rightarrow> 'a paging_st_scheme" where
  "load_cr3 v s = s\<lparr>cr3 := v, tlb := Map.empty\<rparr>"

definition paging_invalidate_page :: "u64 \<Rightarrow> 'a paging_st_scheme \<Rightarrow> 'a paging_st_scheme" where
  "paging_invalidate_page address s = s\<lparr>tlb := (tlb s)(drop_bit 12 address := None)\<rparr>"

text \<open>The values of \<open>x\<close> in \<^verbatim>\<open>for (x = a; x < e; x += k)\<close> where the sums do not wrap.\<close>

definition addr_steps :: "u64 \<Rightarrow> u64 \<Rightarrow> nat \<Rightarrow> u64 list" where
  "addr_steps a e k = map (\<lambda>i. a + of_nat (i * k)) [0..<(unat e - unat a + k - 1) div k]"

definition paging_align_down :: "u64 \<Rightarrow> u64 \<Rightarrow> u64" where
  "paging_align_down v alignment = v AND NOT (alignment - 1)"

definition phys_to_virt :: "u64 \<Rightarrow> u64" where
  "phys_to_virt phys = phys AND PG_ADDR_MASK"

definition entry_subtable :: "u64 \<Rightarrow> u64" where
  "entry_subtable e = (if \<not> has e PG_PRESENT then 0 else phys_to_virt e)"

text \<open>The loops that clear a table and that copy one.\<close>

definition clear_table :: "u64 \<Rightarrow> 'a paging_st_scheme \<Rightarrow> 'a paging_st_scheme" where
  "clear_table t s = fold (\<lambda>i. put_entry t i 0) [0..<ENTRIES_PER_TABLE] s"

definition copy_table :: "u64 \<Rightarrow> u64 \<Rightarrow> 'a paging_st_scheme \<Rightarrow> 'a paging_st_scheme" where
  "copy_table dst src s = fold (\<lambda>i s. put_entry dst i (entry (mem s) src i) s) [0..<ENTRIES_PER_TABLE] s"

section \<open>Early mapping\<close>

definition early_alloc_pd :: "boot_tables \<Rightarrow> 'a paging_st_scheme \<Rightarrow> u64 \<times> 'a paging_st_scheme" where
  "early_alloc_pd bt s =
     (if early_pd_next s \<ge> EARLY_EXTRA_PD_MAX then (0, s)
      else let pd = early_extra_pds bt + 8 * (of_int (early_pd_next s) * of_nat ENTRIES_PER_TABLE);
               s = clear_table pd s
           in (pd, s\<lparr>early_pd_next := early_pd_next s + 1\<rparr>))"

text \<open>The directory pointer table and the directory for an address; \<open>None\<close> is the early return.\<close>

definition early_pdpt :: "boot_tables \<Rightarrow> u64 \<Rightarrow> 'a paging_st_scheme \<Rightarrow> u64 option \<times> 'a paging_st_scheme" where
  "early_pdpt bt addr s =
     (let e = entry (mem s) (boot_pml4 bt) (PML4_IDX addr) in
      if has e PG_PRESENT then (Some (e AND PG_ADDR_MASK), s)
      else if early_pdpt_used s then (None, s)
      else let pdpt = early_extra_pdpt bt;
               s = (clear_table pdpt s)\<lparr>early_pdpt_used := True\<rparr>
           in (Some pdpt, put_entry (boot_pml4 bt) (PML4_IDX addr) (pdpt OR PG_PRESENT OR PG_WRITABLE) s))"

definition early_pd :: "boot_tables \<Rightarrow> u64 \<Rightarrow> u64 \<Rightarrow> 'a paging_st_scheme \<Rightarrow> u64 option \<times> 'a paging_st_scheme" where
  "early_pd bt pdpt addr s =
     (let e = entry (mem s) pdpt (PDPT_IDX addr) in
      if has e PG_PRESENT then (Some (e AND PG_ADDR_MASK), s)
      else let (pd, s) = early_alloc_pd bt s in
           if pd = 0 then (None, s)
           else (Some pd, put_entry pdpt (PDPT_IDX addr) (pd OR PG_PRESENT OR PG_WRITABLE) s))"

text \<open>One round of the loops, with what is stored in the directory.\<close>

definition early_round ::
  "boot_tables \<Rightarrow> (u64 \<Rightarrow> u64 \<Rightarrow> 'a paging_st_scheme \<Rightarrow> 'a paging_st_scheme) \<Rightarrow> u64 \<Rightarrow>
   'a paging_st_scheme \<Rightarrow> bool \<times> 'a paging_st_scheme" where
  "early_round bt leaf addr s =
     (case early_pdpt bt addr s of
        (None, s) \<Rightarrow> (False, s)
      | (Some pdpt, s) \<Rightarrow>
          (case early_pd bt pdpt addr s of
             (None, s) \<Rightarrow> (False, s)
           | (Some pd, s) \<Rightarrow> (True, leaf pd addr s)))"

fun early_loop ::
  "boot_tables \<Rightarrow> (u64 \<Rightarrow> u64 \<Rightarrow> 'a paging_st_scheme \<Rightarrow> 'a paging_st_scheme) \<Rightarrow> u64 list \<Rightarrow>
   'a paging_st_scheme \<Rightarrow> 'a paging_st_scheme" where
  "early_loop bt leaf [] s = load_cr3 (cr3 s) s"
| "early_loop bt leaf (addr # addrs) s =
     (let (more, s) = early_round bt leaf addr s in if more then early_loop bt leaf addrs s else s)"

definition early_leaf :: "u64 \<Rightarrow> u64 \<Rightarrow> 'a paging_st_scheme \<Rightarrow> 'a paging_st_scheme" where
  "early_leaf pd addr s =
     (if has (entry (mem s) pd (PD_IDX addr)) PG_PRESENT then s
      else put_entry pd (PD_IDX addr) (addr OR PG_PRESENT OR PG_WRITABLE OR PG_PS) s)"

definition early_leaf_wc :: "u64 \<Rightarrow> u64 \<Rightarrow> 'a paging_st_scheme \<Rightarrow> 'a paging_st_scheme" where
  "early_leaf_wc pd addr s =
     put_entry pd (PD_IDX addr) (addr OR PG_PRESENT OR PG_WRITABLE OR PG_PS OR PG_PWT) s"

definition early_addrs :: "u64 \<Rightarrow> u64 \<Rightarrow> u64 list" where
  "early_addrs phys_start sz =
     (let aligned_start = phys_start AND NOT (PAGE_SIZE_2MB - 1);
          aligned_end = (phys_start + sz + PAGE_SIZE_2MB - 1) AND NOT (PAGE_SIZE_2MB - 1)
      in addr_steps aligned_start aligned_end (unat PAGE_SIZE_2MB))"

definition paging_map_region_early :: "boot_tables \<Rightarrow> u64 \<Rightarrow> u64 \<Rightarrow> 'a paging_st_scheme \<Rightarrow> 'a paging_st_scheme" where
  "paging_map_region_early bt phys_start sz s =
     (if sz = 0 then s else early_loop bt early_leaf (early_addrs phys_start sz) s)"

definition paging_map_region_early_wc :: "boot_tables \<Rightarrow> u64 \<Rightarrow> u64 \<Rightarrow> 'a paging_st_scheme \<Rightarrow> 'a paging_st_scheme" where
  "paging_map_region_early_wc bt phys_start sz s =
     (if sz = 0 then s else early_loop bt early_leaf_wc (early_addrs phys_start sz) s)"

definition paging_init :: "boot_tables \<Rightarrow> 'a paging_st_scheme \<Rightarrow> 'a paging_st_scheme" where
  "paging_init bt s =
     (if paging_enabled s then s
      else
        let s = s\<lparr>kernel_pml4 := boot_pml4 bt, current_pml4 := boot_pml4 bt\<rparr>;
            s = s\<lparr>kernel_pdpt := entry_subtable (entry (mem s) (kernel_pml4 s) 0)\<rparr>;
            s = (if kernel_pdpt s \<noteq> 0
                 then s\<lparr>kernel_pd0 := entry_subtable (entry (mem s) (kernel_pdpt s) 0)\<rparr> else s)
        in s\<lparr>paging_enabled := True, paging_bytes_mapped := 4 * 1024 * 1024 * 1024\<rparr>)"

definition paging_map_mmio :: "boot_tables \<Rightarrow> u64 \<Rightarrow> 'a paging_st_scheme \<Rightarrow> int \<times> 'a paging_st_scheme" where
  "paging_map_mmio bt physical_address s =
     (if physical_address < 0x100000000 then (1, s)
      else (1, paging_map_region_early bt physical_address PAGE_SIZE_2MB s))"

section \<open>Address validation\<close>

definition paging_address_is_user_accessible :: "u64 \<Rightarrow> u64 \<Rightarrow> bool" where
  "paging_address_is_user_accessible address sz =
     (let e = address + sz in
      if sz = 0 then False
      else if e < address then False
      else address \<ge> PAGING_USER_BASE \<and> e \<le> PAGING_USER_BASE + PAGING_USER_SIZE)"

definition page_is_user_accessible :: "u64 \<Rightarrow> u64 \<Rightarrow> 'a paging_st_scheme \<Rightarrow> bool" where
  "page_is_user_accessible pml4 address s =
     (if pml4 = 0 then False
      else if address < PAGING_USER_BASE \<or> address \<ge> PAGING_USER_BASE + PAGING_USER_SIZE then False
      else
        let e = entry (mem s) pml4 (PML4_IDX address) in
        if \<not> has e PG_PRESENT \<or> \<not> has e PG_USER then False
        else
          let e = entry (mem s) (phys_to_virt e) (PDPT_IDX address) in
          if \<not> has e PG_PRESENT \<or> \<not> has e PG_USER then False
          else
            let e = entry (mem s) (phys_to_virt e) (PD_IDX address) in
            if \<not> has e PG_PRESENT \<or> \<not> has e PG_USER then False
            else if has e PG_PS then True
            else
              let e = entry (mem s) (phys_to_virt e) (PT_IDX address)
              in has e PG_PRESENT \<and> has e PG_USER)"

definition paging_directory_user_buffer_is_accessible :: "u64 \<Rightarrow> u64 \<Rightarrow> u64 \<Rightarrow> 'a paging_st_scheme \<Rightarrow> bool" where
  "paging_directory_user_buffer_is_accessible pml4 address sz s =
     (if \<not> paging_address_is_user_accessible address sz then False
      else list_all (\<lambda>cursor. page_is_user_accessible pml4 cursor s)
             (addr_steps (paging_align_down address PAGING_PAGE_SIZE) (address + sz) (unat PAGING_PAGE_SIZE)))"

definition paging_user_buffer_is_accessible :: "u64 \<Rightarrow> u64 \<Rightarrow> 'a paging_st_scheme \<Rightarrow> bool" where
  "paging_user_buffer_is_accessible buffer sz s =
     (if buffer = 0 then False
      else paging_directory_user_buffer_is_accessible (current_pml4 s) buffer sz s)"

text \<open>A read by the kernel through the tables of the processor; \<open>None\<close> is a page fault in the kernel.\<close>

definition translate :: "bmem \<Rightarrow> u64 \<Rightarrow> u64 \<Rightarrow> u64 option" where
  "translate m pml4 va =
     (let e4 = entry m pml4 (PML4_IDX va);
          e3 = entry m (phys_to_virt e4) (PDPT_IDX va);
          e2 = entry m (phys_to_virt e3) (PD_IDX va);
          e1 = entry m (phys_to_virt e2) (PT_IDX va)
      in if \<not> has e4 PG_PRESENT \<or> \<not> has e3 PG_PRESENT \<or> \<not> has e2 PG_PRESENT then None
         else if has e2 PG_PS then Some ((e2 AND 0x000FFFFFFFE00000) OR (va AND 0x1FFFFF))
         else if \<not> has e1 PG_PRESENT then None
         else Some (phys_to_virt e1 OR (va AND 0xFFF)))"

definition kernel_read :: "u64 \<Rightarrow> 'a paging_st_scheme \<Rightarrow> u8 option" where
  "kernel_read va s = map_option (mem s) (translate (mem s) (current_pml4 s) va)"

fun user_string_loop :: "u64 \<Rightarrow> nat \<Rightarrow> nat \<Rightarrow> 'a paging_st_scheme \<Rightarrow> bool option" where
  "user_string_loop address i 0 s = Some False"
| "user_string_loop address i (Suc n) s =
     (if \<not> paging_address_is_user_accessible (address + of_nat i) 1 then Some False
      else case kernel_read (address + of_nat i) s of
             None \<Rightarrow> None
           | Some c \<Rightarrow> if c = 0 then Some True else user_string_loop address (Suc i) n s)"

definition paging_user_string_is_accessible :: "u64 \<Rightarrow> u64 \<Rightarrow> 'a paging_st_scheme \<Rightarrow> bool option" where
  "paging_user_string_is_accessible text max_length s =
     (if text = 0 \<or> max_length = 0 then Some False
      else if \<not> paging_address_is_user_accessible text 1 then Some False
      else user_string_loop text 0 (unat max_length) s)"

section \<open>Pages of user space\<close>

definition user_pt_for :: "u64 \<Rightarrow> u64 \<Rightarrow> 'a paging_st_scheme \<Rightarrow> u64" where
  "user_pt_for pml4 va s =
     (if pml4 = 0 then 0
      else
        let e = entry (mem s) pml4 (PML4_IDX va) in
        if \<not> has e PG_PRESENT then 0
        else
          let e = entry (mem s) (phys_to_virt e) (PDPT_IDX va) in
          if \<not> has e PG_PRESENT then 0
          else
            let e = entry (mem s) (phys_to_virt e) (PD_IDX va) in
            if \<not> has e PG_PRESENT \<or> has e PG_PS then 0 else phys_to_virt e)"

definition free_if :: "u32 \<Rightarrow> 'a paging_st_scheme \<Rightarrow> 'a paging_st_scheme" where
  "free_if a s = (if a \<noteq> 0 then physmem_free_frame a s else s)"

text \<open>The loop of \<^verbatim>\<open>paging_create_user_directory\<close> that fills the two tables.\<close>

definition user_va :: "nat \<Rightarrow> u64" where
  "user_va page = PAGING_USER_BASE + of_nat page * PAGING_PAGE_SIZE"

definition fill_user_page :: "u64 \<Rightarrow> u64 \<Rightarrow> u64 \<Rightarrow> nat \<Rightarrow> 'a paging_st_scheme \<Rightarrow> 'a paging_st_scheme" where
  "fill_user_page pt0 pt1 user_physical_base page s =
     (let va = user_va page;
          pa = user_physical_base + of_nat page * PAGING_PAGE_SIZE
      in if va = PAGING_USER_STACK_GUARD_BASE then s
         else if page \<ge> ENTRIES_PER_TABLE
         then put_entry pt1 (page - ENTRIES_PER_TABLE) (pa OR PG_PRESENT OR PG_WRITABLE OR PG_USER) s
         else put_entry pt0 page (pa OR PG_PRESENT OR PG_WRITABLE OR PG_USER) s)"

definition USER_PAGES :: nat where
  "USER_PAGES = unat PAGING_USER_SIZE div unat PAGING_PAGE_SIZE"

definition link_user_tables :: "u64 \<Rightarrow> u64 \<Rightarrow> u64 \<Rightarrow> u64 \<Rightarrow> u64 \<Rightarrow> 'a paging_st_scheme \<Rightarrow> 'a paging_st_scheme" where
  "link_user_tables new_pml4 new_pdpt new_pd pt0 pt1 s =
     (let s = copy_table new_pml4 (kernel_pml4 s) s;
          s = put_entry new_pml4 0 (new_pdpt OR PG_PRESENT OR PG_WRITABLE OR PG_USER) s;
          s = copy_table new_pdpt (kernel_pdpt s) s;
          s = put_entry new_pdpt 0 (new_pd OR PG_PRESENT OR PG_WRITABLE OR PG_USER) s;
          s = copy_table new_pd (kernel_pd0 s) s;
          s = put_entry new_pd USER_PD_START (pt0 OR PG_PRESENT OR PG_WRITABLE OR PG_USER) s
      in put_entry new_pd (USER_PD_START + 1) (pt1 OR PG_PRESENT OR PG_WRITABLE OR PG_USER) s)"

definition paging_create_user_directory :: "u64 \<Rightarrow> 'a paging_st_scheme \<Rightarrow> u64 \<times> 'a paging_st_scheme" where
  "paging_create_user_directory user_physical_base s =
     (if kernel_pml4 s = 0 \<or> kernel_pdpt s = 0 \<or> kernel_pd0 s = 0 then (0, s)
      else
        let (pml4_phys, s) = physmem_alloc_frame s;
            (pdpt_phys, s) = physmem_alloc_frame s;
            (pd_phys, s) = physmem_alloc_frame s;
            (pt0_phys, s) = physmem_alloc_frame s;
            (pt1_phys, s) = physmem_alloc_frame s
        in if pml4_phys = 0 \<or> pdpt_phys = 0 \<or> pd_phys = 0 \<or> pt0_phys = 0 \<or> pt1_phys = 0
           then (0, free_if pt1_phys (free_if pt0_phys (free_if pd_phys
                      (free_if pdpt_phys (free_if pml4_phys s)))))
           else
             let new_pml4 = ucast pml4_phys; pt0 = ucast pt0_phys; pt1 = ucast pt1_phys;
                 s = link_user_tables new_pml4 (ucast pdpt_phys) (ucast pd_phys) pt0 pt1 s;
                 s = clear_table pt1 (clear_table pt0 s)
             in (new_pml4, fold (fill_user_page pt0 pt1 user_physical_base) [0..<USER_PAGES] s))"

definition paging_map_user_page :: "u64 \<Rightarrow> u64 \<Rightarrow> u64 \<Rightarrow> bool \<Rightarrow> 'a paging_st_scheme \<Rightarrow> bool \<times> 'a paging_st_scheme" where
  "paging_map_user_page pml4 va pa writable s =
     (if pml4 = 0 \<or> va < PAGING_USER_BASE \<or> va \<ge> PAGING_USER_BASE + PAGING_USER_SIZE \<or>
         va mod PAGING_PAGE_SIZE \<noteq> 0 \<or> pa = 0 \<or> pa mod PAGING_PAGE_SIZE \<noteq> 0
      then (False, s)
      else
        let pt = user_pt_for pml4 va s in
        if pt = 0 then (False, s)
        else
          let flags = PG_PRESENT OR PG_USER OR (if writable then PG_WRITABLE else 0);
              s = put_entry pt (PT_IDX va) (pa OR flags) s
          in (True, if current_pml4 s = pml4 then paging_invalidate_page va s else s))"

definition paging_unmap_user_page :: "u64 \<Rightarrow> u64 \<Rightarrow> 'a paging_st_scheme \<Rightarrow> bool \<times> 'a paging_st_scheme" where
  "paging_unmap_user_page pml4 va s =
     (if pml4 = 0 \<or> va < PAGING_USER_BASE \<or> va \<ge> PAGING_USER_BASE + PAGING_USER_SIZE \<or>
         va mod PAGING_PAGE_SIZE \<noteq> 0
      then (False, s)
      else
        let pt = user_pt_for pml4 va s in
        if pt = 0 then (False, s)
        else
          let s = put_entry pt (PT_IDX va) 0 s
          in (True, if current_pml4 s = pml4 then paging_invalidate_page va s else s))"

definition paging_lookup_user_page :: "u64 \<Rightarrow> u64 \<Rightarrow> 'a paging_st_scheme \<Rightarrow> u64" where
  "paging_lookup_user_page pml4 va s =
     (if pml4 = 0 \<or> va < PAGING_USER_BASE \<or> va \<ge> PAGING_USER_BASE + PAGING_USER_SIZE then 0
      else
        let pt = user_pt_for pml4 va s in
        if pt = 0 then 0
        else
          let pte = entry (mem s) pt (PT_IDX va)
          in if \<not> has pte PG_PRESENT then 0 else pte AND PG_ADDR_MASK)"

section \<open>Destroying and switching\<close>

definition free_user_pts :: "u64 \<Rightarrow> 'a paging_st_scheme \<Rightarrow> 'a paging_st_scheme" where
  "free_user_pts pml4 s =
     (let e = entry (mem s) pml4 0 in
      if \<not> has e PG_PRESENT then s
      else
        let pdpt = phys_to_virt e;
            e = entry (mem s) pdpt 0;
            s = (if \<not> has e PG_PRESENT then s
                 else
                   let pd = phys_to_virt e;
                       s = fold (\<lambda>i s. let pde = entry (mem s) pd (USER_PD_START + i) in
                                      if has pde PG_PRESENT \<and> \<not> has pde PG_PS
                                      then physmem_free_frame (ucast (pde AND PG_ADDR_MASK)) s else s)
                             [0..<USER_PD_COUNT] s
                   in physmem_free_frame (ucast (entry (mem s) pdpt 0 AND PG_ADDR_MASK)) s)
        in physmem_free_frame (ucast (entry (mem s) pml4 0 AND PG_ADDR_MASK)) s)"

definition paging_destroy_user_directory :: "u64 \<Rightarrow> 'a paging_st_scheme \<Rightarrow> 'a paging_st_scheme" where
  "paging_destroy_user_directory pml4 s =
     (if pml4 = 0 \<or> pml4 = kernel_pml4 s then s
      else physmem_free_frame (ucast pml4) (free_user_pts pml4 s))"

definition paging_switch_directory :: "u64 \<Rightarrow> 'a paging_st_scheme \<Rightarrow> 'a paging_st_scheme" where
  "paging_switch_directory pml4 s =
     (let pml4 = (if pml4 = 0 then kernel_pml4 s else pml4) in
      if current_pml4 s = pml4 then s
      else (load_cr3 pml4 s)\<lparr>current_pml4 := pml4\<rparr>)"

section \<open>Copy on write\<close>

definition cow_share_page ::
  "u64 \<Rightarrow> u64 \<Rightarrow> u64 \<Rightarrow> nat \<Rightarrow> nat \<Rightarrow> 'a paging_st_scheme \<Rightarrow> 'a paging_st_scheme" where
  "cow_share_page parent_pml4 parent_pt child_pt ti p s =
     (let pte = entry (mem s) parent_pt p in
      if \<not> has pte PG_PRESENT then put_entry child_pt p 0 s
      else
        let va = user_va (ti * ENTRIES_PER_TABLE + p) in
        if va \<ge> PAGING_USER_SHM_BASE \<and> va < PAGING_USER_STACK_GUARD_BASE
        then put_entry child_pt p 0 s
        else
          let phys = pte AND PG_ADDR_MASK;
              cow_flags = phys OR PG_PRESENT OR PG_USER OR PG_COW;
              s = put_entry child_pt p cow_flags (put_entry parent_pt p cow_flags s);
              s = physmem_ref_frame (ucast phys) s
          in if current_pml4 s = parent_pml4 then paging_invalidate_page va s else s)"

definition cow_cleanup :: "u64 \<Rightarrow> u32 \<Rightarrow> u32 \<Rightarrow> u32 \<Rightarrow> nat \<Rightarrow> 'a paging_st_scheme \<Rightarrow> 'a paging_st_scheme" where
  "cow_cleanup new_pd pml4_phys pdpt_phys pd_phys ti s =
     (let s = fold (\<lambda>j s. let e = entry (mem s) new_pd (USER_PD_START + j) in
                        if has e PG_PRESENT then physmem_free_frame (ucast (e AND PG_ADDR_MASK)) s else s)
                [0..<ti] s
      in physmem_free_frame pml4_phys (physmem_free_frame pdpt_phys (physmem_free_frame pd_phys s)))"

text \<open>The loop over the two tables of user space; \<open>False\<close> when a table could not be allocated.\<close>

fun cow_clone_tables ::
  "u64 \<Rightarrow> u64 \<Rightarrow> u32 \<times> u32 \<times> u32 \<Rightarrow> nat list \<Rightarrow> 'a paging_st_scheme \<Rightarrow> bool \<times> 'a paging_st_scheme" where
  "cow_clone_tables parent_pml4 parent_pd new [] s = (True, s)"
| "cow_clone_tables parent_pml4 parent_pd new (ti # tis) s =
     (let (pml4_phys, pdpt_phys, pd_phys) = new;
          new_pd = ucast pd_phys;
          parent_pde = entry (mem s) parent_pd (USER_PD_START + ti)
      in if \<not> has parent_pde PG_PRESENT \<or> has parent_pde PG_PS
         then cow_clone_tables parent_pml4 parent_pd new tis (put_entry new_pd (USER_PD_START + ti) 0 s)
         else
           let parent_pt = phys_to_virt parent_pde;
               (child_pt_phys, s) = physmem_alloc_frame s
           in if child_pt_phys = 0 then (False, cow_cleanup new_pd pml4_phys pdpt_phys pd_phys ti s)
              else
                let child_pt = ucast child_pt_phys;
                    s = fold (cow_share_page parent_pml4 parent_pt child_pt ti) [0..<ENTRIES_PER_TABLE] s
                in cow_clone_tables parent_pml4 parent_pd new tis
                     (put_entry new_pd (USER_PD_START + ti)
                        (child_pt OR PG_PRESENT OR PG_WRITABLE OR PG_USER) s))"

definition cow_link :: "u64 \<Rightarrow> u64 \<Rightarrow> u64 \<Rightarrow> u64 \<Rightarrow> u64 \<Rightarrow> u64 \<Rightarrow> 'a paging_st_scheme \<Rightarrow> 'a paging_st_scheme" where
  "cow_link new_pml4 new_pdpt new_pd parent_pml4 parent_pdpt parent_pd s =
     (let s = copy_table new_pml4 parent_pml4 s;
          s = put_entry new_pml4 0 (new_pdpt OR PG_PRESENT OR PG_WRITABLE OR PG_USER) s;
          s = copy_table new_pdpt parent_pdpt s;
          s = put_entry new_pdpt 0 (new_pd OR PG_PRESENT OR PG_WRITABLE OR PG_USER) s
      in copy_table new_pd parent_pd s)"

definition paging_cow_clone_user_directory :: "u64 \<Rightarrow> 'a paging_st_scheme \<Rightarrow> u64 \<times> 'a paging_st_scheme" where
  "paging_cow_clone_user_directory parent_pml4 s =
     (if parent_pml4 = 0 \<or> kernel_pml4 s = 0 then (0, s)
      else
        let parent_pdpt = entry_subtable (entry (mem s) parent_pml4 0) in
        if parent_pdpt = 0 then (0, s)
        else
          let parent_pd = entry_subtable (entry (mem s) parent_pdpt 0) in
          if parent_pd = 0 then (0, s)
          else
            let (pml4_phys, s) = physmem_alloc_frame s;
                (pdpt_phys, s) = physmem_alloc_frame s;
                (pd_phys, s) = physmem_alloc_frame s
            in if pml4_phys = 0 \<or> pdpt_phys = 0 \<or> pd_phys = 0
               then (0, free_if pd_phys (free_if pdpt_phys (free_if pml4_phys s)))
               else
                 let s = cow_link (ucast pml4_phys) (ucast pdpt_phys) (ucast pd_phys)
                           parent_pml4 parent_pdpt parent_pd s;
                     (ok, s) = cow_clone_tables parent_pml4 parent_pd (pml4_phys, pdpt_phys, pd_phys)
                                 [0..<USER_PD_COUNT] s
                 in (if ok then ucast pml4_phys else 0, s))"

definition release_page :: "u64 \<Rightarrow> nat \<Rightarrow> 'a paging_st_scheme \<Rightarrow> 'a paging_st_scheme" where
  "release_page pt p s =
     (let pte = entry (mem s) pt p in
      if \<not> has pte PG_PRESENT then s
      else put_entry pt p 0 (physmem_unref_frame (ucast (pte AND PG_ADDR_MASK)) s))"

definition paging_release_user_pages :: "u64 \<Rightarrow> 'a paging_st_scheme \<Rightarrow> 'a paging_st_scheme" where
  "paging_release_user_pages pml4 s =
     (if pml4 = 0 then s
      else fold (\<lambda>ti s. let pt = user_pt_for pml4 (user_va (ti * ENTRIES_PER_TABLE)) s in
                       if pt = 0 then s else fold (release_page pt) [0..<ENTRIES_PER_TABLE] s)
             [0..<USER_PD_COUNT] s)"

definition copy_frame :: "u64 \<Rightarrow> u64 \<Rightarrow> 'a paging_st_scheme \<Rightarrow> 'a paging_st_scheme" where
  "copy_frame src dst s =
     fold (\<lambda>i s. put_entry dst i (entry (mem s) src i) s) [0..<unat PAGING_PAGE_SIZE div 8] s"

definition paging_cow_resolve :: "u64 \<Rightarrow> u64 \<Rightarrow> 'a paging_st_scheme \<Rightarrow> bool \<times> 'a paging_st_scheme" where
  "paging_cow_resolve pml4 fault_address s =
     (let page_addr = fault_address AND NOT (PAGING_PAGE_SIZE - 1) in
      if pml4 = 0 \<or> page_addr < PAGING_USER_BASE \<or> page_addr \<ge> PAGING_USER_BASE + PAGING_USER_SIZE
      then (False, s)
      else
        let pt = user_pt_for pml4 page_addr s in
        if pt = 0 then (False, s)
        else
          let pte = entry (mem s) pt (PT_IDX page_addr) in
          if \<not> has pte PG_PRESENT \<or> \<not> has pte PG_COW then (False, s)
          else
            let old_phys = (ucast (pte AND PG_ADDR_MASK) :: u32) in
            if physmem_frame_refcount old_phys s = 1
            then (True, paging_invalidate_page page_addr
                    (put_entry pt (PT_IDX page_addr) (ucast old_phys OR PG_PRESENT OR PG_WRITABLE OR PG_USER) s))
            else
              let (new_phys, s) = physmem_alloc_frame s in
              if new_phys = 0 then (False, s)
              else
                let s = copy_frame (ucast old_phys) (ucast new_phys) s;
                    s = physmem_unref_frame old_phys s
                in (True, paging_invalidate_page page_addr
                      (put_entry pt (PT_IDX page_addr) (ucast new_phys OR PG_PRESENT OR PG_WRITABLE OR PG_USER) s)))"

section \<open>Stores by user programs\<close>

text \<open>The page fault of \<^verbatim>\<open>exception_interrupt_handler\<close> in user mode, with the directory of the current
  task: \<open>True\<close> when the program resumes, \<open>False\<close> when it is ended.\<close>

definition user_page_fault :: "u64 \<Rightarrow> u64 \<Rightarrow> u64 \<Rightarrow> 'a paging_st_scheme \<Rightarrow> bool \<times> 'a paging_st_scheme" where
  "user_page_fault dir fault_addr error_code s =
     (if error_code AND 0x07 = 0x07 \<and> dir \<noteq> 0 then paging_cow_resolve dir fault_addr s else (False, s))"

text \<open>What the processor does for a store of one byte in user mode: the walk, with the error code of
  the fault (present, write, user) when it does not allow the store.\<close>

definition user_store_attempt :: "u64 \<Rightarrow> u64 \<Rightarrow> u8 \<Rightarrow> 'a paging_st_scheme \<Rightarrow> u64 + 'a paging_st_scheme" where
  "user_store_attempt dir va b s =
     (let e4 = entry (mem s) dir (PML4_IDX va);
          e3 = entry (mem s) (phys_to_virt e4) (PDPT_IDX va);
          e2 = entry (mem s) (phys_to_virt e3) (PD_IDX va);
          e1 = entry (mem s) (phys_to_virt e2) (PT_IDX va);
          es = (if has e2 PG_PS then [e4, e3, e2] else [e4, e3, e2, e1])
      in case translate (mem s) dir va of
           None \<Rightarrow> Inl 6
         | Some pa \<Rightarrow>
             if list_all (\<lambda>e. has e PG_USER \<and> has e PG_WRITABLE) es
             then Inr (s\<lparr>mem := (mem s)(pa := b)\<rparr>) else Inl 7)"

text \<open>The store with the fault handler: the instruction is executed again after the handler has
  resolved the fault. A second fault finds an entry without the mark and ends the program.\<close>

definition user_store :: "u64 \<Rightarrow> u64 \<Rightarrow> u8 \<Rightarrow> 'a paging_st_scheme \<Rightarrow> 'a paging_st_scheme option" where
  "user_store dir va b s =
     (case user_store_attempt dir va b s of
        Inr s' \<Rightarrow> Some s'
      | Inl code \<Rightarrow>
          (case user_page_fault dir va code s of
             (False, _) \<Rightarrow> None
           | (True, s') \<Rightarrow>
               (case user_store_attempt dir va b s' of Inr s'' \<Rightarrow> Some s'' | Inl _ \<Rightarrow> None)))"

section \<open>Words in memory\<close>

lemma bit_load64_fold:
  fixes m :: bmem
  shows "bit (fold (\<lambda>i v. v OR push_bit (8 * i) (ucast (m (p + of_nat i)))) [0..<k] (0 :: u64)) n \<longleftrightarrow>
     n < 64 \<and> n < 8 * k \<and> bit (m (p + of_nat (n div 8))) (n mod 8)"
proof (induction k)
  case (Suc k)
  have "8 * k \<le> n \<and> n < 8 * Suc k \<longleftrightarrow> n div 8 = k" by auto
  moreover have "bit (m (p + of_nat k)) (n - 8 * k) \<Longrightarrow> n - 8 * k < 8"
    using bit_imp_le_length [of "m (p + of_nat k)" "n - 8 * k"] by simp
  ultimately show ?case
    using Suc by (auto simp: bit_simps modulo_nat_def mult.commute)
qed simp

lemma bit_load64: "bit (load64 m p) n \<longleftrightarrow> n < 64 \<and> bit (m (p + of_nat (n div 8))) (n mod 8)"
  unfolding load64_def bit_load64_fold by auto

lemma load64_cong: "(\<And>i. i < 8 \<Longrightarrow> m (p + of_nat i) = m' (p + of_nat i)) \<Longrightarrow> load64 m p = load64 m' p"
  by (intro bit_eqI) (auto simp: bit_load64)

lemma load64_store: "load64 (store_le 8 p v m) p = v"
proof (rule bit_eqI)
  fix n assume "possible_bit TYPE(u64) n"
  then have "n < 64" by simp
  then have "n div 8 < 8" by simp
  then have "unat (of_nat (n div 8) :: u64) = n div 8" by (intro unat_of_nat_small) simp
  with \<open>n < 64\<close> \<open>n div 8 < 8\<close> show "bit (load64 (store_le 8 p v m) p) n = bit v n"
    by (simp only: bit_load64 store_le_at bit_simps) (simp add: bit_simps)
qed

lemma load64_store_other:
  assumes "8 \<le> unat (q - p)" "8 \<le> unat (p - q)"
  shows "load64 (store_le 8 p v m) q = load64 m q"
proof (rule load64_cong)
  fix i :: nat assume i: "i < 8"
  have neg: "unat (q - p) + unat (p - q) = 2 ^ 64"
    using assms(1) unat_add_lem [of "q - p" "p - q"] unat_word_ariths(1) [of "q - p" "p - q"]
      unat_u64_less [of "q - p"] unat_u64_less [of "p - q"]
    by (simp add: mod_if split: if_splits)
  have eq: "q + of_nat i - p = (q - p) + of_nat i" by simp
  have "unat (q - p) + i < 2 ^ 64" using neg assms(2) i by simp
  then have "unat (q + of_nat i - p) = unat (q - p) + i"
    unfolding eq using i by (simp only: unat_word_ariths) (simp add: unat_of_nat_small)
  with assms show "store_le 8 p v m (q + of_nat i) = m (q + of_nat i)"
    by (simp add: store_le_at)
qed

section \<open>Tables\<close>

text \<open>An address of a page, and the page in which an address lies.\<close>

definition paged :: "u64 \<Rightarrow> bool" where
  "paged t \<longleftrightarrow> unat t mod 4096 = 0"

definition page_no :: "u64 \<Rightarrow> nat" where
  "page_no a = unat a div 4096"

lemma paged_eq: "paged t \<Longrightarrow> paged t' \<Longrightarrow> page_no t = page_no t' \<longleftrightarrow> t = t'"
  by (auto simp: paged_def page_no_def word_unat_eq_iff)

lemma power_numeral_64: "(2 :: nat) ^ 64 = 18446744073709551616"
  by simp

lemma unat_in_page:
  assumes "paged t" "n < 4096"
  shows "unat (t + of_nat n) = unat t + n"
proof -
  obtain k where k: "unat t = 4096 * k" using assms(1) by (auto simp: paged_def)
  then have "k < 4503599627370496" using unat_u64_less [of t] by linarith
  then have "unat t + n < 2 ^ 64" using assms(2) unfolding k power_numeral_64 by linarith
  then show ?thesis using assms(2) by (simp add: unat_word_ariths unat_of_nat_small)
qed

lemma page_no_in_page: "paged t \<Longrightarrow> n < 4096 \<Longrightarrow> page_no (t + of_nat n) = page_no t"
  by (auto simp: page_no_def unat_in_page paged_def)

lemma entry_addr: "t + 8 * of_nat i = t + of_nat (8 * i)" for t :: u64
  by simp

lemma unat_sub_word64: "unat (b - a :: u64) = (if unat a \<le> unat b then unat b - unat a else unat b + 2 ^ 64 - unat a)"
  by (simp add: unat_sub_if_size word_size)

lemma mult_8_apart:
  fixes k k' :: nat
  assumes "k \<noteq> k'" "8 * k < 18446744073709551616"
  shows "8 \<le> (if 8 * k \<le> 8 * k' then 8 * k' - 8 * k else 8 * k' + 18446744073709551616 - 8 * k)"
proof -
  have "k < 2305843009213693952" using assms(2) by linarith
  then show ?thesis using assms(1) by (cases "k \<le> k'") simp_all
qed

lemma entry_store:
  assumes "paged t" "paged t'" "i < 512" "i' < 512"
  shows "entry (store_le 8 (t + 8 * of_nat i) v m) t' i' = (if t' = t \<and> i' = i then v else entry m t' i')"
proof (cases "t' = t \<and> i' = i")
  case False
  have a: "unat (t + 8 * of_nat i) = unat t + 8 * i" "unat (t' + 8 * of_nat i') = unat t' + 8 * i'"
    unfolding entry_addr using assms by (simp_all only: unat_in_page)
  define x y where "x = unat t div 4096" "y = unat t' div 4096"
  have xy: "unat t = 4096 * x" "unat t' = 4096 * y"
    using assms(1,2) by (auto simp: x_y_def paged_def)
  define k k' where "k = 512 * x + i" "k' = 512 * y + i'"
  have b: "unat (t + 8 * of_nat i) = 8 * k" "unat (t' + 8 * of_nat i') = 8 * k'"
    unfolding a xy k_k'_def by simp_all
  have "k \<noteq> k'"
  proof
    assume kk: "k = k'"
    have "k div 512 = x" "k mod 512 = i" "k' div 512 = y" "k' mod 512 = i'"
      unfolding k_k'_def using assms(3,4) by simp_all
    with kk have "x = y \<and> i = i'" by simp
    with False xy show False by (auto simp: word_unat_eq_iff)
  qed
  moreover have "8 * k < 18446744073709551616" "8 * k' < 18446744073709551616"
    using unat_u64_less [of "t + 8 * of_nat i"] unat_u64_less [of "t' + 8 * of_nat i'"] b by simp_all
  ultimately have "8 \<le> unat ((t' + 8 * of_nat i') - (t + 8 * of_nat i))"
    "8 \<le> unat ((t + 8 * of_nat i) - (t' + 8 * of_nat i'))"
    unfolding unat_sub_word64 b power_numeral_64 by (intro mult_8_apart; simp)+
  with False show ?thesis by (auto simp: entry_def load64_store_other)
qed (simp add: entry_def load64_store)

lemma entry_put [simp]:
  "paged t \<Longrightarrow> paged t' \<Longrightarrow> i < 512 \<Longrightarrow> i' < 512 \<Longrightarrow>
   entry (mem (put_entry t i v s)) t' i' = (if t' = t \<and> i' = i then v else entry (mem s) t' i')"
  by (simp add: put_entry_def entry_store)

lemma mem_put_other:
  assumes "paged t" "i < 512" "page_no a \<noteq> page_no t"
  shows "mem (put_entry t i v s) a = mem s a"
proof -
  have "\<not> unat (a - (t + 8 * of_nat i)) < 8"
  proof
    assume "unat (a - (t + 8 * of_nat i)) < 8"
    then obtain j where j: "j < 8" "a - (t + 8 * of_nat i) = of_nat j" by (metis of_nat_unat_id)
    then have "a = t + of_nat (8 * i + j)" by (simp add: algebra_simps)
    then show False using assms j(1) by (simp only: page_no_in_page)
  qed
  then show ?thesis by (simp add: put_entry_def store_le_at)
qed

lemma put_entry_fields [simp, frame_simps]:
  "frame_bitmap (put_entry t i v s) = frame_bitmap s" "total_frames (put_entry t i v s) = total_frames s"
  "free_frames (put_entry t i v s) = free_frames s" "frame_refcount (put_entry t i v s) = frame_refcount s"
  "kernel_pml4 (put_entry t i v s) = kernel_pml4 s" "kernel_pdpt (put_entry t i v s) = kernel_pdpt s"
  "kernel_pd0 (put_entry t i v s) = kernel_pd0 s" "current_pml4 (put_entry t i v s) = current_pml4 s"
  "cr3 (put_entry t i v s) = cr3 s" "tlb (put_entry t i v s) = tlb s"
  by (simp_all add: put_entry_def)

end
