(* ===== verification/Page_Slots.thy ===== *)
theory Page_Slots
  imports Paging
begin

text \<open>
  Entries of page tables as slots that hold references to frames. A slot is a table and an index;
  the invariant \<open>slot_inv\<close> says of the tables \<open>K\<close> and the slots \<open>S\<close> of the address spaces in use that
  every table is a frame of its own, that the count of a frame is at least the number of slots that
  refer to it, and that a frame with a writable slot has no other slot. The lemmas show how the
  operations of \<open>Paging\<close> on one slot keep it.
\<close>

unbundle bit_operations_syntax

section \<open>Addresses and flags in an entry\<close>

definition page_addr :: "u64 \<Rightarrow> bool" where
  "page_addr a \<longleftrightarrow> a AND PG_ADDR_MASK = a"

lemma mask_eq: "PG_ADDR_MASK = push_bit 12 (mask 40)"
  by (simp add: PG_ADDR_MASK_def mask_eq_exp_minus_1 push_bit_eq_mult)

lemma bit_addr_mask: "bit PG_ADDR_MASK n \<longleftrightarrow> 12 \<le> n \<and> n < 52"
  unfolding mask_eq by (auto simp: bit_simps)

lemma page_addr_masked [simp]: "page_addr (e AND PG_ADDR_MASK)"
  by (simp add: page_addr_def and.assoc)

lemma page_addr_bits: "page_addr a \<Longrightarrow> bit a n \<Longrightarrow> 12 \<le> n \<and> n < 52"
  unfolding page_addr_def using bit_and_iff [of a PG_ADDR_MASK n] by (simp add: bit_addr_mask)

lemma unat_mod_4096: "unat (a :: u64) mod 4096 = unat (a AND 0xFFF)"
proof -
  have "a AND 0xFFF = take_bit 12 a" by (simp add: take_bit_eq_mask mask_eq_exp_minus_1)
  then show ?thesis by (simp only: unsigned_take_bit_eq) (simp add: take_bit_eq_mod)
qed

lemma bit_low_mask: "bit (0xFFF :: u64) n \<longleftrightarrow> n < 12"
proof -
  have "(0xFFF :: u64) = mask 12" by (simp add: mask_eq_exp_minus_1)
  then show ?thesis by (simp only: bit_mask_iff) auto
qed

lemma page_addr_paged: "page_addr a \<Longrightarrow> paged a"
proof -
  assume a: "page_addr a"
  have "a AND 0xFFF = 0"
  proof (rule bit_eqI)
    fix n
    show "bit (a AND 0xFFF) n = bit 0 n"
      using page_addr_bits [OF a, of n] bit_low_mask [of n] unfolding bit_and_iff by auto
  qed
  then show ?thesis unfolding paged_def unat_mod_4096 by simp
qed

lemma paged_page_addr:
  assumes "paged a" "unat a < 4294967296"
  shows "page_addr a"
  unfolding page_addr_def
proof (rule bit_eqI)
  fix n
  have "a AND 0xFFF = 0" using assms(1) unfolding paged_def unat_mod_4096 by (simp only: unat_eq_0)
  then have "bit a n \<Longrightarrow> \<not> n < 12"
    using bit_and_iff [of a "0xFFF" n] bit_low_mask [of n] by auto
  moreover have "take_bit 32 a = a"
    using assms(2) by (simp add: word_unat_eq_iff unsigned_take_bit_eq take_bit_nat_eq_self)
  then have "bit a n \<Longrightarrow> n < 32" by (metis bit_take_bit_iff)
  ultimately show "bit (a AND PG_ADDR_MASK) n = bit a n" by (auto simp: bit_and_iff bit_addr_mask)
qed

lemma addr_flags:
  assumes "page_addr a" "fl AND PG_ADDR_MASK = 0"
  shows "(a OR fl) AND PG_ADDR_MASK = a"
  using assms by (simp add: page_addr_def and.commute bit.conj_disj_distrib2 bit.conj_disj_distrib)

lemma has_flags:
  assumes "page_addr a" "g AND PG_ADDR_MASK = 0"
  shows "has (a OR fl) g = has fl g"
proof -
  have "a AND g = a AND (PG_ADDR_MASK AND g)" using assms(1) by (simp add: page_addr_def and.assoc [symmetric])
  then have "a AND g = 0" using assms(2) by (simp add: and.commute)
  then show ?thesis by (simp add: has_def bit.conj_disj_distrib2)
qed

lemmas flag_defs = PG_PRESENT_def PG_WRITABLE_def PG_USER_def PG_PWT_def PG_PS_def PG_COW_def

lemma flag_masks [simp]:
  "PG_PRESENT AND PG_ADDR_MASK = 0" "PG_WRITABLE AND PG_ADDR_MASK = 0" "PG_USER AND PG_ADDR_MASK = 0"
  "PG_PS AND PG_ADDR_MASK = 0" "PG_COW AND PG_ADDR_MASK = 0"
  by (simp_all add: flag_defs PG_ADDR_MASK_def)

lemma flags_masked:
  "(PG_PRESENT OR PG_WRITABLE OR PG_USER) AND PG_ADDR_MASK = 0"
  "(PG_PRESENT OR PG_USER OR PG_COW) AND PG_ADDR_MASK = 0"
  by (simp_all add: flag_defs PG_ADDR_MASK_def)

definition rw_flags :: u64 where "rw_flags = PG_PRESENT OR PG_WRITABLE OR PG_USER"
definition cow_flags :: u64 where "cow_flags = PG_PRESENT OR PG_USER OR PG_COW"

lemma flags_assoc:
  "a OR PG_PRESENT OR PG_WRITABLE OR PG_USER = a OR rw_flags"
  "a OR PG_PRESENT OR PG_USER OR PG_COW = a OR cow_flags"
  by (simp_all add: rw_flags_def cow_flags_def or.assoc)

lemma rw_entry [simp]:
  assumes "page_addr a"
  shows "(a OR rw_flags) AND PG_ADDR_MASK = a" "has (a OR rw_flags) PG_PRESENT" "has (a OR rw_flags) PG_WRITABLE"
    "has (a OR rw_flags) PG_USER" "\<not> has (a OR rw_flags) PG_PS" "\<not> has (a OR rw_flags) PG_COW"
  using assms flags_masked(1) [folded rw_flags_def]
  by (simp_all add: addr_flags has_flags) (simp_all add: rw_flags_def has_def flag_defs)

lemma cow_entry [simp]:
  assumes "page_addr a"
  shows "(a OR cow_flags) AND PG_ADDR_MASK = a" "has (a OR cow_flags) PG_PRESENT" "\<not> has (a OR cow_flags) PG_WRITABLE"
    "has (a OR cow_flags) PG_USER" "\<not> has (a OR cow_flags) PG_PS" "has (a OR cow_flags) PG_COW"
  using assms flags_masked(2) [folded cow_flags_def]
  by (simp_all add: addr_flags has_flags) (simp_all add: cow_flags_def has_def flag_defs)

lemma has_zero [simp]: "\<not> has 0 fl"
  by (simp add: has_def)

text \<open>Addresses of frames, as the frame allocator returns them.\<close>

lemma unat_ucast_up: "unat (ucast (a :: u32) :: u64) = unat a"
proof -
  have "unat a < 2 ^ 64" using unat_u32_less [of a] by simp
  then show ?thesis by (simp add: unsigned_ucast_eq take_bit_nat_eq_self)
qed

lemma ucast_down_up: "unat a < 4294967296 \<Longrightarrow> ucast (ucast (a :: u64) :: u32) = a"
  by (simp add: word_unat_eq_iff unat_ucast_up) (simp add: unsigned_ucast_eq take_bit_nat_eq_self_iff)

lemma frame_page_addr: "unat (a :: u32) mod 4096 = 0 \<Longrightarrow> page_addr (ucast a)"
  using unat_u32_less [of a] by (intro paged_page_addr) (simp_all add: paged_def unat_ucast_up)

section \<open>The frame allocator under the tables\<close>

lemma mark_frame_paging [simp]:
  "mem (mark_frame f u s) = mem s" "kernel_pml4 (mark_frame f u s) = kernel_pml4 s"
  "kernel_pdpt (mark_frame f u s) = kernel_pdpt s" "kernel_pd0 (mark_frame f u s) = kernel_pd0 s"
  "current_pml4 (mark_frame f u s) = current_pml4 s" "tlb (mark_frame f u s) = tlb s" "cr3 (mark_frame f u s) = cr3 s"
  by (simp_all add: mark_frame_def Let_def)

lemma ref_frame_paging [simp]:
  "mem (physmem_ref_frame a s) = mem s" "kernel_pml4 (physmem_ref_frame a s) = kernel_pml4 s"
  "kernel_pdpt (physmem_ref_frame a s) = kernel_pdpt s" "kernel_pd0 (physmem_ref_frame a s) = kernel_pd0 s"
  "current_pml4 (physmem_ref_frame a s) = current_pml4 s" "tlb (physmem_ref_frame a s) = tlb s"
  "cr3 (physmem_ref_frame a s) = cr3 s" "total_frames (physmem_ref_frame a s) = total_frames s"
  by (simp_all add: physmem_ref_frame_def Let_def)

lemma unref_frame_paging [simp]:
  "mem (physmem_unref_frame a s) = mem s" "kernel_pml4 (physmem_unref_frame a s) = kernel_pml4 s"
  "kernel_pdpt (physmem_unref_frame a s) = kernel_pdpt s" "kernel_pd0 (physmem_unref_frame a s) = kernel_pd0 s"
  "current_pml4 (physmem_unref_frame a s) = current_pml4 s" "tlb (physmem_unref_frame a s) = tlb s"
  "cr3 (physmem_unref_frame a s) = cr3 s" "total_frames (physmem_unref_frame a s) = total_frames s"
  by (simp_all add: physmem_unref_frame_def Let_def)

lemma free_frame_paging [simp]:
  "mem (physmem_free_frame a s) = mem s" "kernel_pml4 (physmem_free_frame a s) = kernel_pml4 s"
  "kernel_pdpt (physmem_free_frame a s) = kernel_pdpt s" "kernel_pd0 (physmem_free_frame a s) = kernel_pd0 s"
  "current_pml4 (physmem_free_frame a s) = current_pml4 s" "tlb (physmem_free_frame a s) = tlb s"
  "cr3 (physmem_free_frame a s) = cr3 s" "total_frames (physmem_free_frame a s) = total_frames s"
  by (simp_all add: physmem_free_frame_def Let_def)

text \<open>The state outside the frame allocator and the memory, which no operation on frames or entries changes.\<close>

definition same_dirs :: "'a paging_st_scheme \<Rightarrow> 'a paging_st_scheme \<Rightarrow> bool" where
  "same_dirs s t \<longleftrightarrow> kernel_pml4 s = kernel_pml4 t \<and> kernel_pdpt s = kernel_pdpt t \<and>
     kernel_pd0 s = kernel_pd0 t \<and> current_pml4 s = current_pml4 t \<and> total_frames s = total_frames t"

lemma same_dirs_refl [simp]: "same_dirs s s"
  by (simp add: same_dirs_def)

lemma same_dirs_trans [trans]: "same_dirs s t \<Longrightarrow> same_dirs t u \<Longrightarrow> same_dirs s u"
  by (simp add: same_dirs_def)

lemma frame_addr_page_no: "unat (a :: u32) = f * 4096 \<Longrightarrow> page_no (ucast a) = f"
  by (simp add: page_no_def unat_ucast_up)

lemma alloc_fresh:
  assumes "physmem_inv s" "physmem_alloc_frame s = (a, s')" "a \<noteq> 0"
  obtains "page_addr (ucast a)" "256 \<le> page_no (ucast a)" "page_no (ucast a) < total_frames s"
    "frame_refcount s (page_no (ucast a)) = 0"
    "frame_refcount s' = (frame_refcount s)(page_no (ucast a) := 1)"
    "physmem_inv s'" "mem s' = mem s" "tlb s' = tlb s" "same_dirs s' s"
proof -
  from assms obtain f where f: "unat a = f * 4096" "256 \<le> f" "f < total_frames s" "\<not> frame_is_marked s f"
    "s' = (mark_frame f True s)\<lparr>frame_refcount := (frame_refcount s)(f := 1)\<rparr>"
    by (rule alloc_frame_life) blast
  have "frame_refcount s f = 0" using assms(1) f(3,4) by (auto simp: physmem_inv_def)
  moreover have "page_addr (ucast a)" using f(1) by (intro frame_page_addr) simp
  ultimately show thesis
    using that f physmem_inv_alloc_frame [OF assms(1,2)]
    by (simp add: frame_addr_page_no [OF f(1)] same_dirs_def)
qed

lemma alloc_none:
  assumes "physmem_inv s" "physmem_alloc_frame s = (0, s')"
  shows "s' = s"
  using assms
proof (cases rule: alloc_frame_cases)
  case (frame f)
  then have "f < PHYSMEM_MAX_FRAMES" using assms(1) by (auto simp: mem_free_set physmem_inv_def)
  with frame show ?thesis using frame_addr_eq_0 [of f] by (simp only: of_nat_mult) simp
qed

section \<open>Slots and the references they hold\<close>

definition slot :: "bmem \<Rightarrow> u64 \<times> nat \<Rightarrow> u64" where
  "slot m x = entry m (fst x) (snd x)"

definition frame_of :: "u64 \<Rightarrow> nat" where
  "frame_of e = page_no (e AND PG_ADDR_MASK)"

definition refs :: "bmem \<Rightarrow> (u64 \<times> nat) set \<Rightarrow> nat \<Rightarrow> (u64 \<times> nat) set" where
  "refs m S f = {x \<in> S. has (slot m x) PG_PRESENT \<and> frame_of (slot m x) = f}"

definition table_frame :: "'a paging_st_scheme \<Rightarrow> u64 \<Rightarrow> bool" where
  "table_frame s t \<longleftrightarrow> page_addr t \<and> 256 \<le> page_no t \<and> page_no t < total_frames s \<and> frame_refcount s (page_no t) = 1"

definition slot_inv :: "'a paging_st_scheme \<Rightarrow> u64 set \<Rightarrow> (u64 \<times> nat) set \<Rightarrow> bool" where
  "slot_inv s K S \<longleftrightarrow>
     physmem_inv s \<and> finite S \<and> (\<forall>x \<in> S. fst x \<in> K \<and> snd x < 512) \<and> (\<forall>t \<in> K. table_frame s t) \<and>
     (\<forall>x \<in> S. has (slot (mem s) x) PG_PRESENT \<longrightarrow>
        256 \<le> frame_of (slot (mem s) x) \<and> frame_of (slot (mem s) x) < total_frames s \<and>
        frame_of (slot (mem s) x) \<notin> page_no ` K) \<and>
     (\<forall>f. card (refs (mem s) S f) \<le> unat (frame_refcount s f)) \<and>
     (\<forall>x \<in> S. has (slot (mem s) x) PG_PRESENT \<longrightarrow> has (slot (mem s) x) PG_WRITABLE \<longrightarrow>
        refs (mem s) S (frame_of (slot (mem s) x)) = {x})"

text \<open>The bytes that a program sees through a slot.\<close>

definition seen :: "bmem \<Rightarrow> u64 \<times> nat \<Rightarrow> nat \<Rightarrow> u8 option" where
  "seen m x off =
     (let e = slot m x in if has e PG_PRESENT then Some (m ((e AND PG_ADDR_MASK) + of_nat off)) else None)"

lemma slot_invD:
  assumes "slot_inv s K S"
  shows "physmem_inv s" "finite S" "\<And>x. x \<in> S \<Longrightarrow> fst x \<in> K" "\<And>x. x \<in> S \<Longrightarrow> snd x < 512"
    "\<And>t. t \<in> K \<Longrightarrow> table_frame s t"
    "\<And>x. x \<in> S \<Longrightarrow> has (slot (mem s) x) PG_PRESENT \<Longrightarrow> 256 \<le> frame_of (slot (mem s) x)"
    "\<And>x. x \<in> S \<Longrightarrow> has (slot (mem s) x) PG_PRESENT \<Longrightarrow> frame_of (slot (mem s) x) < total_frames s"
    "\<And>x. x \<in> S \<Longrightarrow> has (slot (mem s) x) PG_PRESENT \<Longrightarrow> frame_of (slot (mem s) x) \<notin> page_no ` K"
    "\<And>f. card (refs (mem s) S f) \<le> unat (frame_refcount s f)"
    "\<And>x. x \<in> S \<Longrightarrow> has (slot (mem s) x) PG_PRESENT \<Longrightarrow> has (slot (mem s) x) PG_WRITABLE \<Longrightarrow>
        refs (mem s) S (frame_of (slot (mem s) x)) = {x}"
  using assms by (auto simp: slot_inv_def)

lemma refs_finite: "finite S \<Longrightarrow> finite (refs m S f)"
  by (simp add: refs_def)

lemma table_frameD:
  "table_frame s t \<Longrightarrow> page_addr t" "table_frame s t \<Longrightarrow> paged t" "table_frame s t \<Longrightarrow> 256 \<le> page_no t"
  "table_frame s t \<Longrightarrow> page_no t < total_frames s" "table_frame s t \<Longrightarrow> frame_refcount s (page_no t) = 1"
  by (auto simp: table_frame_def page_addr_paged)

lemma refs_count_pos:
  assumes "slot_inv s K S" "x \<in> S" "has (slot (mem s) x) PG_PRESENT"
  shows "frame_refcount s (frame_of (slot (mem s) x)) \<noteq> 0"
proof
  assume "frame_refcount s (frame_of (slot (mem s) x)) = 0"
  then have "card (refs (mem s) S (frame_of (slot (mem s) x))) = 0"
    using slot_invD(9) [OF assms(1), of "frame_of (slot (mem s) x)"] by simp
  moreover have "x \<in> refs (mem s) S (frame_of (slot (mem s) x))" using assms(2,3) by (simp add: refs_def)
  ultimately show False using refs_finite [OF slot_invD(2) [OF assms(1)]] by auto
qed

text \<open>The invariant depends on the memory only through the slots.\<close>

lemma slot_inv_cong:
  assumes "slot_inv s K S" "physmem_inv s'" "total_frames s' = total_frames s" "frame_refcount s' = frame_refcount s"
    "\<And>x. x \<in> S \<Longrightarrow> slot (mem s') x = slot (mem s) x"
  shows "slot_inv s' K S"
proof -
  have "refs (mem s') S f = refs (mem s) S f" for f using assms(5) by (auto simp: refs_def)
  then show ?thesis using assms by (simp add: slot_inv_def table_frame_def)
qed

text \<open>A fresh frame becomes a table.\<close>

lemma slot_inv_new_table:
  assumes inv: "slot_inv s K S" and al: "physmem_alloc_frame s = (a, s')" "a \<noteq> 0"
  shows "slot_inv s' (insert (ucast a) K) S" "ucast a \<notin> K" "page_no (ucast a) \<notin> page_no ` K"
    "\<And>x. x \<in> S \<Longrightarrow> has (slot (mem s) x) PG_PRESENT \<Longrightarrow> frame_of (slot (mem s) x) \<noteq> page_no (ucast a)"
proof -
  from slot_invD(1) [OF inv] al have fr: "page_addr (ucast a)" "256 \<le> page_no (ucast a)" "page_no (ucast a) < total_frames s"
    "frame_refcount s (page_no (ucast a)) = 0" "frame_refcount s' = (frame_refcount s)(page_no (ucast a) := 1)"
    "physmem_inv s'" "mem s' = mem s" "same_dirs s' s"
    by (rule alloc_fresh; blast)+
  show K: "page_no (ucast a) \<notin> page_no ` K"
    using table_frameD(5) [OF slot_invD(5) [OF inv]] fr(4) by auto
  then show "ucast a \<notin> K" by blast
  show new: "frame_of (slot (mem s) x) \<noteq> page_no (ucast a)" if "x \<in> S" "has (slot (mem s) x) PG_PRESENT" for x
    using refs_count_pos [OF inv that] fr(4) by auto
  have "card (refs (mem s) S f) \<le> unat (frame_refcount s' f)" for f
    using slot_invD(9) [OF inv, of f] fr(4,5) by auto
  moreover have "table_frame s' t" if "t \<in> insert (ucast a) K" for t
    using that fr K slot_invD(5) [OF inv, of t] by (auto simp: table_frame_def same_dirs_def)
  ultimately show "slot_inv s' (insert (ucast a) K) S"
    using inv new fr(6-8) unfolding slot_inv_def by (auto simp: same_dirs_def)
qed

section \<open>Sharing one page\<close>

lemma slot_put:
  assumes "paged t" "i < 512" "paged (fst x)" "snd x < 512"
  shows "slot (mem (put_entry t i v s)) x = (if x = (t, i) then v else slot (mem s) x)"
  using assms by (cases x) (simp add: slot_def)

lemma slot_inv_paged: "slot_inv s K S \<Longrightarrow> t \<in> K \<Longrightarrow> paged t"
  by (auto dest!: slot_invD(5) table_frameD(2))

lemma slot_inv_slot_put:
  assumes "slot_inv s K S" "t \<in> K" "i < 512" "x \<in> S"
  shows "slot (mem (put_entry t i v s)) x = (if x = (t, i) then v else slot (mem s) x)"
  using slot_inv_paged [OF assms(1)] assms slot_invD(3,4) [OF assms(1) assms(4)] by (intro slot_put) auto

lemma mem_put_outside:
  "slot_inv s K S \<Longrightarrow> t \<in> K \<Longrightarrow> i < 512 \<Longrightarrow> page_no a \<notin> page_no ` K \<Longrightarrow> mem (put_entry t i v s) a = mem s a"
  by (intro mem_put_other) (auto dest!: slot_invD(5) table_frameD(2))

text \<open>A slot with no reference joins.\<close>

lemma refs_insert:
  "refs m (insert y S) f =
     (if has (slot m y) PG_PRESENT \<and> frame_of (slot m y) = f then insert y (refs m S f) else refs m S f)"
  by (auto simp: refs_def)

lemma slot_inv_insert_absent:
  assumes "slot_inv s K S" "fst y \<in> K" "snd y < 512" "\<not> has (slot (mem s) y) PG_PRESENT"
  shows "slot_inv s K (insert y S)"
  using assms by (auto simp: slot_inv_def refs_insert)

text \<open>A present slot is shared: it and a new slot refer to the frame, neither writable, and the
  count goes up.\<close>

lemma slot_inv_share:
  assumes inv: "slot_inv s K S" and x: "x \<in> S" "has (slot (mem s) x) PG_PRESENT"
    and y: "y \<notin> S" "fst y \<in> K" "snd y < 512"
    and s': "physmem_inv s'" "total_frames s' = total_frames s"
      "\<And>f. unat (frame_refcount s' f) = unat (frame_refcount s f) + (if f = frame_of (slot (mem s) x) then 1 else 0)"
      "\<And>z. z \<in> insert y S \<Longrightarrow> slot (mem s') z =
         (if z = x \<or> z = y then (slot (mem s) x AND PG_ADDR_MASK) OR cow_flags else slot (mem s) z)"
  shows "slot_inv s' K (insert y S)"
proof -
  let ?f = "frame_of (slot (mem s) x)"
  have xy: "slot (mem s') x = (slot (mem s) x AND PG_ADDR_MASK) OR cow_flags"
    "slot (mem s') y = (slot (mem s) x AND PG_ADDR_MASK) OR cow_flags"
    using s'(4) x(1) by auto
  have fr: "frame_of (slot (mem s') x) = ?f" "frame_of (slot (mem s') y) = ?f" by (simp_all add: xy frame_of_def)
  have keep: "has (slot (mem s') z) PG_PRESENT = has (slot (mem s) z) PG_PRESENT \<and>
      frame_of (slot (mem s') z) = frame_of (slot (mem s) z)" if "z \<in> S" for z
    using that s'(4) [of z] x y fr xy by (cases "z = x") auto
  have "refs (mem s') S f = refs (mem s) S f" for f using keep by (auto simp: refs_def)
  then have refs: "refs (mem s') (insert y S) f = (if f = ?f then insert y (refs (mem s) S f) else refs (mem s) S f)" for f
    using fr xy by (auto simp: refs_insert)
  have fin: "finite (refs (mem s) S f)" for f using slot_invD(2) [OF inv] by (rule refs_finite)
  have "card (refs (mem s') (insert y S) f) \<le> unat (frame_refcount s' f)" for f
    using slot_invD(9) [OF inv, of f] fin [of f] s'(3) [of f] by (auto simp: refs card_insert_if)
  moreover have "\<forall>t \<in> K. table_frame s' t"
  proof
    fix t assume "t \<in> K"
    then have t: "table_frame s t" "page_no t \<noteq> ?f"
      using slot_invD(5) [OF inv] slot_invD(8) [OF inv x] by (blast, metis image_eqI)
    then have "frame_refcount s' (page_no t) = frame_refcount s (page_no t)"
      using s'(3) [of "page_no t"] by (simp add: word_unat_eq_iff)
    then show "table_frame s' t" using t(1) s'(2) by (simp add: table_frame_def)
  qed
  moreover have "refs (mem s') (insert y S) (frame_of (slot (mem s') z)) = {z}"
    if z: "z \<in> insert y S" "has (slot (mem s') z) PG_PRESENT" "has (slot (mem s') z) PG_WRITABLE" for z
  proof -
    have "z \<noteq> x" "z \<noteq> y" using z(3) xy by auto
    then have "z \<in> S" "slot (mem s') z = slot (mem s) z" using z(1) s'(4) by auto
    with z have one: "refs (mem s) S (frame_of (slot (mem s) z)) = {z}" using slot_invD(10) [OF inv] by simp
    have "x \<in> refs (mem s) S ?f" using x by (simp add: refs_def)
    with one \<open>z \<noteq> x\<close> have "frame_of (slot (mem s) z) \<noteq> ?f" by auto
    with one refs \<open>slot (mem s') z = slot (mem s) z\<close> show ?thesis by simp
  qed
  ultimately show ?thesis
    using inv s'(1,2) y keep fr slot_invD(6-8) [OF inv x] unfolding slot_inv_def by (auto simp: xy)
qed

definition window :: "nat \<Rightarrow> bool" where
  "window p \<longleftrightarrow> 1006 \<le> p \<and> p < 1022"

lemma user_va_unat: "p < 1024 \<Longrightarrow> unat (user_va p) = 16777216 + 4096 * p"
  by (simp add: user_va_def PAGING_USER_BASE_def PAGING_PAGE_SIZE_def unat_word_ariths unat_of_nat_small)

lemma user_va_window:
  "p < 1024 \<Longrightarrow> user_va p \<ge> PAGING_USER_SHM_BASE \<and> user_va p < PAGING_USER_STACK_GUARD_BASE \<longleftrightarrow> window p"
  by (simp add: word_le_nat_alt word_less_nat_alt user_va_unat window_def PAGING_USER_SHM_BASE_def PAGING_USER_SHM_SIZE_def
      PAGING_USER_STACK_GUARD_BASE_def PAGING_USER_BASE_def PAGING_USER_SIZE_def PAGING_USER_STACK_SIZE_def
      PAGING_PAGE_SIZE_def)

text \<open>What a child gets of an entry, and what stays with the parent.\<close>

definition shares :: "nat \<Rightarrow> u64 \<Rightarrow> bool" where
  "shares p e \<longleftrightarrow> has e PG_PRESENT \<and> \<not> window p"

definition cow_parent :: "nat \<Rightarrow> u64 \<Rightarrow> u64" where
  "cow_parent p e = (if shares p e then (e AND PG_ADDR_MASK) OR cow_flags else e)"

definition cow_child :: "nat \<Rightarrow> u64 \<Rightarrow> u64" where
  "cow_child p e = (if shares p e then (e AND PG_ADDR_MASK) OR cow_flags else 0)"

section \<open>The loop over a table\<close>

lemma ref_frame_counts:
  assumes "page_addr a" "256 \<le> page_no a" "page_no a < total_frames s" "total_frames s < PHYSMEM_MAX_FRAMES"
    "frame_refcount s (page_no a) < 255"
  shows "physmem_ref_frame (ucast a) s =
    s\<lparr>frame_refcount := (frame_refcount s)(page_no a := frame_refcount s (page_no a) + 1)\<rparr>"
    "unat (frame_refcount s (page_no a) + 1) = unat (frame_refcount s (page_no a)) + 1"
proof -
  have a: "unat a = 4096 * page_no a" using page_addr_paged [OF assms(1)] by (auto simp: paged_def page_no_def)
  then have "unat a < 4294967296" using assms(3,4) by (simp add: PHYSMEM_MAX_FRAMES_def)
  then have u: "unat (ucast a :: u32) = unat a"
    by (simp add: unsigned_ucast_eq take_bit_nat_eq_self)
  then have "(ucast a :: u32) \<noteq> 0" using a assms(2) by (auto simp: word_unat_eq_iff)
  then show "physmem_ref_frame (ucast a) s =
    s\<lparr>frame_refcount := (frame_refcount s)(page_no a := frame_refcount s (page_no a) + 1)\<rparr>"
    using u a assms(3,5) by (simp add: physmem_ref_frame_def Let_def)
  show "unat (frame_refcount s (page_no a) + 1) = unat (frame_refcount s (page_no a)) + 1"
    using assms(5) by (simp add: unat_word_ariths word_less_nat_alt)
qed

lemma invalidate_fields [simp]:
  "mem (paging_invalidate_page va s) = mem s" "frame_refcount (paging_invalidate_page va s) = frame_refcount s"
  "total_frames (paging_invalidate_page va s) = total_frames s" "physmem_inv (paging_invalidate_page va s) = physmem_inv s"
  "current_pml4 (paging_invalidate_page va s) = current_pml4 s" "kernel_pml4 (paging_invalidate_page va s) = kernel_pml4 s"
  "kernel_pdpt (paging_invalidate_page va s) = kernel_pdpt s" "kernel_pd0 (paging_invalidate_page va s) = kernel_pd0 s"
  by (simp_all add: paging_invalidate_page_def physmem_inv_def free_set_def frame_is_marked_def)

lemma physmem_inv_put [simp]: "physmem_inv (put_entry t i v s) = physmem_inv s"
  by (simp add: physmem_inv_def free_set_def frame_is_marked_def)

lemma cow_share_page_eq:
  assumes "p < 512" "ti < 2"
  shows "cow_share_page d ppt cpt ti p s =
    (let e = entry (mem s) ppt p in
     if shares (ti * 512 + p) e
     then let a = e AND PG_ADDR_MASK;
              s' = physmem_ref_frame (ucast a) (put_entry cpt p (a OR cow_flags) (put_entry ppt p (a OR cow_flags) s))
          in if current_pml4 s' = d then paging_invalidate_page (user_va (ti * 512 + p)) s' else s'
     else put_entry cpt p 0 s)"
proof -
  have "ti * 512 + p < 1024" using assms by simp
  then show ?thesis
    unfolding cow_share_page_def ENTRIES_PER_TABLE_def flags_assoc Let_def
    by (simp add: user_va_window shares_def)
qed

text \<open>One round of the loop, from the slot \<open>(ppt, p)\<close> to the new slot \<open>(cpt, p)\<close>.\<close>

lemma cow_share_page_slots:
  fixes s :: "'a paging_st_scheme" and d cpt :: u64
  assumes p: "p < 512" "ti < 2" and pt: "paged ppt" "paged cpt" "ppt \<noteq> cpt"
  defines "e \<equiv> entry (mem s) ppt p" and "s' \<equiv> cow_share_page d ppt cpt ti p s"
  shows "\<And>z. paged (fst z) \<Longrightarrow> snd z < 512 \<Longrightarrow> slot (mem s') z =
           (if z = (ppt, p) then cow_parent (ti * 512 + p) e
            else if z = (cpt, p) then cow_child (ti * 512 + p) e else slot (mem s) z)"
    and "\<And>a. page_no a \<noteq> page_no ppt \<Longrightarrow> page_no a \<noteq> page_no cpt \<Longrightarrow> mem s' a = mem s a"
    and "same_dirs s' s"
proof -
  have e: "e = slot (mem s) (ppt, p)" by (simp add: e_def slot_def)
  show "slot (mem s') z = (if z = (ppt, p) then cow_parent (ti * 512 + p) e
            else if z = (cpt, p) then cow_child (ti * 512 + p) e else slot (mem s) z)"
    if "paged (fst z)" "snd z < 512" for z
    using that pt p unfolding s'_def cow_share_page_eq [OF p] e_def [symmetric] Let_def
    by (auto simp: slot_put cow_parent_def cow_child_def e)
  show "mem s' a = mem s a" if "page_no a \<noteq> page_no ppt" "page_no a \<noteq> page_no cpt" for a
    using that pt p unfolding s'_def cow_share_page_eq [OF p] Let_def by (simp add: mem_put_other)
  show "same_dirs s' s" unfolding s'_def cow_share_page_eq [OF p] Let_def by (simp add: same_dirs_def)
qed

lemma cow_share_page_counts:
  fixes s :: "'a paging_st_scheme" and d cpt :: u64
  assumes inv: "slot_inv s K S" and x: "(ppt, p) \<in> S" and p: "p < 512" "ti < 2"
    and lim: "shares (ti * 512 + p) (entry (mem s) ppt p) \<Longrightarrow>
                frame_refcount s (frame_of (entry (mem s) ppt p)) < 255"
  defines "e \<equiv> entry (mem s) ppt p" and "s' \<equiv> cow_share_page d ppt cpt ti p s"
  shows "physmem_inv s'"
    "\<And>f. frame_refcount s' f = frame_refcount s f + (if shares (ti * 512 + p) e \<and> f = frame_of e then 1 else 0)"
    "\<And>f. unat (frame_refcount s' f) =
       unat (frame_refcount s f) + (if shares (ti * 512 + p) e \<and> f = frame_of e then 1 else 0)"
proof -
  have "physmem_inv s' \<and> (\<forall>f. frame_refcount s' f = frame_refcount s f + (if shares (ti * 512 + p) e \<and> f = frame_of e then 1 else 0)) \<and>
     (shares (ti * 512 + p) e \<longrightarrow> unat (frame_refcount s (frame_of e) + 1) = unat (frame_refcount s (frame_of e)) + 1)"
  proof (cases "shares (ti * 512 + p) e")
    case True
    then have pr: "has (slot (mem s) (ppt, p)) PG_PRESENT" by (simp add: shares_def e_def slot_def)
    have e: "e = slot (mem s) (ppt, p)" by (simp add: e_def slot_def)
    note fr = slot_invD(6,7) [OF inv x pr, folded e]
    let ?t = "put_entry cpt p ((e AND PG_ADDR_MASK) OR cow_flags) (put_entry ppt p ((e AND PG_ADDR_MASK) OR cow_flags) s)"
    have "frame_refcount s (frame_of e) < 255" "total_frames s < PHYSMEM_MAX_FRAMES"
      using lim True slot_invD(1) [OF inv] by (simp_all add: e_def physmem_inv_def)
    note rf = ref_frame_counts [of "e AND PG_ADDR_MASK" ?t, simplified, folded frame_of_def, OF fr this(2,1)]
    have "frame_is_marked s (frame_of e)"
      using refs_count_pos [OF inv x pr] fr slot_invD(1) [OF inv] by (simp add: e physmem_inv_def)
    then have "physmem_inv (physmem_ref_frame (ucast (e AND PG_ADDR_MASK)) ?t)"
      unfolding rf(1) using physmem_inv_refcount_marked [of ?t "frame_of e"] slot_invD(1) [OF inv]
      by (simp add: frame_is_marked_def)
    moreover have "s' = (let s' = physmem_ref_frame (ucast (e AND PG_ADDR_MASK)) ?t in
        if current_pml4 s' = d then paging_invalidate_page (user_va (ti * 512 + p)) s' else s')"
      unfolding s'_def cow_share_page_eq [OF p] e_def [symmetric] Let_def using True by simp
    ultimately show ?thesis using True rf(2) by (simp add: Let_def rf(1))
  next
    case False
    then have "s' = put_entry cpt p 0 s" unfolding s'_def cow_share_page_eq [OF p] e_def [symmetric] Let_def by simp
    then show ?thesis using False slot_invD(1) [OF inv] by simp
  qed
  then show "physmem_inv s'"
    "\<And>f. frame_refcount s' f = frame_refcount s f + (if shares (ti * 512 + p) e \<and> f = frame_of e then 1 else 0)"
    "\<And>f. unat (frame_refcount s' f) =
       unat (frame_refcount s f) + (if shares (ti * 512 + p) e \<and> f = frame_of e then 1 else 0)"
    by simp_all
qed

lemma cow_share_page_inv:
  fixes s :: "'a paging_st_scheme" and d cpt :: u64
  assumes inv: "slot_inv s K S" and x: "(ppt, p) \<in> S" and y: "(cpt, p) \<notin> S" "cpt \<in> K"
    and p: "p < 512" "ti < 2"
    and lim: "shares (ti * 512 + p) (entry (mem s) ppt p) \<Longrightarrow>
                frame_refcount s (frame_of (entry (mem s) ppt p)) < 255"
  defines "s' \<equiv> cow_share_page d ppt cpt ti p s"
  shows "slot_inv s' K (insert (cpt, p) S)"
proof -
  define e where "e = entry (mem s) ppt p"
  then have e: "e = slot (mem s) (ppt, p)" by (simp add: slot_def)
  have K: "paged ppt" "paged cpt" "ppt \<noteq> cpt"
    using slot_invD(3) [OF inv x] slot_inv_paged [OF inv] x y by auto
  note sl = cow_share_page_slots [OF p K, where s = s and d = d, folded s'_def e_def]
  note cn = cow_share_page_counts [OF inv x p lim, where d = d and cpt = cpt, folded s'_def e_def]
  have inS: "slot (mem s') z = (if z = (ppt, p) then cow_parent (ti * 512 + p) e
            else if z = (cpt, p) then cow_child (ti * 512 + p) e else slot (mem s) z)" if "z \<in> insert (cpt, p) S" for z
    using that slot_invD(3,4) [OF inv] slot_inv_paged [OF inv] K(2) p(1) by (intro sl(1)) fastforce+
  show ?thesis
  proof (cases "shares (ti * 512 + p) e")
    case True
    show ?thesis
    proof (rule slot_inv_share [OF inv x])
      show "slot (mem s') z = (if z = (ppt, p) \<or> z = (cpt, p) then (slot (mem s) (ppt, p) AND PG_ADDR_MASK) OR cow_flags
          else slot (mem s) z)" if "z \<in> insert (cpt, p) S" for z
        using inS [OF that] True by (auto simp: cow_parent_def cow_child_def e)
    qed (use True cn sl(3) y p in \<open>auto simp: shares_def e same_dirs_def\<close>)
  next
    case False
    have "slot_inv s' K S"
    proof (rule slot_inv_cong [OF inv cn(1)])
      show "frame_refcount s' = frame_refcount s" using cn(2) False by (intro ext) simp
      show "slot (mem s') z = slot (mem s) z" if "z \<in> S" for z
        using inS [of z] that y(1) False by (auto simp: cow_parent_def e)
      show "total_frames s' = total_frames s" using sl(3) by (simp add: same_dirs_def)
    qed
    moreover have "\<not> has (slot (mem s') (cpt, p)) PG_PRESENT"
      using inS [of "(cpt, p)"] False K(3) by (auto simp: cow_child_def)
    ultimately show ?thesis using y p(1) by (intro slot_inv_insert_absent) auto
  qed
qed

text \<open>The whole loop. The frames shared from one table are distinct, so that each count goes up by one.\<close>

definition shared_frames :: "bmem \<Rightarrow> u64 \<Rightarrow> nat \<Rightarrow> nat \<Rightarrow> nat set" where
  "shared_frames m pt ti n = {frame_of (entry m pt i) |i. i < n \<and> shares (ti * 512 + i) (entry m pt i)}"

definition share_limit :: "'a paging_st_scheme \<Rightarrow> u64 \<Rightarrow> nat \<Rightarrow> bool" where
  "share_limit s pt ti \<longleftrightarrow>
     (\<forall>i < 512. shares (ti * 512 + i) (entry (mem s) pt i) \<longrightarrow> frame_refcount s (frame_of (entry (mem s) pt i)) < 255) \<and>
     (\<forall>i < 512. \<forall>j < 512. has (entry (mem s) pt i) PG_PRESENT \<longrightarrow> has (entry (mem s) pt j) PG_PRESENT \<longrightarrow>
        frame_of (entry (mem s) pt i) = frame_of (entry (mem s) pt j) \<longrightarrow> i = j)"

lemma shared_frames_Suc:
  "shared_frames m pt ti (Suc n) =
     (if shares (ti * 512 + n) (entry m pt n) then insert (frame_of (entry m pt n)) (shared_frames m pt ti n)
      else shared_frames m pt ti n)"
  by (auto simp: shared_frames_def less_Suc_eq)

definition shared_slot :: "bmem \<Rightarrow> u64 \<Rightarrow> u64 \<Rightarrow> nat \<Rightarrow> nat \<Rightarrow> u64 \<times> nat \<Rightarrow> u64" where
  "shared_slot m ppt cpt ti n z =
     (if fst z = ppt \<and> snd z < n then cow_parent (ti * 512 + snd z) (slot m z)
      else if fst z = cpt \<and> snd z < n then cow_child (ti * 512 + snd z) (slot m (ppt, snd z))
      else slot m z)"

lemma cow_share_loop_slots:
  fixes s :: "'a paging_st_scheme" and d :: u64
  assumes "ti < 2" "paged ppt" "paged cpt" "ppt \<noteq> cpt" "n \<le> 512"
  defines "t \<equiv> fold (cow_share_page d ppt cpt ti) [0..<n] s"
  shows "paged (fst z) \<Longrightarrow> snd z < 512 \<Longrightarrow> slot (mem t) z = shared_slot (mem s) ppt cpt ti n z"
    "page_no a \<noteq> page_no ppt \<Longrightarrow> page_no a \<noteq> page_no cpt \<Longrightarrow> mem t a = mem s a"
    "same_dirs t s"
proof -
  have "(\<forall>z. paged (fst z) \<longrightarrow> snd z < 512 \<longrightarrow> slot (mem t) z = shared_slot (mem s) ppt cpt ti n z) \<and>
     (\<forall>a. page_no a \<noteq> page_no ppt \<longrightarrow> page_no a \<noteq> page_no cpt \<longrightarrow> mem t a = mem s a) \<and> same_dirs t s"
    unfolding t_def using assms(5)
  proof (induction n)
    case (Suc n)
    define t where "t = fold (cow_share_page d ppt cpt ti) [0..<n] s"
    have n: "n < 512" using Suc.prems by simp
    note sl = cow_share_page_slots [OF n assms(1-4), where s = t and d = d]
    note ih = Suc.IH [folded t_def, OF less_imp_le [OF n]]
    have IH: "slot (mem t) z = shared_slot (mem s) ppt cpt ti n z" if "paged (fst z)" "snd z < 512" for z
      using ih that by blast
    have e: "entry (mem t) ppt n = slot (mem s) (ppt, n)"
      using IH [of "(ppt, n)"] n assms(2) by (simp add: slot_def shared_slot_def)
    have "slot (mem (cow_share_page d ppt cpt ti n t)) z = shared_slot (mem s) ppt cpt ti (Suc n) z"
      if "paged (fst z)" "snd z < 512" for z
      unfolding sl(1) [OF that] IH [OF that] e shared_slot_def using assms(4) by (cases z) (auto simp: less_Suc_eq)
    moreover have "mem (cow_share_page d ppt cpt ti n t) a = mem s a"
      if "page_no a \<noteq> page_no ppt" "page_no a \<noteq> page_no cpt" for a
      using sl(2) [OF that] ih that by simp
    moreover have "same_dirs (cow_share_page d ppt cpt ti n t) s"
      using same_dirs_trans [OF sl(3)] ih by blast
    moreover have "fold (cow_share_page d ppt cpt ti) [0..<Suc n] s = cow_share_page d ppt cpt ti n t"
      by (simp add: t_def)
    ultimately show ?case by (simp only:) blast
  qed (simp add: shared_slot_def)
  then show "paged (fst z) \<Longrightarrow> snd z < 512 \<Longrightarrow> slot (mem t) z = shared_slot (mem s) ppt cpt ti n z"
    "page_no a \<noteq> page_no ppt \<Longrightarrow> page_no a \<noteq> page_no cpt \<Longrightarrow> mem t a = mem s a" "same_dirs t s"
    by blast+
qed

lemma cow_share_loop_inv:
  fixes s :: "'a paging_st_scheme" and d :: u64
  assumes inv: "slot_inv s K S" and x: "\<And>i. i < 512 \<Longrightarrow> (ppt, i) \<in> S" and y: "\<And>i. (cpt, i) \<notin> S" "cpt \<in> K"
    and ti: "ti < 2" and lim: "share_limit s ppt ti" and n: "n \<le> 512"
  defines "t \<equiv> fold (cow_share_page d ppt cpt ti) [0..<n] s"
  shows "slot_inv t K (S \<union> {cpt} \<times> {0..<n})"
    "\<And>f. unat (frame_refcount t f) = unat (frame_refcount s f) + (if f \<in> shared_frames (mem s) ppt ti n then 1 else 0)"
proof -
  have K: "paged ppt" "paged cpt" "ppt \<noteq> cpt"
    using slot_invD(3) [OF inv x [of 0]] slot_inv_paged [OF inv] x [of 0] y by auto
  have "slot_inv t K (S \<union> {cpt} \<times> {0..<n}) \<and>
    (\<forall>f. unat (frame_refcount t f) = unat (frame_refcount s f) + (if f \<in> shared_frames (mem s) ppt ti n then 1 else 0))"
    using n unfolding t_def
  proof (induction n)
    case (Suc n)
    define t where "t = fold (cow_share_page d ppt cpt ti) [0..<n] s"
    have n: "n < 512" "n \<le> 512" using Suc.prems by simp_all
    have IH: "slot_inv t K (S \<union> {cpt} \<times> {0..<n})"
      "unat (frame_refcount t f) = unat (frame_refcount s f) + (if f \<in> shared_frames (mem s) ppt ti n then 1 else 0)" for f
      using Suc.IH n unfolding t_def by auto
    have en: "entry (mem t) ppt n = entry (mem s) ppt n"
      using cow_share_loop_slots(1) [OF ti K n(2), of "(ppt, n)" d s] n K(1)
      by (simp add: slot_def t_def shared_slot_def)
    let ?e = "entry (mem s) ppt n"
    have new: "shares (ti * 512 + n) ?e \<Longrightarrow> frame_of ?e \<notin> shared_frames (mem s) ppt ti n"
    proof
      assume "shares (ti * 512 + n) ?e" "frame_of ?e \<in> shared_frames (mem s) ppt ti n"
      then obtain i where "i < n" "has (entry (mem s) ppt i) PG_PRESENT" "has ?e PG_PRESENT"
        "frame_of ?e = frame_of (entry (mem s) ppt i)" by (auto simp: shared_frames_def shares_def)
      moreover have "i < 512" using \<open>i < n\<close> n(1) by simp
      ultimately have "n = i" using lim n(1) unfolding share_limit_def by blast
      with \<open>i < n\<close> show False by simp
    qed
    have "shares (ti * 512 + n) ?e \<Longrightarrow> frame_refcount t (frame_of ?e) < 255"
      using lim n(1) new IH(2) [of "frame_of ?e"] by (auto simp: share_limit_def word_less_nat_alt)
    then have lim': "shares (ti * 512 + n) (entry (mem t) ppt n) \<Longrightarrow> frame_refcount t (frame_of (entry (mem t) ppt n)) < 255"
      by (simp add: en)
    have xy: "(ppt, n) \<in> S \<union> {cpt} \<times> {0..<n}" "(cpt, n) \<notin> S \<union> {cpt} \<times> {0..<n}" using x n(1) y(1) by auto
    have "insert (cpt, n) (S \<union> {cpt} \<times> {0..<n}) = S \<union> {cpt} \<times> {0..<Suc n}" by auto
    then have "slot_inv (cow_share_page d ppt cpt ti n t) K (S \<union> {cpt} \<times> {0..<Suc n})"
      using cow_share_page_inv [OF IH(1) xy y(2) n(1) ti lim', of d] by simp
    moreover have "unat (frame_refcount (cow_share_page d ppt cpt ti n t) f) =
        unat (frame_refcount s f) + (if f \<in> shared_frames (mem s) ppt ti (Suc n) then 1 else 0)" for f
      using cow_share_page_counts(3) [OF IH(1) xy(1) n(1) ti lim', of d cpt f] IH(2) [of f] new
      by (auto simp: en shared_frames_Suc)
    ultimately show ?case by (simp add: t_def)
  qed (simp add: inv shared_frames_def)
  then show "slot_inv t K (S \<union> {cpt} \<times> {0..<n})"
    "\<And>f. unat (frame_refcount t f) = unat (frame_refcount s f) + (if f \<in> shared_frames (mem s) ppt ti n then 1 else 0)"
    by auto
qed

section \<open>Loops over a table\<close>

definition only_mem :: "'a paging_st_scheme \<Rightarrow> 'a paging_st_scheme \<Rightarrow> bool" where
  "only_mem t s \<longleftrightarrow> (\<exists>m. t = s\<lparr>mem := m\<rparr>)"

lemma only_mem_refl [simp]: "only_mem s s"
  unfolding only_mem_def by (rule exI [of _ "mem s"]) simp

lemma only_mem_trans [trans]: "only_mem u t \<Longrightarrow> only_mem t s \<Longrightarrow> only_mem u s"
  by (auto simp: only_mem_def)

lemma only_mem_put [simp]: "only_mem (put_entry t i v s) s"
  unfolding only_mem_def put_entry_def by blast

lemma only_memD:
  "only_mem t s \<Longrightarrow> same_dirs t s" "only_mem t s \<Longrightarrow> frame_refcount t = frame_refcount s"
  "only_mem t s \<Longrightarrow> total_frames t = total_frames s" "only_mem t s \<Longrightarrow> tlb t = tlb s"
  "only_mem t s \<Longrightarrow> physmem_inv t = physmem_inv s"
  by (auto simp: only_mem_def same_dirs_def physmem_inv_def free_set_def frame_is_marked_def)

lemma fold_put_entries:
  fixes v :: "nat \<Rightarrow> u64" and s :: "'a paging_st_scheme"
  assumes "paged t" "n \<le> 512"
  defines "r \<equiv> fold (\<lambda>i. put_entry t i (v i)) [0..<n] :: 'a paging_st_scheme \<Rightarrow> 'a paging_st_scheme"
  shows "paged t' \<Longrightarrow> i < 512 \<Longrightarrow> entry (mem (r s)) t' i = (if t' = t \<and> i < n then v i else entry (mem s) t' i)"
    "page_no a \<noteq> page_no t \<Longrightarrow> mem (r s) a = mem s a"
    "only_mem (r s) s"
proof -
  have "(\<forall>t' i. paged t' \<longrightarrow> i < 512 \<longrightarrow>
           entry (mem (r s)) t' i = (if t' = t \<and> i < n then v i else entry (mem s) t' i)) \<and>
        (\<forall>a. page_no a \<noteq> page_no t \<longrightarrow> mem (r s) a = mem s a) \<and> only_mem (r s) s"
    unfolding r_def using assms(2)
  proof (induction n)
    case (Suc n)
    then show ?case using assms(1) by (auto simp: mem_put_other less_Suc_eq intro: only_mem_trans only_mem_put)
  qed simp
  then show "paged t' \<Longrightarrow> i < 512 \<Longrightarrow> entry (mem (r s)) t' i = (if t' = t \<and> i < n then v i else entry (mem s) t' i)"
    "page_no a \<noteq> page_no t \<Longrightarrow> mem (r s) a = mem s a" "only_mem (r s) s"
    by blast+
qed

text \<open>The source of a copy is another page, so that the values do not change under the loop.\<close>

lemma copy_table_fold:
  assumes "paged dst" "paged src" "dst \<noteq> src"
  shows "copy_table dst src s = fold (\<lambda>i. put_entry dst i (entry (mem s) src i)) [0..<512] s"
proof -
  have "n \<le> 512 \<Longrightarrow> fold (\<lambda>i s. put_entry dst i (entry (mem s) src i) s) [0..<n] s =
      fold (\<lambda>i. put_entry dst i (entry (mem s) src i)) [0..<n] s" for n
    by (induction n) (use assms in \<open>simp_all add: fold_put_entries(1)\<close>)
  then show ?thesis by (simp add: copy_table_def ENTRIES_PER_TABLE_def)
qed

lemma copy_table_spec:
  assumes "paged dst" "paged src" "dst \<noteq> src"
  shows "paged t \<Longrightarrow> i < 512 \<Longrightarrow> entry (mem (copy_table dst src s)) t i = (if t = dst then entry (mem s) src i else entry (mem s) t i)"
    "page_no a \<noteq> page_no dst \<Longrightarrow> mem (copy_table dst src s) a = mem s a"
    "only_mem (copy_table dst src s) s"
  unfolding copy_table_fold [OF assms]
  by (simp_all add: fold_put_entries(1,2) [OF assms(1)] fold_put_entries(3) [OF assms(1) order_refl])

lemma clear_table_spec:
  assumes "paged dst"
  shows "paged t \<Longrightarrow> i < 512 \<Longrightarrow> entry (mem (clear_table dst s)) t i = (if t = dst then 0 else entry (mem s) t i)"
    "page_no a \<noteq> page_no dst \<Longrightarrow> mem (clear_table dst s) a = mem s a"
    "only_mem (clear_table dst s) s"
  unfolding clear_table_def ENTRIES_PER_TABLE_def
  by (simp_all add: fold_put_entries(1,2) [OF assms] fold_put_entries(3) [OF assms order_refl])

lemma copy_frame_is_copy_table: "copy_frame src dst s = copy_table dst src s"
  by (simp add: copy_frame_def copy_table_def ENTRIES_PER_TABLE_def PAGING_PAGE_SIZE_def)

text \<open>A byte of a page is part of an entry.\<close>

lemma byte_of_entry:
  assumes "o1 < 4096"
  shows "m (t + of_nat o1) = ucast (drop_bit (8 * (o1 mod 8)) (entry m t (o1 div 8)))"
proof (rule bit_eqI)
  fix n assume "possible_bit TYPE(u8) n"
  then have n: "n < 8" by simp
  have "(8 * (o1 mod 8) + n) div 8 = o1 mod 8" "(8 * (o1 mod 8) + n) mod 8 = n" using n by simp_all
  moreover have "8 * (o1 mod 8) + n < 64" using n mod_less_divisor [of 8 o1] by linarith
  moreover have "t + 8 * of_nat (o1 div 8) + of_nat (o1 mod 8) = t + of_nat o1"
  proof -
    have "8 * of_nat (o1 div 8) + of_nat (o1 mod 8) = (of_nat (8 * (o1 div 8) + o1 mod 8) :: u64)"
      by (simp only: of_nat_add of_nat_mult) simp
    then show ?thesis by (simp only: add.assoc) simp
  qed
  ultimately show "bit (m (t + of_nat o1)) n = bit (ucast (drop_bit (8 * (o1 mod 8)) (entry m t (o1 div 8))) :: u8) n"
    using n unfolding bit_ucast_iff bit_drop_bit_eq entry_def comp_apply bit_load64 by (simp only:) simp
qed

lemma copy_table_bytes:
  assumes "paged dst" "paged src" "dst \<noteq> src" "off < 4096"
  shows "mem (copy_table dst src s) (dst + of_nat off) = mem s (src + of_nat off)"
proof -
  have "off div 8 < 512" using assms(4) by simp
  then show ?thesis
    unfolding byte_of_entry [OF assms(4), of _ dst] byte_of_entry [OF assms(4), of _ src]
    by (simp add: copy_table_spec(1) [OF assms(1-3) assms(1)])
qed

section \<open>Giving references and tables back\<close>

lemma refs_mono: "S' \<subseteq> S \<Longrightarrow> refs m S' f \<subseteq> refs m S f"
  by (auto simp: refs_def)

lemma slot_inv_subset:
  assumes inv: "slot_inv s K S" and sub: "S' \<subseteq> S" "K' \<subseteq> K" "\<And>x. x \<in> S' \<Longrightarrow> fst x \<in> K'"
  shows "slot_inv s K' S'"
proof -
  have "card (refs (mem s) S' f) \<le> unat (frame_refcount s f)" for f
    using card_mono [OF refs_finite [OF slot_invD(2) [OF inv]] refs_mono [OF sub(1)], of "mem s" f]
      slot_invD(9) [OF inv, of f] by linarith
  moreover have "refs (mem s) S' (frame_of (slot (mem s) x)) = {x}"
    if "x \<in> S'" "has (slot (mem s) x) PG_PRESENT" "has (slot (mem s) x) PG_WRITABLE" for x
    using slot_invD(10) [OF inv, of x] that sub(1) by (auto simp: refs_def)
  ultimately show ?thesis
    using inv sub finite_subset [OF sub(1)] unfolding slot_inv_def by (auto 0 3)
qed

lemma ucast_page:
  assumes "page_addr a" "page_no a < total_frames s" "physmem_inv s"
  shows "unat (ucast a :: u32) = page_no a * 4096" "(ucast (ucast a :: u32) :: u64) = a"
proof -
  have a: "unat a = page_no a * 4096" using page_addr_paged [OF assms(1)] by (auto simp: paged_def page_no_def)
  have "total_frames s < PHYSMEM_MAX_FRAMES" using assms(3) by (simp add: physmem_inv_def)
  then have lt: "unat a < 4294967296" using a assms(2) by (simp add: PHYSMEM_MAX_FRAMES_def)
  then show "unat (ucast a :: u32) = page_no a * 4096"
    using a by (simp add: unsigned_ucast_eq take_bit_nat_eq_self)
  show "(ucast (ucast a :: u32) :: u64) = a" using lt by (rule ucast_down_up)
qed

lemma free_frame_page:
  assumes "page_addr a" "256 \<le> page_no a" "page_no a < total_frames s" "physmem_inv s"
  shows "physmem_free_frame (ucast a) s =
    mark_frame (page_no a) False (s\<lparr>frame_refcount := (frame_refcount s)(page_no a := 0)\<rparr>)"
proof -
  note u = ucast_page(1) [OF assms(1,3,4)]
  then have "(ucast a :: u32) \<noteq> 0" using assms(2) by auto
  with u assms(2) show ?thesis by (simp add: physmem_free_frame_def Let_def)
qed

lemma free_frame_refcount:
  assumes "page_addr a" "256 \<le> page_no a" "page_no a < total_frames s" "physmem_inv s"
  shows "frame_refcount (physmem_free_frame (ucast a) s) = (frame_refcount s)(page_no a := 0)"
  by (simp add: free_frame_page [OF assms])

lemma slot_inv_free_table:
  assumes inv: "slot_inv s K S" and t: "t \<in> K" "\<And>x. x \<in> S \<Longrightarrow> fst x \<noteq> t"
  shows "slot_inv (physmem_free_frame (ucast t) s) (K - {t}) S"
    "frame_refcount (physmem_free_frame (ucast t) s) = (frame_refcount s)(page_no t := 0)"
proof -
  note tf = slot_invD(5) [OF inv t(1)]
  show rc: "frame_refcount (physmem_free_frame (ucast t) s) = (frame_refcount s)(page_no t := 0)"
    using table_frameD [OF tf] slot_invD(1) [OF inv] by (intro free_frame_refcount)
  have sub: "slot_inv s (K - {t}) S"
    using inv by (rule slot_inv_subset) (use slot_invD(3) [OF inv] t(2) in auto)
  have other: "page_no u \<noteq> page_no t" if "u \<in> K - {t}" for u
    using that paged_eq [of u t] slot_inv_paged [OF inv] t(1) by auto
  have "table_frame (physmem_free_frame (ucast t) s) u" if "u \<in> K - {t}" for u
    using slot_invD(5) [OF sub that] other [OF that] by (simp add: table_frame_def rc)
  moreover have "refs (mem s) S (page_no t) = {}"
    using slot_invD(8) [OF inv] t(1) by (auto simp: refs_def image_iff)
  then have "card (refs (mem s) S f) \<le> unat (frame_refcount (physmem_free_frame (ucast t) s) f)" for f
    using slot_invD(9) [OF inv, of f] by (simp add: rc)
  ultimately show "slot_inv (physmem_free_frame (ucast t) s) (K - {t}) S"
    using sub physmem_inv_free_frame [OF slot_invD(1) [OF inv], of "ucast t"] unfolding slot_inv_def by simp
qed

lemma unref_frame_page:
  assumes "page_addr a" "256 \<le> page_no a" "page_no a < total_frames s" "physmem_inv s"
    "frame_refcount s (page_no a) \<noteq> 0"
  shows "frame_refcount (physmem_unref_frame (ucast a) s) =
           (frame_refcount s)(page_no a := frame_refcount s (page_no a) - 1)"
    "unat (frame_refcount s (page_no a) - 1) = unat (frame_refcount s (page_no a)) - 1"
proof -
  show "frame_refcount (physmem_unref_frame (ucast a) s) =
           (frame_refcount s)(page_no a := frame_refcount s (page_no a) - 1)"
    using unref_frame_step [OF ucast_page(1) [OF assms(1,3,4)] assms(2,3,5)] by (simp add: Let_def)
  show "unat (frame_refcount s (page_no a) - 1) = unat (frame_refcount s (page_no a)) - 1"
    using assms(5) by (simp add: unat_minus_one)
qed

text \<open>A slot drops its reference; its entry becomes \<open>v\<close>, absent or a fresh frame.\<close>

lemma slot_inv_drop:
  assumes inv: "slot_inv s K S" and x: "x \<in> S" "has (slot (mem s) x) PG_PRESENT"
    and s': "physmem_inv s'" "total_frames s' = total_frames s"
      "frame_refcount s' = (frame_refcount s)(frame_of (slot (mem s) x) := frame_refcount s (frame_of (slot (mem s) x)) - 1)"
      "\<And>z. z \<in> S \<Longrightarrow> slot (mem s') z = (if z = x then 0 else slot (mem s) z)"
  shows "slot_inv s' K S"
proof -
  let ?f = "frame_of (slot (mem s) x)"
  have pos: "frame_refcount s ?f \<noteq> 0" using inv x by (rule refs_count_pos)
  have xr: "x \<in> refs (mem s) S ?f" using x by (simp add: refs_def)
  have refs: "refs (mem s') S f = refs (mem s) S f - {x}" for f
    using s'(4) by (auto simp: refs_def split: if_splits)
  have fin: "finite (refs (mem s) S f)" for f using slot_invD(2) [OF inv] by (rule refs_finite)
  have "card (refs (mem s') S f) \<le> unat (frame_refcount s' f)" for f
  proof (cases "f = ?f")
    case True
    then have "card (refs (mem s') S f) = card (refs (mem s) S ?f) - 1" using xr fin by (simp add: refs)
    then show ?thesis using True slot_invD(9) [OF inv, of ?f] pos by (simp add: s'(3) unat_minus_one)
  next
    case False
    then show ?thesis
      using slot_invD(9) [OF inv, of f] card_mono [OF fin, of "refs (mem s) S f - {x}" f]
      by (auto simp: refs s'(3) intro: order_trans)
  qed
  moreover have "table_frame s' t" if "t \<in> K" for t
    using slot_invD(5) [OF inv that] slot_invD(8) [OF inv x] that s'(2,3) by (auto simp: table_frame_def image_iff)
  moreover have "refs (mem s') S (frame_of (slot (mem s') z)) = {z}"
    if "z \<in> S" "has (slot (mem s') z) PG_PRESENT" "has (slot (mem s') z) PG_WRITABLE" for z
    using slot_invD(10) [OF inv, of z] that s'(4) [of z] refs by (auto split: if_splits)
  ultimately show ?thesis
    using inv s' unfolding slot_inv_def by (auto split: if_splits)
qed

lemma release_page_inv:
  assumes inv: "slot_inv s K S" and x: "(t, i) \<in> S"
  shows "slot_inv (release_page t i s) K S"
    "paged u \<Longrightarrow> j < 512 \<Longrightarrow> entry (mem (release_page t i s)) u j =
       (if u = t \<and> j = i \<and> has (entry (mem s) t i) PG_PRESENT then 0 else entry (mem s) u j)"
    "page_no a \<noteq> page_no t \<Longrightarrow> mem (release_page t i s) a = mem s a"
    "same_dirs (release_page t i s) s"
proof -
  have t: "paged t" "i < 512" using slot_invD(3,4) [OF inv x] slot_inv_paged [OF inv] by auto
  show "paged u \<Longrightarrow> j < 512 \<Longrightarrow> entry (mem (release_page t i s)) u j =
       (if u = t \<and> j = i \<and> has (entry (mem s) t i) PG_PRESENT then 0 else entry (mem s) u j)"
    "page_no a \<noteq> page_no t \<Longrightarrow> mem (release_page t i s) a = mem s a" "same_dirs (release_page t i s) s"
    using t by (auto simp: release_page_def Let_def mem_put_other same_dirs_def)
  show "slot_inv (release_page t i s) K S"
  proof (cases "has (entry (mem s) t i) PG_PRESENT")
    case True
    let ?e = "entry (mem s) t i"
    have pr: "has (slot (mem s) (t, i)) PG_PRESENT" using True by (simp add: slot_def)
    have e: "slot (mem s) (t, i) = ?e" by (simp add: slot_def)
    note fr = slot_invD(6,7) [OF inv x pr, unfolded e] refs_count_pos [OF inv x pr, unfolded e]
    note un = unref_frame_page [of "?e AND PG_ADDR_MASK" s, folded frame_of_def, OF page_addr_masked fr(1,2) slot_invD(1) [OF inv] fr(3)]
    have eq: "release_page t i s = put_entry t i 0 (physmem_unref_frame (ucast (?e AND PG_ADDR_MASK)) s)"
      using True by (simp add: release_page_def)
    show ?thesis
    proof (rule slot_inv_drop [OF inv x pr])
      show "slot (mem (release_page t i s)) z = (if z = (t, i) then 0 else slot (mem s) z)" if "z \<in> S" for z
        using slot_invD(3,4) [OF inv that] slot_inv_paged [OF inv] by (simp add: eq slot_put [OF t])
    qed (simp_all add: eq un e physmem_inv_unref_frame slot_invD(1) [OF inv])
  qed (simp add: release_page_def inv)
qed

section \<open>Making a slot writable\<close>

lemma sole_ref:
  assumes inv: "slot_inv s K S" and x: "x \<in> S" "has (slot (mem s) x) PG_PRESENT"
    and one: "frame_refcount s (frame_of (slot (mem s) x)) = 1"
  shows "refs (mem s) S (frame_of (slot (mem s) x)) = {x}"
proof -
  let ?R = "refs (mem s) S (frame_of (slot (mem s) x))"
  have "x \<in> ?R" using x by (simp add: refs_def)
  moreover have "card ?R \<le> 1" using slot_invD(9) [OF inv, of "frame_of (slot (mem s) x)"] one by simp
  ultimately show ?thesis
    using card_le_Suc0_iff_eq [OF refs_finite [OF slot_invD(2) [OF inv]], of "mem s" "frame_of (slot (mem s) x)"] by auto
qed

text \<open>The entry of the only slot of a frame may become writable.\<close>

lemma slot_inv_sole_write:
  assumes inv: "slot_inv s K S" and x: "(t, i) \<in> S" "has (slot (mem s) (t, i)) PG_PRESENT"
    and one: "frame_refcount s (frame_of (slot (mem s) (t, i))) = 1"
  shows "slot_inv (put_entry t i ((slot (mem s) (t, i) AND PG_ADDR_MASK) OR rw_flags) s) K S" (is "slot_inv ?s K S")
proof -
  let ?f = "frame_of (slot (mem s) (t, i))"
  have t: "t \<in> K" "i < 512" using slot_invD(3,4) [OF inv x(1)] by auto
  have sl: "slot (mem ?s) z = (if z = (t, i) then (slot (mem s) (t, i) AND PG_ADDR_MASK) OR rw_flags else slot (mem s) z)"
    if "z \<in> S" for z using slot_inv_slot_put [OF inv t that] .
  have keep: "has (slot (mem ?s) z) PG_PRESENT = has (slot (mem s) z) PG_PRESENT \<and>
      frame_of (slot (mem ?s) z) = frame_of (slot (mem s) z)" if "z \<in> S" for z
    using sl [OF that] x(2) by (auto simp: frame_of_def)
  then have refs: "refs (mem ?s) S f = refs (mem s) S f" for f by (auto simp: refs_def)
  have "refs (mem s) S (frame_of (slot (mem s) z)) = {z}"
    if "z \<in> S" "has (slot (mem ?s) z) PG_PRESENT" "has (slot (mem ?s) z) PG_WRITABLE" for z
    using that sl [OF that(1)] keep [OF that(1)] sole_ref [OF inv x one] slot_invD(10) [OF inv, of z]
    by (cases "z = (t, i)") auto
  then show ?thesis
    using inv keep by (auto simp: slot_inv_def refs table_frame_def)
qed

text \<open>A fresh frame, which is not a table, replaces the frame of a slot.\<close>

lemma slot_inv_new_frame:
  assumes inv: "slot_inv s K S" and x: "(t, i) \<in> S" "\<not> has (slot (mem s) (t, i)) PG_PRESENT"
    and b: "page_addr b" "256 \<le> page_no b" "page_no b < total_frames s" "frame_refcount s (page_no b) = 1"
      "page_no b \<notin> page_no ` K" "refs (mem s) S (page_no b) = {}"
  shows "slot_inv (put_entry t i (b OR rw_flags) s) K S" (is "slot_inv ?s K S")
proof -
  have t: "t \<in> K" "i < 512" using slot_invD(3,4) [OF inv x(1)] by auto
  have sl: "slot (mem ?s) z = (if z = (t, i) then b OR rw_flags else slot (mem s) z)" if "z \<in> S" for z
    using slot_inv_slot_put [OF inv t that] .
  have fb: "frame_of (b OR rw_flags) = page_no b" using b(1) by (simp add: frame_of_def)
  have in_refs: "z \<in> refs (mem ?s) S f \<longleftrightarrow> (if f = page_no b then z = (t, i) else z \<in> refs (mem s) S f)" for z f
  proof (cases "z = (t, i)")
    case True
    then show ?thesis using sl [OF x(1)] x b(1) fb by (auto simp: refs_def)
  next
    case False
    have "z \<notin> refs (mem s) S (page_no b)" using b(6) by simp
    then show ?thesis using False sl [of z] by (auto simp: refs_def)
  qed
  then have refs: "refs (mem ?s) S f = (if f = page_no b then {(t, i)} else refs (mem s) S f)" for f by auto
  have "refs (mem ?s) S (frame_of (slot (mem ?s) z)) = {z}"
    if z: "z \<in> S" "has (slot (mem ?s) z) PG_PRESENT" "has (slot (mem ?s) z) PG_WRITABLE" for z
  proof (cases "z = (t, i)")
    case False
    then have eq: "slot (mem ?s) z = slot (mem s) z" using sl [OF z(1)] by simp
    have "z \<notin> refs (mem s) S (page_no b)" using b(6) by simp
    then have "frame_of (slot (mem s) z) \<noteq> page_no b" using z eq by (simp add: refs_def)
    then show ?thesis using z slot_invD(10) [OF inv z(1)] by (simp add: refs eq)
  qed (use sl [OF z(1)] fb in \<open>simp add: refs\<close>)
  moreover have "card (refs (mem ?s) S f) \<le> unat (frame_refcount s f)" for f
    using slot_invD(9) [OF inv, of f] b(4) by (simp add: refs)
  moreover have "256 \<le> frame_of (slot (mem ?s) z) \<and> frame_of (slot (mem ?s) z) < total_frames s \<and>
      frame_of (slot (mem ?s) z) \<notin> page_no ` K" if "z \<in> S" "has (slot (mem ?s) z) PG_PRESENT" for z
    using that sl [OF that(1)] b fb slot_invD(6-8) [OF inv that(1)] by (cases "z = (t, i)") auto
  ultimately show ?thesis
    using inv unfolding slot_inv_def by (simp add: table_frame_def)
qed

lemma refs_cong: "(\<And>x. x \<in> S \<Longrightarrow> slot m' x = slot m x) \<Longrightarrow> refs m' S f = refs m S f"
  by (auto simp: refs_def)

text \<open>What a program sees through a slot changes only if the slot, or a byte of its frame, does.\<close>

lemma seen_cong:
  assumes "slot m' y = slot m x \<or> has (slot m' y) PG_PRESENT \<and> has (slot m x) PG_PRESENT \<and>
             slot m' y AND PG_ADDR_MASK = slot m x AND PG_ADDR_MASK"
    "has (slot m x) PG_PRESENT \<Longrightarrow> m' ((slot m x AND PG_ADDR_MASK) + of_nat off) = m ((slot m x AND PG_ADDR_MASK) + of_nat off)"
  shows "seen m' y off = seen m x off"
  using assms by (auto simp: seen_def Let_def)

lemma frame_bytes:
  assumes "off < 4096"
  shows "page_no ((e AND PG_ADDR_MASK) + of_nat off) = frame_of e"
  using assms page_addr_paged [OF page_addr_masked] by (simp add: frame_of_def page_no_in_page)

text \<open>The copy of \<^verbatim>\<open>paging_cow_resolve\<close>: a fresh frame gets the bytes and takes the place of the old one.\<close>

lemma put_put: "put_entry t i v (put_entry t i w s) = put_entry t i v s"
  by (simp add: put_entry_def store_le_at fun_eq_iff)

definition replace_frame :: "u64 \<Rightarrow> nat \<Rightarrow> u64 \<Rightarrow> 'a paging_st_scheme \<Rightarrow> 'a paging_st_scheme" where
  "replace_frame t i b s =
     put_entry t i (b OR rw_flags)
       (physmem_unref_frame (ucast (entry (mem s) t i AND PG_ADDR_MASK))
          (copy_frame (entry (mem s) t i AND PG_ADDR_MASK) b s))"

lemma replace_frame_mem:
  fixes s :: "'a paging_st_scheme"
  assumes inv: "slot_inv s K S" and x: "(t, i) \<in> S" "has (entry (mem s) t i) PG_PRESENT"
    and b: "page_addr b" "page_no b \<notin> page_no ` K" "page_no b \<noteq> frame_of (entry (mem s) t i)"
  defines "s' \<equiv> replace_frame t i b s"
  shows "u \<in> K \<Longrightarrow> j < 512 \<Longrightarrow> entry (mem s') u j = (if u = t \<and> j = i then b OR rw_flags else entry (mem s) u j)"
    "page_no c \<notin> page_no ` K \<Longrightarrow> page_no c \<noteq> page_no b \<Longrightarrow> mem s' c = mem s c"
    "off < 4096 \<Longrightarrow> mem s' (b + of_nat off) = mem s ((entry (mem s) t i AND PG_ADDR_MASK) + of_nat off)"
    "same_dirs s' s"
proof -
  let ?o = "entry (mem s) t i AND PG_ADDR_MASK"
  have t: "t \<in> K" "i < 512" "paged t" using slot_invD(3,4) [OF inv x(1)] slot_inv_paged [OF inv] by auto
  have pb: "paged b" "paged ?o" using b(1) by (simp_all add: page_addr_paged)
  have ne: "b \<noteq> ?o" using b(3) by (auto simp: frame_of_def)
  note cp = copy_table_spec(1) [OF pb ne, where s = s]
  have K: "u \<noteq> b" "paged u" "page_no u \<noteq> page_no b" if "u \<in> K" for u
    using that b(2) slot_inv_paged [OF inv] by (auto simp: image_iff)
  show "u \<in> K \<Longrightarrow> j < 512 \<Longrightarrow> entry (mem s') u j = (if u = t \<and> j = i then b OR rw_flags else entry (mem s) u j)"
    using t K by (simp add: s'_def replace_frame_def copy_frame_is_copy_table cp)
  have out: "page_no c \<notin> page_no ` K \<Longrightarrow> page_no c \<noteq> page_no t" using t(1) by (auto simp: image_iff)
  show "page_no c \<notin> page_no ` K \<Longrightarrow> page_no c \<noteq> page_no b \<Longrightarrow> mem s' c = mem s c"
    using t out by (simp add: s'_def replace_frame_def copy_frame_is_copy_table mem_put_other copy_table_spec(2) [OF pb ne])
  show "off < 4096 \<Longrightarrow> mem s' (b + of_nat off) = mem s (?o + of_nat off)"
    using t K(3) [OF t(1)] page_no_in_page [OF pb(1), of off]
    by (auto simp: s'_def replace_frame_def copy_frame_is_copy_table mem_put_other copy_table_bytes [OF pb ne])
  show "same_dirs s' s"
    using only_memD(1) [OF copy_table_spec(3) [OF pb ne, of s]]
    by (simp add: s'_def replace_frame_def copy_frame_is_copy_table same_dirs_def)
qed

lemma replace_frame_inv:
  fixes s :: "'a paging_st_scheme"
  assumes inv: "slot_inv s K S" and x: "(t, i) \<in> S" "has (entry (mem s) t i) PG_PRESENT"
    and b: "page_addr b" "256 \<le> page_no b" "page_no b < total_frames s" "frame_refcount s (page_no b) = 1"
      "page_no b \<notin> page_no ` K" "\<And>x. x \<in> S \<Longrightarrow> has (slot (mem s) x) PG_PRESENT \<Longrightarrow> frame_of (slot (mem s) x) \<noteq> page_no b"
  shows "slot_inv (replace_frame t i b s) K S"
proof -
  let ?e = "entry (mem s) t i" and ?c = "copy_frame (entry (mem s) t i AND PG_ADDR_MASK) b s"
  have e: "slot (mem s) (t, i) = ?e" by (simp add: slot_def)
  have bo: "page_no b \<noteq> frame_of ?e" using b(6) [OF x(1)] x(2) by (simp add: e)
  have pb: "paged b" "paged (?e AND PG_ADDR_MASK)" "b \<noteq> ?e AND PG_ADDR_MASK"
    using b(1) bo by (auto simp: page_addr_paged frame_of_def)
  note cp = copy_table_spec(1) [OF pb, where s = s, folded copy_frame_is_copy_table]
  have keep: "slot (mem ?c) z = slot (mem s) z" if "z \<in> S" for z
  proof -
    have "fst z \<in> K" "snd z < 512" using slot_invD(3,4) [OF inv that] by auto
    then have "paged (fst z)" "fst z \<noteq> b" using slot_inv_paged [OF inv] b(5) by auto
    then show ?thesis using \<open>snd z < 512\<close> by (simp add: slot_def cp)
  qed
  note om = only_memD [OF copy_table_spec(3) [OF pb, of s, folded copy_frame_is_copy_table]]
  have c: "slot_inv ?c K S"
    using inv keep by (intro slot_inv_cong [OF inv]) (simp_all add: om slot_invD(1) [OF inv])
  have ec: "entry (mem ?c) t i = ?e" using keep [OF x(1)] by (simp add: slot_def)
  let ?r = "release_page t i ?c"
  note rel = release_page_inv [OF c x(1)]
  have eq: "replace_frame t i b s = put_entry t i (b OR rw_flags) ?r"
    using x(2) by (simp add: replace_frame_def release_page_def Let_def ec put_put)
  have t: "t \<in> K" "i < 512" "paged t" using slot_invD(3,4) [OF inv x(1)] slot_inv_paged [OF inv] by auto
  have sl: "slot (mem ?r) z = (if z = (t, i) then 0 else slot (mem s) z)" if "z \<in> S" for z
    using keep [OF that] slot_invD(3,4) [OF inv that] slot_inv_paged [OF inv] x(2)
    by (cases z) (simp add: slot_def rel(2) ec)
  have "frame_refcount ?r (page_no b) = 1"
    using unref_frame_page(1) [of "?e AND PG_ADDR_MASK" ?c, folded frame_of_def] slot_invD(6,7) [OF c x(1)]
      refs_count_pos [OF c x(1)] slot_invD(1) [OF c] x(2) bo b(4) keep [OF x(1)]
    by (simp add: release_page_def Let_def ec e om)
  moreover have "refs (mem ?r) S (page_no b) = {}"
    using sl b(6) by (auto simp: refs_def split: if_splits)
  moreover have "total_frames ?r = total_frames s" using rel(4) om(3) by (simp add: same_dirs_def)
  ultimately show ?thesis
    unfolding eq using b sl [OF x(1)] by (intro slot_inv_new_frame [OF rel(1) x(1)]) simp_all
qed

end
