(* ===== verification/Address_Space.thy ===== *)
theory Address_Space
  imports Page_Slots
begin

text \<open>
  Address spaces over the page tables: a directory has the shape that \<^verbatim>\<open>paging_create_user_directory\<close>
  gives it, and \<open>view\<close> is the memory that a program sees through it. The invariant \<open>spaces_ok\<close> of a set of
  directories is kept when one is created, cloned, written through or destroyed, and each of these
  changes the views as if every program had memory of its own: cloning copies the pages, a store
  is seen by its own program only.
\<close>

unbundle bit_operations_syntax

section \<open>The indices of a user address\<close>

definition in_user :: "u64 \<Rightarrow> bool" where
  "in_user va \<longleftrightarrow> va \<ge> PAGING_USER_BASE \<and> va < PAGING_USER_BASE + PAGING_USER_SIZE"

definition upage :: "u64 \<Rightarrow> nat" where
  "upage va = (unat va - 16777216) div 4096"

lemma in_user_unat: "in_user va \<longleftrightarrow> 16777216 \<le> unat va \<and> unat va < 20971520"
  by (simp add: in_user_def PAGING_USER_BASE_def PAGING_USER_SIZE_def word_le_nat_alt word_less_nat_alt)

lemma upage_less: "in_user va \<Longrightarrow> upage va < 1024"
  by (auto simp: in_user_unat upage_def)

lemma unat_index: "unat (drop_bit k (va :: u64) AND 0x1FF) = unat va div 2 ^ k mod 512"
proof -
  have "x AND 0x1FF = take_bit 9 x" for x :: u64 by (simp add: take_bit_eq_mask mask_eq_exp_minus_1)
  then have "unat (drop_bit k va AND 0x1FF) = take_bit 9 (unat (drop_bit k va))"
    by (simp only: unsigned_take_bit_eq)
  also have "unat (drop_bit k va) = unat va div 2 ^ k" by (simp only: unat_drop_bit_eq) (simp add: drop_bit_eq_div)
  finally show ?thesis by (simp add: take_bit_eq_mod)
qed

lemma sub_div_page: "16777216 \<le> v \<Longrightarrow> (v - 16777216) div 4096 = v div 4096 - 4096" for v :: nat
proof -
  assume "16777216 \<le> v"
  then have d: "v = 16777216 + (v - 16777216)" by simp
  have "v div 4096 = 4096 + (v - 16777216) div 4096"
    by (subst d, subst div_plus_div_distrib_dvd_left) simp_all
  then show ?thesis by simp
qed

lemma user_indices:
  assumes "in_user va"
  shows "PML4_IDX va = 0" "PDPT_IDX va = 0" "PD_IDX va = 8 + upage va div 512" "PT_IDX va = upage va mod 512"
proof -
  obtain v where v: "unat va = v" "16777216 \<le> v" "v < 20971520" using assms by (auto simp: in_user_unat)
  show "PML4_IDX va = 0" "PDPT_IDX va = 0" using v by (simp_all add: PML4_IDX_def PDPT_IDX_def unat_index)
  have d: "v = 16777216 + (v - 16777216)" using v by simp
  have "v div 2097152 = 8 + (v - 16777216) div 4096 div 512"
    unfolding div_mult2_eq [symmetric] by (subst d, subst div_plus_div_distrib_dvd_left) simp_all
  moreover have "v div 2097152 < 10" using v by simp
  ultimately show "PD_IDX va = 8 + upage va div 512" by (simp add: PD_IDX_def unat_index v upage_def)
  have "v div 4096 = 4096 + (v - 16777216) div 4096"
    using sub_div_page [OF v(2)] div_le_mono [OF v(2), of 4096] by simp
  moreover have "(4096 + k) mod 512 = k mod 512" for k :: nat
    using mod_mult_self2 [of k 512 8] by (simp add: add.commute)
  ultimately show "PT_IDX va = upage va mod 512" by (simp add: PT_IDX_def unat_index v upage_def)
qed

lemma upage_user_va: "p < 1024 \<Longrightarrow> in_user (user_va p) \<and> upage (user_va p) = p"
  by (simp add: in_user_unat upage_def user_va_unat)

lemma page_base:
  assumes "in_user va"
  shows "in_user (va AND NOT (PAGING_PAGE_SIZE - 1))" "upage (va AND NOT (PAGING_PAGE_SIZE - 1)) = upage va"
    "drop_bit 12 (va AND NOT (PAGING_PAGE_SIZE - 1)) = drop_bit 12 va"
proof -
  have m: "PAGING_PAGE_SIZE - 1 = mask 12" by (simp add: PAGING_PAGE_SIZE_def mask_eq_exp_minus_1)
  have "unat (va AND NOT (PAGING_PAGE_SIZE - 1)) = unat va div 4096 * 4096"
    using unat_and_not_mask [of 12 va] by (simp add: PAGING_PAGE_SIZE_def)
  then show "in_user (va AND NOT (PAGING_PAGE_SIZE - 1))" "upage (va AND NOT (PAGING_PAGE_SIZE - 1)) = upage va"
    using assms sub_div_page [of "unat va"] sub_div_page [of "unat va div 4096 * 4096"]
    by (auto simp: in_user_unat upage_def)
  show "drop_bit 12 (va AND NOT (PAGING_PAGE_SIZE - 1)) = drop_bit 12 va"
    unfolding m by (rule bit_eqI) (auto simp: bit_simps dest: bit_imp_le_length)
qed

section \<open>The shape of a directory\<close>

definition dir_pdpt :: "bmem \<Rightarrow> u64 \<Rightarrow> u64" where
  "dir_pdpt m d = phys_to_virt (entry m d 0)"

definition dir_pd :: "bmem \<Rightarrow> u64 \<Rightarrow> u64" where
  "dir_pd m d = phys_to_virt (entry m (dir_pdpt m d) 0)"

definition dir_pt :: "bmem \<Rightarrow> u64 \<Rightarrow> nat \<Rightarrow> u64" where
  "dir_pt m d k = phys_to_virt (entry m (dir_pd m d) (8 + k))"

definition dir_tables :: "bmem \<Rightarrow> u64 \<Rightarrow> u64 list" where
  "dir_tables m d = [d, dir_pdpt m d, dir_pd m d, dir_pt m d 0, dir_pt m d 1]"

definition table_ref :: "u64 \<Rightarrow> bool" where
  "table_ref e \<longleftrightarrow> has e PG_PRESENT \<and> has e PG_WRITABLE \<and> has e PG_USER \<and> \<not> has e PG_PS"

definition dir_shape :: "bmem \<Rightarrow> u64 \<Rightarrow> bool" where
  "dir_shape m d \<longleftrightarrow>
     distinct (dir_tables m d) \<and> 0 \<notin> set (dir_tables m d) \<and> paged d \<and>
     table_ref (entry m d 0) \<and> table_ref (entry m (dir_pdpt m d) 0) \<and>
     table_ref (entry m (dir_pd m d) 8) \<and> table_ref (entry m (dir_pd m d) 9)"

definition user_slot :: "bmem \<Rightarrow> u64 \<Rightarrow> nat \<Rightarrow> u64 \<times> nat" where
  "user_slot m d p = (dir_pt m d (p div 512), p mod 512)"

definition user_slots :: "bmem \<Rightarrow> u64 \<Rightarrow> (u64 \<times> nat) set" where
  "user_slots m d = {dir_pt m d 0, dir_pt m d 1} \<times> {0..<512}"

text \<open>The memory of a program: what it sees at an offset in a page of its space.\<close>

definition view :: "'a paging_st_scheme \<Rightarrow> u64 \<Rightarrow> nat \<Rightarrow> nat \<Rightarrow> u8 option" where
  "view s d p off = seen (mem s) (user_slot (mem s) d p) off"

lemma page_div_cases: "p < 1024 \<Longrightarrow> p div 512 = 0 \<or> p div 512 = 1" for p :: nat
  by auto

lemma user_slot_in: "p < 1024 \<Longrightarrow> user_slot m d p \<in> user_slots m d"
  using page_div_cases [of p] by (auto simp: user_slot_def user_slots_def)

lemma user_slots_page:
  assumes "x \<in> user_slots m d"
  obtains p where "p < 1024" "x = user_slot m d p"
proof -
  from assms obtain t i where "x = (t, i)" "i < 512" "t = dir_pt m d 0 \<or> t = dir_pt m d 1"
    by (auto simp: user_slots_def)
  moreover have "(512 + i) div 512 = 1" "(512 + i) mod 512 = i" using \<open>i < 512\<close> by simp_all
  ultimately show thesis using that [of i] that [of "512 + i"] by (auto simp: user_slot_def)
qed

lemma user_slot_inj:
  assumes "dir_shape m d" "p < 1024" "q < 1024" "user_slot m d p = user_slot m d q"
  shows "p = q"
proof -
  have "dir_pt m d 0 \<noteq> dir_pt m d 1" using assms(1) by (simp add: dir_shape_def dir_tables_def)
  then have "p div 512 = q div 512" "p mod 512 = q mod 512"
    using assms(4) page_div_cases [OF assms(2)] page_div_cases [OF assms(3)] by (auto simp: user_slot_def)
  then show ?thesis by (metis div_mult_mod_eq)
qed

lemma dir_tables_paged: "dir_shape m d \<Longrightarrow> t \<in> set (dir_tables m d) \<Longrightarrow> paged t"
  by (auto simp: dir_shape_def dir_tables_def dir_pdpt_def dir_pd_def dir_pt_def phys_to_virt_def page_addr_paged)

lemma dir_pt_in: "k < 2 \<Longrightarrow> dir_pt m d k \<in> set (dir_tables m d)"
  by (auto simp: dir_tables_def less_2_cases_iff)

lemma user_slot_paged: "dir_shape m d \<Longrightarrow> p < 1024 \<Longrightarrow> paged (fst (user_slot m d p)) \<and> snd (user_slot m d p) < 512"
  using dir_tables_paged [of m d, OF _ dir_pt_in [of "p div 512"]] by (simp add: user_slot_def)

text \<open>The tables above the page tables decide the shape.\<close>

lemma dir_cong:
  assumes "entry m' d 0 = entry m d 0" "entry m' (dir_pdpt m d) 0 = entry m (dir_pdpt m d) 0"
    "entry m' (dir_pd m d) 8 = entry m (dir_pd m d) 8" "entry m' (dir_pd m d) 9 = entry m (dir_pd m d) 9"
  shows "dir_tables m' d = dir_tables m d" "dir_shape m' d = dir_shape m d" "user_slots m' d = user_slots m d"
    "p < 1024 \<Longrightarrow> user_slot m' d p = user_slot m d p" "k < 2 \<Longrightarrow> dir_pt m' d k = dir_pt m d k"
proof -
  have 1: "dir_pdpt m' d = dir_pdpt m d" "dir_pd m' d = dir_pd m d"
    using assms(1,2) by (simp_all add: dir_pdpt_def dir_pd_def)
  then have 2: "dir_pt m' d k = dir_pt m d k" if "k < 2" for k
    using that assms(3,4) by (auto simp: dir_pt_def less_2_cases_iff)
  then show "dir_tables m' d = dir_tables m d" "dir_shape m' d = dir_shape m d" "user_slots m' d = user_slots m d"
    using 1 assms 2 [of 0] 2 [of 1] by (simp_all add: dir_tables_def dir_shape_def user_slots_def)
  show "p < 1024 \<Longrightarrow> user_slot m' d p = user_slot m d p"
    using 2 page_div_cases [of p] by (simp add: user_slot_def less_2_cases_iff)
  show "k < 2 \<Longrightarrow> dir_pt m' d k = dir_pt m d k" by (rule 2)
qed

lemma user_pt_for_shape:
  assumes "dir_shape (mem s) d" "in_user va"
  shows "user_pt_for d va s = dir_pt (mem s) d (upage va div 512)"
proof -
  have "upage va div 512 = 0 \<or> upage va div 512 = 1" using upage_less [OF assms(2)] by (rule page_div_cases)
  then show ?thesis
    using assms(1) unfolding user_pt_for_def Let_def user_indices [OF assms(2)]
    by (auto simp: dir_shape_def dir_tables_def dir_pdpt_def dir_pd_def dir_pt_def table_ref_def)
qed

section \<open>Stores through a directory\<close>

lemma page_offset: "page_addr a \<Longrightarrow> a OR (va AND 0xFFF) = a + of_nat (unat va mod 4096)"
proof -
  assume a: "page_addr a"
  have "\<not> bit a n \<or> \<not> bit (va AND 0xFFF) n" for n
    using page_addr_bits [OF a, of n] bit_low_mask [of n] unfolding bit_and_iff by auto
  then have "a + (va AND 0xFFF) = a OR (va AND 0xFFF)" by (rule disjunctive_add)
  then show ?thesis unfolding unat_mod_4096 by (simp add: of_nat_unat_id)
qed

lemma user_store_attempt_eq:
  assumes "dir_shape (mem s) d" "in_user va"
  defines "e \<equiv> slot (mem s) (user_slot (mem s) d (upage va))"
  shows "user_store_attempt d va b s =
    (if \<not> has e PG_PRESENT then Inl 6
     else if has e PG_USER \<and> has e PG_WRITABLE
     then Inr (s\<lparr>mem := (mem s)((e AND PG_ADDR_MASK) + of_nat (unat va mod 4096) := b)\<rparr>)
     else Inl 7)"
proof -
  have k: "upage va div 512 = 0 \<or> upage va div 512 = 1" using upage_less [OF assms(2)] by (rule page_div_cases)
  have es: "e = entry (mem s) (dir_pt (mem s) d (upage va div 512)) (upage va mod 512)"
    by (simp add: e_def slot_def user_slot_def)
  have "table_ref (entry (mem s) (dir_pd (mem s) d) (8 + upage va div 512))"
    using k assms(1) by (auto simp: dir_shape_def)
  then show ?thesis
    using assms(1)
    unfolding user_store_attempt_def translate_def Let_def user_indices [OF assms(2)]
      dir_pdpt_def [of "mem s" d, symmetric] dir_pd_def [of "mem s" d, symmetric]
      dir_pt_def [of "mem s" d, symmetric] es [symmetric]
    by (simp add: dir_shape_def table_ref_def phys_to_virt_def page_offset)
qed

definition all_tables :: "bmem \<Rightarrow> u64 set \<Rightarrow> u64 set" where
  "all_tables m D = (\<Union>d \<in> D. set (dir_tables m d))"

definition all_slots :: "bmem \<Rightarrow> u64 set \<Rightarrow> (u64 \<times> nat) set" where
  "all_slots m D = (\<Union>d \<in> D. user_slots m d)"

text \<open>No two pages of a space are the same frame.\<close>

definition own_frames :: "bmem \<Rightarrow> u64 \<Rightarrow> bool" where
  "own_frames m d \<longleftrightarrow>
     (\<forall>p < 1024. \<forall>q < 1024. has (slot m (user_slot m d p)) PG_PRESENT \<longrightarrow> has (slot m (user_slot m d q)) PG_PRESENT \<longrightarrow>
        frame_of (slot m (user_slot m d p)) = frame_of (slot m (user_slot m d q)) \<longrightarrow> p = q)"

lemma own_framesD:
  "own_frames m d \<Longrightarrow> p < 1024 \<Longrightarrow> q < 1024 \<Longrightarrow> has (slot m (user_slot m d p)) PG_PRESENT \<Longrightarrow>
   has (slot m (user_slot m d q)) PG_PRESENT \<Longrightarrow>
   frame_of (slot m (user_slot m d p)) = frame_of (slot m (user_slot m d q)) \<Longrightarrow> p = q"
  unfolding own_frames_def by blast

definition spaces_ok :: "'a paging_st_scheme \<Rightarrow> u64 set \<Rightarrow> bool" where
  "spaces_ok s D \<longleftrightarrow>
     finite D \<and> slot_inv s (all_tables (mem s) D) (all_slots (mem s) D) \<and>
     (\<forall>d \<in> D. dir_shape (mem s) d \<and> own_frames (mem s) d) \<and>
     (\<forall>d \<in> D. \<forall>e \<in> D. d \<noteq> e \<longrightarrow> set (dir_tables (mem s) d) \<inter> set (dir_tables (mem s) e) = {})"

lemma spaces_okD:
  assumes "spaces_ok s D"
  shows "finite D" "slot_inv s (all_tables (mem s) D) (all_slots (mem s) D)"
    "\<And>d. d \<in> D \<Longrightarrow> dir_shape (mem s) d" "\<And>d. d \<in> D \<Longrightarrow> own_frames (mem s) d"
    "\<And>d e. d \<in> D \<Longrightarrow> e \<in> D \<Longrightarrow> d \<noteq> e \<Longrightarrow> set (dir_tables (mem s) d) \<inter> set (dir_tables (mem s) e) = {}"
    "physmem_inv s"
  using assms by (simp_all add: spaces_ok_def slot_inv_def)

lemma slot_in_all: "d \<in> D \<Longrightarrow> p < 1024 \<Longrightarrow> user_slot m d p \<in> all_slots m D"
  using user_slot_in by (auto simp: all_slots_def)

lemma table_in_all: "d \<in> D \<Longrightarrow> t \<in> set (dir_tables m d) \<Longrightarrow> t \<in> all_tables m D"
  by (auto simp: all_tables_def)

lemma user_slot_distinct:
  assumes ok: "spaces_ok s D" and d: "d \<in> D" "d' \<in> D" and p: "p < 1024" "p' < 1024"
    and eq: "user_slot (mem s) d p = user_slot (mem s) d' p'"
  shows "d = d' \<and> p = p'"
proof (cases "d = d'")
  case True
  then show ?thesis using user_slot_inj [OF spaces_okD(3) [OF ok d(1)] p] eq by simp
next
  case False
  have "dir_pt (mem s) d (p div 512) \<in> set (dir_tables (mem s) d)" "dir_pt (mem s) d' (p' div 512) \<in> set (dir_tables (mem s) d')"
    using p by (auto intro!: dir_pt_in)
  then show ?thesis using spaces_okD(5) [OF ok d False] eq by (auto simp: user_slot_def)
qed

text \<open>The tables above the page tables are the same in two memories.\<close>

definition same_upper :: "bmem \<Rightarrow> bmem \<Rightarrow> u64 set \<Rightarrow> bool" where
  "same_upper m' m D \<longleftrightarrow> (\<forall>d \<in> D. \<forall>t \<in> {d, dir_pdpt m d, dir_pd m d}. \<forall>i < 512. entry m' t i = entry m t i)"

lemma same_upper_dirs:
  assumes "same_upper m' m D"
  shows "d \<in> D \<Longrightarrow> dir_tables m' d = dir_tables m d" "d \<in> D \<Longrightarrow> dir_shape m' d = dir_shape m d"
    "d \<in> D \<Longrightarrow> user_slots m' d = user_slots m d" "d \<in> D \<Longrightarrow> p < 1024 \<Longrightarrow> user_slot m' d p = user_slot m d p"
    "all_tables m' D = all_tables m D" "all_slots m' D = all_slots m D"
proof -
  have e: "entry m' d 0 = entry m d 0" "entry m' (dir_pdpt m d) 0 = entry m (dir_pdpt m d) 0"
    "entry m' (dir_pd m d) 8 = entry m (dir_pd m d) 8" "entry m' (dir_pd m d) 9 = entry m (dir_pd m d) 9" if "d \<in> D" for d
    using assms that by (simp_all add: same_upper_def)
  show "dir_tables m' d = dir_tables m d" "dir_shape m' d = dir_shape m d"
    "user_slots m' d = user_slots m d" "p < 1024 \<Longrightarrow> user_slot m' d p = user_slot m d p" if "d \<in> D" for d p
    using dir_cong [OF e [OF that]] by blast+
  then show "all_tables m' D = all_tables m D" "all_slots m' D = all_slots m D"
    by (auto simp: all_tables_def all_slots_def)
qed

lemma spaces_okI:
  assumes ok: "spaces_ok s D" and up: "same_upper (mem s') (mem s) D"
    and inv: "slot_inv s' (all_tables (mem s) D) (all_slots (mem s) D)"
    and own: "\<And>d. d \<in> D \<Longrightarrow> own_frames (mem s') d"
  shows "spaces_ok s' D"
  using ok own inv unfolding spaces_ok_def by (simp add: same_upper_dirs [OF up])

lemma entry_byte_other:
  assumes "paged t" "i < 512" "page_no a \<noteq> page_no t"
  shows "entry (m(a := b)) t i = entry m t i"
  unfolding entry_def
proof (rule load64_cong)
  fix j :: nat assume "j < 8"
  then have "page_no (t + of_nat (8 * i + j)) = page_no t" using assms(1,2) by (intro page_no_in_page) simp_all
  moreover have "t + of_nat (8 * i + j) = t + 8 * of_nat i + of_nat j" by (simp add: add.assoc)
  ultimately have "page_no (t + 8 * of_nat i + of_nat j) = page_no t" by (simp only:)
  then show "(m(a := b)) (t + 8 * of_nat i + of_nat j) = m (t + 8 * of_nat i + of_nat j)" using assms(3) by auto
qed

text \<open>All tables are the same: so are the slots.\<close>

definition same_tables :: "bmem \<Rightarrow> bmem \<Rightarrow> u64 set \<Rightarrow> bool" where
  "same_tables m' m D \<longleftrightarrow> (\<forall>t \<in> all_tables m D. \<forall>i < 512. entry m' t i = entry m t i)"

lemma upper_in_all: "d \<in> D \<Longrightarrow> t \<in> {d, dir_pdpt m d, dir_pd m d} \<Longrightarrow> t \<in> all_tables m D"
  by (auto simp: all_tables_def dir_tables_def)

lemma same_tables_upper: "same_tables m' m D \<Longrightarrow> same_upper m' m D"
  unfolding same_tables_def same_upper_def using upper_in_all [of _ D _ m] by blast

lemma all_slotsD: "x \<in> all_slots m D \<Longrightarrow> fst x \<in> all_tables m D \<and> snd x < 512"
  using dir_pt_in [of 0 m] dir_pt_in [of 1 m] by (fastforce simp: all_slots_def all_tables_def user_slots_def)

lemma same_tables_slot: "same_tables m' m D \<Longrightarrow> x \<in> all_slots m D \<Longrightarrow> slot m' x = slot m x"
  using all_slotsD [of x m D] by (simp add: same_tables_def slot_def)

lemma same_tables_own:
  assumes "same_tables m' m D" "d \<in> D" "own_frames m d"
  shows "own_frames m' d"
  using assms(3) same_tables_slot [OF assms(1) slot_in_all [OF assms(2)]]
    same_upper_dirs(4) [OF same_tables_upper [OF assms(1)] assms(2)]
  unfolding own_frames_def by simp

lemma spaces_ok_same_tables:
  assumes ok: "spaces_ok s D" and same: "same_tables (mem s') (mem s) D"
    and s': "physmem_inv s'" "total_frames s' = total_frames s" "frame_refcount s' = frame_refcount s"
  shows "spaces_ok s' D"
  using spaces_okD(4) [OF ok]
  by (intro spaces_okI [OF ok same_tables_upper [OF same]] slot_inv_cong [OF spaces_okD(2) [OF ok] s'])
     (auto intro: same_tables_slot [OF same] same_tables_own [OF same])

lemma same_tables_view:
  assumes "same_tables (mem s') (mem s) D" "d \<in> D" "p < 1024"
    "has (slot (mem s) (user_slot (mem s) d p)) PG_PRESENT \<Longrightarrow>
       mem s' ((slot (mem s) (user_slot (mem s) d p) AND PG_ADDR_MASK) + of_nat off) =
       mem s ((slot (mem s) (user_slot (mem s) d p) AND PG_ADDR_MASK) + of_nat off)"
  shows "view s' d p off = view s d p off"
  unfolding view_def same_upper_dirs(4) [OF same_tables_upper [OF assms(1)] assms(2,3)]
  by (rule seen_cong) (use same_tables_slot [OF assms(1) slot_in_all [OF assms(2,3)]] assms(4) in auto)

lemma present_frame:
  assumes "spaces_ok s D" "d \<in> D" "p < 1024" "has (slot (mem s) (user_slot (mem s) d p)) PG_PRESENT"
  shows "256 \<le> frame_of (slot (mem s) (user_slot (mem s) d p))"
    "frame_of (slot (mem s) (user_slot (mem s) d p)) < total_frames s"
    "t \<in> all_tables (mem s) D \<Longrightarrow> frame_of (slot (mem s) (user_slot (mem s) d p)) \<noteq> page_no t"
    "frame_refcount s (frame_of (slot (mem s) (user_slot (mem s) d p))) \<noteq> 0"
  using slot_invD(6-8) [OF spaces_okD(2) [OF assms(1)] slot_in_all [OF assms(2,3)] assms(4)]
    refs_count_pos [OF spaces_okD(2) [OF assms(1)] slot_in_all [OF assms(2,3)] assms(4)]
  by auto

lemma writable_only:
  assumes ok: "spaces_ok s D" and d: "d \<in> D" "d' \<in> D" and p: "p < 1024" "p' < 1024"
    and w: "has (slot (mem s) (user_slot (mem s) d p)) PG_PRESENT" "has (slot (mem s) (user_slot (mem s) d p)) PG_WRITABLE"
    and pr: "has (slot (mem s) (user_slot (mem s) d' p')) PG_PRESENT"
    and eq: "frame_of (slot (mem s) (user_slot (mem s) d' p')) = frame_of (slot (mem s) (user_slot (mem s) d p))"
  shows "d' = d \<and> p' = p"
proof -
  have "refs (mem s) (all_slots (mem s) D) (frame_of (slot (mem s) (user_slot (mem s) d p))) = {user_slot (mem s) d p}"
    using slot_invD(10) [OF spaces_okD(2) [OF ok] slot_in_all [OF d(1) p(1)] w] .
  moreover have "user_slot (mem s) d' p' \<in> refs (mem s) (all_slots (mem s) D) (frame_of (slot (mem s) (user_slot (mem s) d p)))"
    using pr eq slot_in_all [OF d(2) p(2)] by (simp add: refs_def)
  ultimately have "user_slot (mem s) d' p' = user_slot (mem s) d p" by simp
  then show ?thesis by (rule user_slot_distinct [OF ok d(2,1) p(2,1)])
qed

lemma store_writable:
  fixes b :: u8
  assumes ok: "spaces_ok s D" and d: "d \<in> D" and p: "p < 1024" and off: "off < 4096"
    and w: "has (slot (mem s) (user_slot (mem s) d p)) PG_PRESENT" "has (slot (mem s) (user_slot (mem s) d p)) PG_WRITABLE"
  defines "s' \<equiv> s\<lparr>mem := (mem s)((slot (mem s) (user_slot (mem s) d p) AND PG_ADDR_MASK) + of_nat off := b)\<rparr>"
  shows "spaces_ok s' D" "same_tables (mem s') (mem s) D"
    "\<And>d' p' o'. d' \<in> D \<Longrightarrow> p' < 1024 \<Longrightarrow> o' < 4096 \<Longrightarrow>
       view s' d' p' o' = (if d' = d \<and> p' = p \<and> o' = off then Some b else view s d' p' o')"
proof -
  let ?e = "slot (mem s) (user_slot (mem s) d p)"
  let ?a = "(?e AND PG_ADDR_MASK) + of_nat off"
  have pg: "page_no ?a = frame_of ?e" using off by (rule frame_bytes)
  show same: "same_tables (mem s') (mem s) D"
    unfolding same_tables_def
  proof (intro ballI allI impI)
    fix t i assume t: "t \<in> all_tables (mem s) D" and i: "i < (512 :: nat)"
    have "page_no ?a \<noteq> page_no t" using present_frame(3) [OF ok d p w(1) t] pg by simp
    then show "entry (mem s') t i = entry (mem s) t i"
      using slot_inv_paged [OF spaces_okD(2) [OF ok] t] i by (simp add: s'_def entry_byte_other)
  qed
  show "spaces_ok s' D"
    using spaces_okD(6) [OF ok]
    by (intro spaces_ok_same_tables [OF ok same]) (simp_all add: s'_def physmem_inv_def free_set_def frame_is_marked_def)
  fix d' p' o' assume d': "d' \<in> D" and p': "p' < (1024 :: nat)" and o': "o' < (4096 :: nat)"
  let ?e' = "slot (mem s) (user_slot (mem s) d' p')"
  show "view s' d' p' o' = (if d' = d \<and> p' = p \<and> o' = off then Some b else view s d' p' o')"
  proof (cases "d' = d \<and> p' = p \<and> o' = off")
    case True
    moreover have "slot (mem s') (user_slot (mem s') d p) = ?e"
      using same_upper_dirs(4) [OF same_tables_upper [OF same] d p] same_tables_slot [OF same slot_in_all [OF d p]] by simp
    ultimately show ?thesis using w by (simp add: view_def seen_def Let_def s'_def)
  next
    case False
    have "?a \<noteq> (?e' AND PG_ADDR_MASK) + of_nat o'" if pr: "has ?e' PG_PRESENT"
    proof
      assume eq: "?a = (?e' AND PG_ADDR_MASK) + of_nat o'"
      then have "frame_of ?e' = frame_of ?e" using pg frame_bytes [OF o', of ?e'] by simp
      then have "d' = d \<and> p' = p" by (rule writable_only [OF ok d d' p p' w pr])
      moreover from this have "off = o'"
        using eq unat_in_page [OF page_addr_paged [OF page_addr_masked [of ?e]]] off o' by (metis add_left_imp_eq)
      ultimately show False using False by simp
    qed
    then have "view s' d' p' o' = view s d' p' o'"
      by (intro same_tables_view [OF same d' p']) (auto simp: s'_def)
    then show ?thesis using False by metis
  qed
qed

section \<open>Resolving a write to a shared page\<close>

text \<open>One entry of a page table changes.\<close>

lemma same_upper_put:
  assumes ok: "spaces_ok s D" and d: "d \<in> D" "p < 1024"
    and m: "\<And>u j. u \<in> all_tables (mem s) D \<Longrightarrow> j < 512 \<Longrightarrow>
       entry m' u j = (if (u, j) = user_slot (mem s) d p then v else entry (mem s) u j)"
  shows "same_upper m' (mem s) D"
    "x \<in> all_slots (mem s) D \<Longrightarrow> slot m' x = (if x = user_slot (mem s) d p then v else slot (mem s) x)"
proof -
  have "u \<noteq> dir_pt (mem s) d (p div 512)" if "e \<in> D" "u \<in> {e, dir_pdpt (mem s) e, dir_pd (mem s) e}" for e u
  proof (cases "e = d")
    case True
    then show ?thesis
      using that spaces_okD(3) [OF ok d(1)] page_div_cases [OF d(2)] by (auto simp: dir_shape_def dir_tables_def)
  next
    case False
    have "u \<in> set (dir_tables (mem s) e)" using that(2) by (auto simp: dir_tables_def)
    moreover have "dir_pt (mem s) d (p div 512) \<in> set (dir_tables (mem s) d)" using d(2) by (intro dir_pt_in) simp
    ultimately show ?thesis using spaces_okD(5) [OF ok that(1) d(1) False] by auto
  qed
  then show "same_upper m' (mem s) D"
    unfolding same_upper_def using m upper_in_all [of _ D _ "mem s"] by (auto simp: user_slot_def)
  show "x \<in> all_slots (mem s) D \<Longrightarrow> slot m' x = (if x = user_slot (mem s) d p then v else slot (mem s) x)"
    using all_slotsD [of x "mem s" D] m by (cases x) (simp add: slot_def)
qed

lemma frame_refcount_one:
  assumes "page_addr a" "256 \<le> page_no a" "page_no a < total_frames s" "physmem_inv s"
  shows "physmem_frame_refcount (ucast a) s = 1 \<longleftrightarrow> frame_refcount s (page_no a) = 1"
proof -
  note u = ucast_page(1) [OF assms(1,3,4)]
  then have "(ucast a :: u32) \<noteq> 0" using assms(2) by auto
  then have "physmem_frame_refcount (ucast a) s = ucast (frame_refcount s (page_no a))"
    using u assms(3) by (simp add: physmem_frame_refcount_def)
  moreover have "(ucast c :: u32) = 1 \<longleftrightarrow> c = 1" for c :: u8
    using unat_u8_less [of c] by (simp add: word_unat_eq_iff unsigned_ucast_eq take_bit_nat_eq_self)
  ultimately show ?thesis by simp
qed

text \<open>The function with the walk done.\<close>

lemma paging_cow_resolve_eq:
  assumes ok: "spaces_ok s D" and d: "d \<in> D" and va: "in_user va"
  defines "pt \<equiv> dir_pt (mem s) d (upage va div 512)" and "i \<equiv> upage va mod 512"
  defines "e \<equiv> entry (mem s) pt i" and "pa \<equiv> va AND NOT (PAGING_PAGE_SIZE - 1)"
  shows "paging_cow_resolve d va s =
    (if \<not> has e PG_PRESENT \<or> \<not> has e PG_COW then (False, s)
     else if frame_refcount s (frame_of e) = 1
     then (True, paging_invalidate_page pa (put_entry pt i ((e AND PG_ADDR_MASK) OR rw_flags) s))
     else let (a, s1) = physmem_alloc_frame s in
          if a = 0 then (False, s1) else (True, paging_invalidate_page pa (replace_frame pt i (ucast a) s1)))"
proof -
  note shape = spaces_okD(3) [OF ok d]
  note pb = page_base [OF va, folded pa_def]
  have p: "upage va < 1024" using va by (rule upage_less)
  have pt: "user_pt_for d pa s = pt" unfolding user_pt_for_shape [OF shape pb(1)] pb(2) pt_def ..
  have "pt \<in> set (dir_tables (mem s) d)" unfolding pt_def using p by (intro dir_pt_in) simp
  then have nz: "pt \<noteq> 0" "d \<noteq> 0" using shape by (auto simp: dir_shape_def dir_tables_def)
  have rng: "\<not> (pa < PAGING_USER_BASE \<or> pa \<ge> PAGING_USER_BASE + PAGING_USER_SIZE)" using pb(1) by (auto simp: in_user_def)
  have ix: "PT_IDX pa = i" unfolding user_indices(4) [OF pb(1)] pb(2) i_def ..
  have e: "slot (mem s) (user_slot (mem s) d (upage va)) = e" by (simp add: slot_def user_slot_def e_def pt_def i_def)
  have fr: "physmem_frame_refcount (ucast (e AND PG_ADDR_MASK)) s = 1 \<longleftrightarrow> frame_refcount s (frame_of e) = 1"
    "(ucast (ucast (e AND PG_ADDR_MASK) :: u32) :: u64) = e AND PG_ADDR_MASK" if "has e PG_PRESENT"
    using that present_frame(1,2) [OF ok d p, unfolded e] spaces_okD(6) [OF ok]
    by (simp_all add: frame_refcount_one ucast_page frame_of_def)
  have mem_al: "mem s1 = mem s" if "physmem_alloc_frame s = (a, s1)" for a s1
  proof (cases "a = 0")
    case True
    then show ?thesis using alloc_none [OF spaces_okD(6) [OF ok]] that by simp
  next
    case False
    from spaces_okD(6) [OF ok] that this show ?thesis by (rule alloc_fresh)
  qed
  show ?thesis
    using nz rng fr mem_al
    unfolding paging_cow_resolve_def Let_def pa_def [symmetric] pt ix e_def [symmetric] flags_assoc replace_frame_def
    by (auto simp flip: e_def split: prod.splits)
qed

text \<open>What a change of one slot to a writable entry keeps, whether the frame is the same or a copy.\<close>

lemma resolved_spaces:
  assumes ok: "spaces_ok s D" and d: "d \<in> D" and p: "p < 1024"
    and pr: "has (slot (mem s) (user_slot (mem s) d p)) PG_PRESENT"
    and inv: "slot_inv s' (all_tables (mem s) D) (all_slots (mem s) D)"
    and b: "page_addr b" "\<And>d' p'. d' \<in> D \<Longrightarrow> p' < 1024 \<Longrightarrow> (d', p') \<noteq> (d, p) \<Longrightarrow>
              has (slot (mem s) (user_slot (mem s) d' p')) PG_PRESENT \<Longrightarrow>
              frame_of (slot (mem s) (user_slot (mem s) d' p')) \<noteq> page_no b"
    and en: "\<And>u j. u \<in> all_tables (mem s) D \<Longrightarrow> j < 512 \<Longrightarrow>
       entry (mem s') u j = (if (u, j) = user_slot (mem s) d p then b OR rw_flags else entry (mem s) u j)"
    and bytes: "\<And>c. page_no c \<notin> page_no ` all_tables (mem s) D \<Longrightarrow> page_no c \<noteq> page_no b \<Longrightarrow> mem s' c = mem s c"
      "\<And>off. off < 4096 \<Longrightarrow> mem s' (b + of_nat off) =
         mem s ((slot (mem s) (user_slot (mem s) d p) AND PG_ADDR_MASK) + of_nat off)"
  shows "spaces_ok s' D" "same_upper (mem s') (mem s) D"
    "\<And>d' p' off. d' \<in> D \<Longrightarrow> p' < 1024 \<Longrightarrow> off < 4096 \<Longrightarrow> view s' d' p' off = view s d' p' off"
    "slot (mem s') (user_slot (mem s') d p) = b OR rw_flags"
proof -
  show upper: "same_upper (mem s') (mem s) D" by (rule same_upper_put(1) [OF ok d p]) (rule en)
  have up: "slot (mem s') x = (if x = user_slot (mem s) d p then b OR rw_flags else slot (mem s) x)"
    if "x \<in> all_slots (mem s) D" for x
    by (rule same_upper_put(2) [OF ok d p _ that]) (rule en)
  have us: "user_slot (mem s') d' p' = user_slot (mem s) d' p'" if "d' \<in> D" "p' < 1024" for d' p'
    using same_upper_dirs(4) [OF upper that] .
  have sl: "slot (mem s') (user_slot (mem s) d' p') =
      (if (d', p') = (d, p) then b OR rw_flags else slot (mem s) (user_slot (mem s) d' p'))" if "d' \<in> D" "p' < 1024" for d' p'
    using up [OF slot_in_all [OF that]] user_slot_distinct [OF ok that(1) d that(2) p] by auto
  show "slot (mem s') (user_slot (mem s') d p) = b OR rw_flags" using sl [OF d p] us [OF d p] by simp
  have "own_frames (mem s') d'" if d': "d' \<in> D" for d'
    unfolding own_frames_def
  proof (intro allI impI)
    fix q r assume q: "q < 1024" and r: "r < 1024"
      and prs: "has (slot (mem s') (user_slot (mem s') d' q)) PG_PRESENT" "has (slot (mem s') (user_slot (mem s') d' r)) PG_PRESENT"
      and eq: "frame_of (slot (mem s') (user_slot (mem s') d' q)) = frame_of (slot (mem s') (user_slot (mem s') d' r))"
    have fb: "frame_of (b OR rw_flags) = page_no b" using b(1) by (simp add: frame_of_def)
    note eq = prs [unfolded us [OF d' q] us [OF d' r]] eq [unfolded us [OF d' q] us [OF d' r]]
    show "q = r"
    proof (cases "(d', q) = (d, p) \<or> (d', r) = (d, p)")
      case True
      then show ?thesis
        using eq sl [OF d' q] sl [OF d' r] b(2) [OF d' q] b(2) [OF d' r] fb by (cases "q = r") auto
    next
      case False
      then have "slot (mem s') (user_slot (mem s) d' q) = slot (mem s) (user_slot (mem s) d' q)"
        "slot (mem s') (user_slot (mem s) d' r) = slot (mem s) (user_slot (mem s) d' r)"
        using sl [OF d' q] sl [OF d' r] by argo+
      then show ?thesis using eq spaces_okD(4) [OF ok d'] q r unfolding own_frames_def by simp
    qed
  qed
  then show "spaces_ok s' D" by (rule spaces_okI [OF ok upper inv])
  fix d' p' off assume d': "d' \<in> D" and p': "p' < (1024 :: nat)" and off: "off < (4096 :: nat)"
  let ?e = "slot (mem s) (user_slot (mem s) d' p')"
  show "view s' d' p' off = view s d' p' off"
  proof (cases "(d', p') = (d, p)")
    case True
    then show ?thesis using sl [OF d p] us [OF d p] pr b(1) bytes(2) [OF off] by (simp add: view_def seen_def)
  next
    case False
    have "mem s' ((?e AND PG_ADDR_MASK) + of_nat off) = mem s ((?e AND PG_ADDR_MASK) + of_nat off)" if "has ?e PG_PRESENT"
      using bytes(1) [of "(?e AND PG_ADDR_MASK) + of_nat off"] frame_bytes [OF off, of ?e]
        present_frame(3) [OF ok d' p' that] b(2) [OF d' p' False that] by (auto simp: image_iff)
    then show ?thesis unfolding view_def us [OF d' p'] using sl [OF d' p'] False by (intro seen_cong) auto
  qed
qed

text \<open>The two ways in which a fault is resolved.\<close>

lemma resolve_sole:
  fixes s :: "'a paging_st_scheme" and va :: u64
  assumes ok: "spaces_ok s D" and d: "d \<in> D" and p: "p < 1024" and x: "user_slot (mem s) d p = (pt, i)"
    and pr: "has (entry (mem s) pt i) PG_PRESENT" and one: "frame_refcount s (frame_of (entry (mem s) pt i)) = 1"
  defines "b \<equiv> entry (mem s) pt i AND PG_ADDR_MASK"
  defines "s' \<equiv> paging_invalidate_page va (put_entry pt i (b OR rw_flags) s)"
  shows "spaces_ok s' D" "same_upper (mem s') (mem s) D"
    "\<And>d' p' off. d' \<in> D \<Longrightarrow> p' < 1024 \<Longrightarrow> off < 4096 \<Longrightarrow> view s' d' p' off = view s d' p' off"
    "slot (mem s') (user_slot (mem s') d p) = b OR rw_flags"
proof -
  note inv = spaces_okD(2) [OF ok]
  have e: "slot (mem s) (pt, i) = entry (mem s) pt i" by (simp add: slot_def)
  have xS: "(pt, i) \<in> all_slots (mem s) D" using slot_in_all [OF d p, of "mem s"] x by simp
  note K = all_slotsD [OF xS, simplified]
  have pr': "has (slot (mem s) (user_slot (mem s) d p)) PG_PRESENT" using pr by (simp add: x e)
  have pb: "page_addr b" "page_no b = frame_of (entry (mem s) pt i)" by (simp_all add: b_def frame_of_def)
  have "slot_inv (put_entry pt i (b OR rw_flags) s) (all_tables (mem s) D) (all_slots (mem s) D)"
    using slot_inv_sole_write [OF inv xS] pr one by (simp add: e b_def)
  then have inv': "slot_inv s' (all_tables (mem s) D) (all_slots (mem s) D)"
    by (rule slot_inv_cong) (use spaces_okD(6) [OF ok] in \<open>simp_all add: s'_def\<close>)
  have other: "frame_of (slot (mem s) (user_slot (mem s) d' p')) \<noteq> page_no b"
    if "d' \<in> D" "p' < 1024" "(d', p') \<noteq> (d, p)" "has (slot (mem s) (user_slot (mem s) d' p')) PG_PRESENT" for d' p'
  proof
    assume "frame_of (slot (mem s) (user_slot (mem s) d' p')) = page_no b"
    then have "user_slot (mem s) d' p' \<in> refs (mem s) (all_slots (mem s) D) (page_no b)"
      using slot_in_all [OF that(1,2)] that(4) by (simp add: refs_def)
    then have "user_slot (mem s) d' p' = user_slot (mem s) d p"
      using sole_ref [OF inv xS] pr one by (simp add: e pb x)
    then show False using user_slot_distinct [OF ok that(1) d that(2) p] that(3) by simp
  qed
  have en: "entry (mem s') u j = (if (u, j) = user_slot (mem s) d p then b OR rw_flags else entry (mem s) u j)"
    if "u \<in> all_tables (mem s) D" "j < 512" for u j
    using that K slot_inv_paged [OF inv] by (simp add: s'_def x)
  have by1: "mem s' c = mem s c" if "page_no c \<notin> page_no ` all_tables (mem s) D" for c
    using mem_put_outside [OF inv _ _ that] K by (simp add: s'_def)
  have by2: "mem s' (b + of_nat off) = mem s ((slot (mem s) (user_slot (mem s) d p) AND PG_ADDR_MASK) + of_nat off)"
    if "off < 4096" for off
    using by1 [of "b + of_nat off"] frame_bytes [OF that, of "entry (mem s) pt i"] slot_invD(8) [OF inv xS] pr
    by (simp add: x e b_def)
  show "spaces_ok s' D" "same_upper (mem s') (mem s) D"
    "\<And>d' p' off. d' \<in> D \<Longrightarrow> p' < 1024 \<Longrightarrow> off < 4096 \<Longrightarrow> view s' d' p' off = view s d' p' off"
    "slot (mem s') (user_slot (mem s') d p) = b OR rw_flags"
    by (rule resolved_spaces [OF ok d p pr' inv' pb(1) other en by1 by2]; assumption)+
qed

lemma resolve_copy:
  fixes s :: "'a paging_st_scheme" and va :: u64
  assumes ok: "spaces_ok s D" and d: "d \<in> D" and p: "p < 1024" and x: "user_slot (mem s) d p = (pt, i)"
    and pr: "has (entry (mem s) pt i) PG_PRESENT" and al: "physmem_alloc_frame s = (a, s1)" "a \<noteq> 0"
  defines "s' \<equiv> paging_invalidate_page va (replace_frame pt i (ucast a) s1)"
  shows "page_addr (ucast a)" "spaces_ok s' D" "same_upper (mem s') (mem s) D"
    "\<And>d' p' off. d' \<in> D \<Longrightarrow> p' < 1024 \<Longrightarrow> off < 4096 \<Longrightarrow> view s' d' p' off = view s d' p' off"
    "slot (mem s') (user_slot (mem s') d p) = ucast a OR rw_flags"
proof -
  let ?b = "ucast a :: u64" and ?K = "all_tables (mem s) D" and ?S = "all_slots (mem s) D"
  note inv = spaces_okD(2) [OF ok]
  have e: "slot (mem s) (pt, i) = entry (mem s) pt i" by (simp add: slot_def)
  have xS: "(pt, i) \<in> ?S" using slot_in_all [OF d p, of "mem s"] x by simp
  have pr': "has (slot (mem s) (user_slot (mem s) d p)) PG_PRESENT" using pr by (simp add: x e)
  from spaces_okD(6) [OF ok] al have fr: "page_addr ?b" "256 \<le> page_no ?b" "page_no ?b < total_frames s"
    "frame_refcount s1 = (frame_refcount s)(page_no ?b := 1)" "physmem_inv s1" "mem s1 = mem s" "same_dirs s1 s"
    by (rule alloc_fresh; blast)+
  note nt = slot_inv_new_table [OF inv al]
  have inv1: "slot_inv s1 ?K ?S" by (rule slot_inv_subset [OF nt(1)]) (use all_slotsD in auto)
  have pr1: "has (entry (mem s1) pt i) PG_PRESENT" using pr by (simp add: fr(6))
  have bo: "page_no ?b \<noteq> frame_of (entry (mem s1) pt i)" using nt(4) [OF xS] pr by (simp add: fr(6) e)
  note rm = replace_frame_mem [OF inv1 xS pr1 fr(1) nt(3) bo, unfolded fr(6)]
  have "slot_inv (replace_frame pt i ?b s1) ?K ?S"
    using fr nt(3,4) by (intro replace_frame_inv [OF inv1 xS pr1]) (auto simp: same_dirs_def)
  then have inv': "slot_inv s' ?K ?S"
    by (rule slot_inv_cong) (use slot_invD(1) [OF \<open>slot_inv (replace_frame pt i ?b s1) ?K ?S\<close>] in \<open>simp_all add: s'_def\<close>)
  have other: "frame_of (slot (mem s) (user_slot (mem s) d' p')) \<noteq> page_no ?b"
    if "d' \<in> D" "p' < 1024" "(d', p') \<noteq> (d, p)" "has (slot (mem s) (user_slot (mem s) d' p')) PG_PRESENT" for d' p'
    using nt(4) [OF slot_in_all [OF that(1,2)] that(4)] .
  have en: "entry (mem s') u j = (if (u, j) = user_slot (mem s) d p then ?b OR rw_flags else entry (mem s) u j)"
    if "u \<in> ?K" "j < 512" for u j
    using rm(1) [OF that] by (simp add: s'_def x)
  have by1: "mem s' c = mem s c" if "page_no c \<notin> page_no ` ?K" "page_no c \<noteq> page_no ?b" for c
    using rm(2) [OF that] by (simp add: s'_def)
  have by2: "mem s' (?b + of_nat off) = mem s ((slot (mem s) (user_slot (mem s) d p) AND PG_ADDR_MASK) + of_nat off)"
    if "off < 4096" for off
    using rm(3) [OF that] by (simp add: s'_def x e)
  show "page_addr ?b" by (rule fr(1))
  show "spaces_ok s' D" "same_upper (mem s') (mem s) D"
    "\<And>d' p' off. d' \<in> D \<Longrightarrow> p' < 1024 \<Longrightarrow> off < 4096 \<Longrightarrow> view s' d' p' off = view s d' p' off"
    "slot (mem s') (user_slot (mem s') d p) = ?b OR rw_flags"
    by (rule resolved_spaces [OF ok d p pr' inv' fr(1) other en by1 by2]; assumption)+
qed

lemma resolve_spec:
  assumes ok: "spaces_ok s D" and d: "d \<in> D" and va: "in_user va" and r: "paging_cow_resolve d va s = (r, s')"
  shows "spaces_ok s' D" "same_upper (mem s') (mem s) D" "\<not> r \<Longrightarrow> s' = s"
    "d' \<in> D \<Longrightarrow> p < 1024 \<Longrightarrow> off < 4096 \<Longrightarrow> view s' d' p off = view s d' p off"
    "r \<Longrightarrow> \<exists>b. page_addr b \<and> slot (mem s') (user_slot (mem s') d (upage va)) = b OR rw_flags"
proof -
  let ?pt = "dir_pt (mem s) d (upage va div 512)" and ?i = "upage va mod 512"
  have p: "upage va < 1024" using va by (rule upage_less)
  have x: "user_slot (mem s) d (upage va) = (?pt, ?i)" by (simp add: user_slot_def)
  note eq = paging_cow_resolve_eq [OF ok d va, unfolded r]
  have "spaces_ok s' D \<and> same_upper (mem s') (mem s) D \<and> (\<not> r \<longrightarrow> s' = s) \<and>
      (\<forall>d' \<in> D. \<forall>p < 1024. \<forall>off < 4096. view s' d' p off = view s d' p off) \<and>
      (r \<longrightarrow> (\<exists>b. page_addr b \<and> slot (mem s') (user_slot (mem s') d (upage va)) = b OR rw_flags))"
  proof (cases r)
    case False
    then have "s' = s" using eq alloc_none [OF spaces_okD(6) [OF ok]] by (auto split: if_splits prod.splits)
    then show ?thesis using ok False by (simp add: same_upper_def)
  next
    case True
    then have pr: "has (entry (mem s) ?pt ?i) PG_PRESENT" using eq by (auto split: if_splits)
    show ?thesis
    proof (cases "frame_refcount s (frame_of (entry (mem s) ?pt ?i)) = 1")
      case one: True
      note sole = resolve_sole [OF ok d p x pr one, where va = "va AND NOT (PAGING_PAGE_SIZE - 1)"]
      have s': "s' = paging_invalidate_page (va AND NOT (PAGING_PAGE_SIZE - 1))
          (put_entry ?pt ?i ((entry (mem s) ?pt ?i AND PG_ADDR_MASK) OR rw_flags) s)"
        using eq one True by (simp split: if_splits)
      show ?thesis unfolding s' using sole True page_addr_masked by blast
    next
      case False
      obtain a s1 where al: "physmem_alloc_frame s = (a, s1)" by fastforce
      then have a: "a \<noteq> 0" and s': "s' = paging_invalidate_page (va AND NOT (PAGING_PAGE_SIZE - 1)) (replace_frame ?pt ?i (ucast a) s1)"
        using eq False True by (auto split: if_splits)
      show ?thesis unfolding s' using resolve_copy(1) [OF ok d p x pr al a] True
          resolve_copy(2-5) [OF ok d p x pr al a, where va = "va AND NOT (PAGING_PAGE_SIZE - 1)"] by blast
    qed
  qed
  then show "spaces_ok s' D" "same_upper (mem s') (mem s) D" "\<not> r \<Longrightarrow> s' = s"
    "d' \<in> D \<Longrightarrow> p < 1024 \<Longrightarrow> off < 4096 \<Longrightarrow> view s' d' p off = view s d' p off"
    "r \<Longrightarrow> \<exists>b. page_addr b \<and> slot (mem s') (user_slot (mem s') d (upage va)) = b OR rw_flags"
    by blast+
qed

lemma user_store_spec:
  assumes ok: "spaces_ok s D" and d: "d \<in> D" and va: "in_user va" and st: "user_store d va b s = Some s'"
  shows "spaces_ok s' D \<and> same_upper (mem s') (mem s) D \<and>
    (\<forall>d' \<in> D. \<forall>p < 1024. \<forall>off < 4096.
       view s' d' p off = (if d' = d \<and> p = upage va \<and> off = unat va mod 4096 then Some b else view s d' p off))"
proof -
  have p: "upage va < 1024" using va by (rule upage_less)
  have off: "unat va mod 4096 < 4096" by simp
  have store: "spaces_ok s' D \<and> same_tables (mem s') (mem t) D \<and> (\<forall>d' \<in> D. \<forall>p < 1024. \<forall>off < 4096.
       view s' d' p off = (if d' = d \<and> p = upage va \<and> off = unat va mod 4096 then Some b else view t d' p off))"
    if at: "user_store_attempt d va b t = Inr s'" and t: "spaces_ok t D" for t
  proof -
    let ?e = "slot (mem t) (user_slot (mem t) d (upage va))"
    have w: "has ?e PG_PRESENT" "has ?e PG_WRITABLE"
      and s': "s' = t\<lparr>mem := (mem t)((?e AND PG_ADDR_MASK) + of_nat (unat va mod 4096) := b)\<rparr>"
      using at user_store_attempt_eq [OF spaces_okD(3) [OF t d] va, of b] by (auto split: if_splits)
    show ?thesis unfolding s' using store_writable [OF t d p off w, where b = b] by blast
  qed
  show ?thesis
  proof (cases "user_store_attempt d va b s")
    case (Inr t)
    then show ?thesis using st store [OF _ ok] same_tables_upper by (auto simp: user_store_def)
  next
    case (Inl code)
    then obtain t where t: "paging_cow_resolve d va s = (True, t)" "user_store_attempt d va b t = Inr s'"
      using st by (auto simp: user_store_def user_page_fault_def split: if_splits prod.splits bool.splits sum.splits)
    note rs = resolve_spec [OF ok d va t(1)]
    have "same_upper (mem s') (mem s) D"
      using store [OF t(2) rs(1)] rs(2) upper_in_all [of _ D _ "mem t"] same_upper_dirs [OF rs(2)]
      by (auto simp: same_upper_def same_tables_def dir_tables_def)
    then show ?thesis using store [OF t(2) rs(1)] rs(4) by auto
  qed
qed

section \<open>Cloning a directory\<close>

lemma cow_link_spec:
  fixes s :: "'a paging_st_scheme"
  assumes pg: "paged a1" "paged a2" "paged a3" "paged d" "paged pdpt" "paged pd"
    and ne: "distinct [a1, a2, a3, d, pdpt, pd]"
  defines "t \<equiv> cow_link a1 a2 a3 d pdpt pd s"
  shows "paged u \<Longrightarrow> j < 512 \<Longrightarrow> entry (mem t) u j =
      (if u = a1 then (if j = 0 then a2 OR rw_flags else entry (mem s) d j)
       else if u = a2 then (if j = 0 then a3 OR rw_flags else entry (mem s) pdpt j)
       else if u = a3 then entry (mem s) pd j else entry (mem s) u j)"
    "page_no a \<noteq> page_no a1 \<Longrightarrow> page_no a \<noteq> page_no a2 \<Longrightarrow> page_no a \<noteq> page_no a3 \<Longrightarrow> mem t a = mem s a"
    "only_mem t s"
proof -
  have ne': "a1 \<noteq> d" "a2 \<noteq> pdpt" "a3 \<noteq> pd" "a1 \<noteq> a2" "a1 \<noteq> a3" "a2 \<noteq> a3" "pdpt \<noteq> a1" "pd \<noteq> a1" "pd \<noteq> a2" using ne by auto
  note c1 = copy_table_spec [OF pg(1,4) ne'(1)] and c2 = copy_table_spec [OF pg(2,5) ne'(2)]
    and c3 = copy_table_spec [OF pg(3,6) ne'(3)]
  show "paged u \<Longrightarrow> j < 512 \<Longrightarrow> entry (mem t) u j =
      (if u = a1 then (if j = 0 then a2 OR rw_flags else entry (mem s) d j)
       else if u = a2 then (if j = 0 then a3 OR rw_flags else entry (mem s) pdpt j)
       else if u = a3 then entry (mem s) pd j else entry (mem s) u j)"
    unfolding t_def cow_link_def Let_def flags_assoc using pg ne' by (simp add: c1(1) c2(1) c3(1))
  show "page_no a \<noteq> page_no a1 \<Longrightarrow> page_no a \<noteq> page_no a2 \<Longrightarrow> page_no a \<noteq> page_no a3 \<Longrightarrow> mem t a = mem s a"
    unfolding t_def cow_link_def Let_def flags_assoc using pg by (simp add: c1(2) c2(2) c3(2) mem_put_other)
  show "only_mem t s"
    unfolding t_def cow_link_def Let_def by (meson c1(3) c2(3) c3(3) only_mem_put only_mem_trans)
qed

text \<open>One round of the loop over the two tables, when its table is allocated.\<close>

definition clone_round :: "u64 \<Rightarrow> u64 \<Rightarrow> u64 \<Rightarrow> nat \<Rightarrow> u64 \<Rightarrow> 'a paging_st_scheme \<Rightarrow> 'a paging_st_scheme" where
  "clone_round d ppt npd ti c s =
     put_entry npd (8 + ti) (c OR rw_flags) (fold (cow_share_page d ppt c ti) [0..<512] s)"

lemma clone_round_mem:
  fixes s :: "'a paging_st_scheme" and d :: u64
  assumes "ti < 2" "paged ppt" "paged c" "ppt \<noteq> c" "paged npd" "npd \<noteq> ppt" "npd \<noteq> c"
  defines "t \<equiv> clone_round d ppt npd ti c s"
  shows "paged u \<Longrightarrow> j < 512 \<Longrightarrow> entry (mem t) u j =
      (if u = npd \<and> j = 8 + ti then c OR rw_flags
       else if u = ppt then cow_parent (ti * 512 + j) (entry (mem s) u j)
       else if u = c then cow_child (ti * 512 + j) (entry (mem s) ppt j) else entry (mem s) u j)"
    "page_no a \<noteq> page_no ppt \<Longrightarrow> page_no a \<noteq> page_no c \<Longrightarrow> page_no a \<noteq> page_no npd \<Longrightarrow> mem t a = mem s a"
    "same_dirs t s"
proof -
  note sl = cow_share_loop_slots [OF assms(1-4) order_refl, where d = d and s = s]
  have k: "8 + ti < 512" using assms(1) by simp
  have "paged u \<Longrightarrow> j < 512 \<Longrightarrow> entry (mem (fold (cow_share_page d ppt c ti) [0..<512] s)) u j =
      (if u = ppt then cow_parent (ti * 512 + j) (entry (mem s) u j)
       else if u = c then cow_child (ti * 512 + j) (entry (mem s) ppt j) else entry (mem s) u j)"
    using sl(1) [of "(u, j)"] unfolding slot_def shared_slot_def fst_conv snd_conv by simp
  then show "paged u \<Longrightarrow> j < 512 \<Longrightarrow> entry (mem t) u j =
      (if u = npd \<and> j = 8 + ti then c OR rw_flags
       else if u = ppt then cow_parent (ti * 512 + j) (entry (mem s) u j)
       else if u = c then cow_child (ti * 512 + j) (entry (mem s) ppt j) else entry (mem s) u j)"
    using k assms(5) unfolding t_def clone_round_def by (simp only: entry_put if_True)
  show "page_no a \<noteq> page_no ppt \<Longrightarrow> page_no a \<noteq> page_no c \<Longrightarrow> page_no a \<noteq> page_no npd \<Longrightarrow> mem t a = mem s a"
    using sl(2) [of a] k assms(5) by (simp add: t_def clone_round_def mem_put_other)
  show "same_dirs t s"
    using same_dirs_trans [OF only_memD(1) [OF only_mem_put] sl(3)] by (simp add: t_def clone_round_def)
qed

lemma clone_round_inv:
  fixes s :: "'a paging_st_scheme" and d :: u64
  assumes inv: "slot_inv s K S" and x: "\<And>i. i < 512 \<Longrightarrow> (ppt, i) \<in> S" and c: "c \<in> K" "\<And>i. (c, i) \<notin> S"
    and npd: "npd \<in> K" "\<And>i. (npd, i) \<notin> S" "npd \<noteq> c" and ti: "ti < 2" and lim: "share_limit s ppt ti"
  defines "t \<equiv> clone_round d ppt npd ti c s"
  shows "slot_inv t K (S \<union> {c} \<times> {0..<512})"
    "\<And>f. unat (frame_refcount t f) = unat (frame_refcount s f) + (if f \<in> shared_frames (mem s) ppt ti 512 then 1 else 0)"
proof -
  let ?u = "fold (cow_share_page d ppt c ti) [0..<512] s"
  note lp = cow_share_loop_inv [OF inv x c(2,1) ti lim order_refl, where d = d]
  have k: "8 + ti < 512" using ti by simp
  show "unat (frame_refcount t f) = unat (frame_refcount s f) + (if f \<in> shared_frames (mem s) ppt ti 512 then 1 else 0)" for f
    using lp(2) [of f] by (simp add: t_def clone_round_def)
  have "(npd, 8 + ti) \<notin> S \<union> {c} \<times> {0..<512}" using npd by auto
  then have "slot (mem t) z = slot (mem ?u) z" if "z \<in> S \<union> {c} \<times> {0..<512}" for z
    using slot_inv_slot_put [OF lp(1) npd(1) k that] that by (auto simp: t_def clone_round_def)
  then show "slot_inv t K (S \<union> {c} \<times> {0..<512})"
    by (intro slot_inv_cong [OF lp(1)]) (use slot_invD(1) [OF lp(1)] in \<open>simp_all add: t_def clone_round_def\<close>)
qed

text \<open>The result of the loop over both tables.\<close>

lemma alloc_mem:
  assumes "physmem_inv s" "physmem_alloc_frame s = (a, s')"
  shows "mem s' = mem s" "same_dirs s' s" "physmem_inv s'"
proof -
  have "mem s' = mem s \<and> same_dirs s' s \<and> physmem_inv s'"
  proof (cases "a = 0")
    case True
    then show ?thesis using alloc_none [OF assms(1)] assms by simp
  next
    case False
    from assms this show ?thesis by (rule alloc_fresh) blast
  qed
  then show "mem s' = mem s" "same_dirs s' s" "physmem_inv s'" by auto
qed

lemma cow_clone_tables_eq:
  fixes s :: "'a paging_st_scheme"
  assumes shape: "table_ref (entry (mem s) pd 8)"
    and e9: "\<And>a s1 b s2. physmem_alloc_frame s = (a, s1) \<Longrightarrow> a \<noteq> 0 \<Longrightarrow>
        physmem_alloc_frame (clone_round d pt0 (ucast c3) 0 (ucast a) s1) = (b, s2) \<Longrightarrow> table_ref (entry (mem s) pd 9) \<and>
        entry (mem (clone_round d pt0 (ucast c3) 0 (ucast a) s1)) pd 9 = entry (mem s) pd 9"
    and pt: "pt0 = phys_to_virt (entry (mem s) pd 8)" "pt1 = phys_to_virt (entry (mem s) pd 9)"
  shows "cow_clone_tables d pd (c1, c2, c3) [0..<USER_PD_COUNT] s =
    (let (a, s1) = physmem_alloc_frame s in
     if a = 0 then (False, cow_cleanup (ucast c3) c1 c2 c3 0 s1)
     else let (b, s2) = physmem_alloc_frame (clone_round d pt0 (ucast c3) 0 (ucast a) s1) in
          if b = 0 then (False, cow_cleanup (ucast c3) c1 c2 c3 1 s2)
          else (True, clone_round d pt1 (ucast c3) 1 (ucast b) s2))"
proof -
  have start: "USER_PD_START = 8" by (simp add: USER_PD_START_def PAGING_USER_BASE_def)
  have list: "[0..<USER_PD_COUNT] = [0, 1]" by (simp add: USER_PD_COUNT_def upt_rec)
  obtain a s1 where al: "physmem_alloc_frame s = (a, s1)" by fastforce
  let ?t = "clone_round d pt0 (ucast c3) 0 (ucast a) s1"
  obtain b s2 where bl: "physmem_alloc_frame ?t = (b, s2)" by fastforce
  have rd: "put_entry (ucast c3) (8 + ti) (c OR rw_flags) (fold (cow_share_page d ppt c ti) [0..<ENTRIES_PER_TABLE] s)
      = clone_round d ppt (ucast c3) ti c s" for ppt c ti and s :: "'a paging_st_scheme"
    by (simp add: clone_round_def ENTRIES_PER_TABLE_def)
  have "a \<noteq> 0 \<Longrightarrow> cow_clone_tables d pd (c1, c2, c3) [1] ?t =
     (if b = 0 then (False, cow_cleanup (ucast c3) c1 c2 c3 1 s2) else (True, clone_round d pt1 (ucast c3) 1 (ucast b) s2))"
    using e9 [OF al _ bl] by (simp add: start flags_assoc Let_def table_ref_def bl pt(2) rd [of 1, simplified])
  moreover have "cow_clone_tables d pd (c1, c2, c3) (0 # [1]) s =
     (if a = 0 then (False, cow_cleanup (ucast c3) c1 c2 c3 0 s1) else cow_clone_tables d pd (c1, c2, c3) [1] ?t)"
    using shape unfolding cow_clone_tables.simps(2) [of d pd _ 0 "[1]"]
    by (simp add: start flags_assoc Let_def table_ref_def al pt(1) rd [of 0, simplified] del: cow_clone_tables.simps)
  ultimately show ?thesis by (simp add: list al bl del: cow_clone_tables.simps)
qed

lemma round_step:
  fixes s :: "'a paging_st_scheme" and d :: u64
  assumes inv: "slot_inv s K S" and x: "\<And>i. i < 512 \<Longrightarrow> (ppt, i) \<in> S" and npd: "npd \<in> K" "\<And>i. (npd, i) \<notin> S"
    and ti: "ti < 2" and lim: "share_limit s ppt ti" and al: "physmem_alloc_frame s = (k, s1)" "k \<noteq> 0"
  defines "c \<equiv> ucast k :: u64"
  defines "t \<equiv> clone_round d ppt npd ti c s1"
  shows "slot_inv t (insert c K) (S \<union> {c} \<times> {0..<512})"
    "c \<notin> K" "page_addr c" "page_no c \<notin> page_no ` K" "c \<noteq> 0"
    "\<And>z. z \<in> S \<Longrightarrow> has (slot (mem s) z) PG_PRESENT \<Longrightarrow> frame_of (slot (mem s) z) \<noteq> page_no c"
    "\<And>u j. u \<in> insert c K \<Longrightarrow> j < 512 \<Longrightarrow> entry (mem t) u j =
      (if u = npd \<and> j = 8 + ti then c OR rw_flags
       else if u = ppt then cow_parent (ti * 512 + j) (entry (mem s) u j)
       else if u = c then cow_child (ti * 512 + j) (entry (mem s) ppt j) else entry (mem s) u j)"
    "\<And>a. page_no a \<notin> page_no ` insert c K \<Longrightarrow> mem t a = mem s a"
    "\<And>f. f \<noteq> page_no c \<Longrightarrow> unat (frame_refcount t f) =
       unat (frame_refcount s f) + (if f \<in> shared_frames (mem s) ppt ti 512 then 1 else 0)"
    "same_dirs t s"
proof -
  from slot_invD(1) [OF inv] al have fr: "page_addr c" "256 \<le> page_no c"
    "frame_refcount s1 = (frame_refcount s)(page_no c := 1)" "mem s1 = mem s" "same_dirs s1 s"
    unfolding c_def by (rule alloc_fresh; blast)+
  note nt = slot_inv_new_table [OF inv al, folded c_def]
  show "c \<notin> K" "page_addr c" "page_no c \<notin> page_no ` K" by (fact nt(2) fr(1) nt(3))+
  show nz: "c \<noteq> 0" using fr(2) by (auto simp: page_no_def)
  show fresh: "\<And>z. z \<in> S \<Longrightarrow> has (slot (mem s) z) PG_PRESENT \<Longrightarrow> frame_of (slot (mem s) z) \<noteq> page_no c" by (fact nt(4))
  have K: "ppt \<in> K" "(c, i) \<notin> S" "npd \<noteq> c" "ppt \<noteq> c" "npd \<noteq> ppt" for i
    using slot_invD(3) [OF inv x [of 0]] slot_invD(3) [OF inv, of "(c, i)"] nt(2) npd x [of 0] by auto
  have pg: "paged u" if "u \<in> insert c K" for u using slot_inv_paged [OF nt(1) that] .
  have lim1: "share_limit s1 ppt ti"
  proof -
    have "frame_of (entry (mem s) ppt i) \<noteq> page_no c" if "i < 512" "shares (ti * 512 + i) (entry (mem s) ppt i)" for i
      using fresh [OF x [OF that(1)]] that(2) by (simp add: slot_def shares_def)
    then show ?thesis using lim fr(3,4) by (auto simp: share_limit_def)
  qed
  note rm = clone_round_mem [OF ti pg [of ppt] pg [of c] K(4) pg [of npd] K(5,3), where d = d and s = s1, folded t_def, unfolded fr(4)]
  note ri = clone_round_inv [OF nt(1) x _ K(2) _ npd(2) K(3) ti lim1, where d = d, folded t_def, unfolded fr(4)]
  show "slot_inv t (insert c K) (S \<union> {c} \<times> {0..<512})" by (rule ri(1)) (use npd(1) in auto)
  show "entry (mem t) u j = (if u = npd \<and> j = 8 + ti then c OR rw_flags
       else if u = ppt then cow_parent (ti * 512 + j) (entry (mem s) u j)
       else if u = c then cow_child (ti * 512 + j) (entry (mem s) ppt j) else entry (mem s) u j)"
    if "u \<in> insert c K" "j < 512" for u j
    by (rule rm(1)) (use that K(1) npd(1) pg in auto)
  show "mem t a = mem s a" if "page_no a \<notin> page_no ` insert c K" for a
    by (rule rm(2)) (use that K(1) npd(1) pg in auto)
  show "unat (frame_refcount t f) = unat (frame_refcount s f) + (if f \<in> shared_frames (mem s) ppt ti 512 then 1 else 0)"
    if "f \<noteq> page_no c" for f
    using ri(2) [of f] npd(1) that fr(3) by auto
  show "same_dirs t s" by (rule same_dirs_trans [OF rm(3) fr(5)]) (use K(1) npd(1) pg in auto)
qed

text \<open>The three upper tables of the child.\<close>

lemma clone_linked:
  fixes s s3 :: "'a paging_st_scheme"
  assumes ok: "spaces_ok s D" and d: "d \<in> D"
    and inv: "slot_inv s3 ({a1, a2, a3} \<union> all_tables (mem s) D) (all_slots (mem s) D)" and m3: "mem s3 = mem s"
    and dist: "distinct [a1, a2, a3]" and disj: "{a1, a2, a3} \<inter> all_tables (mem s) D = {}"
  defines "t \<equiv> cow_link a1 a2 a3 d (dir_pdpt (mem s) d) (dir_pd (mem s) d) s3" and "K \<equiv> all_tables (mem s) D"
  shows "slot_inv t ({a1, a2, a3} \<union> K) (all_slots (mem s) D)"
    "\<And>u j. u \<in> K \<Longrightarrow> j < 512 \<Longrightarrow> entry (mem t) u j = entry (mem s) u j"
    "entry (mem t) a1 0 = a2 OR rw_flags" "entry (mem t) a2 0 = a3 OR rw_flags"
    "\<And>j. j < 512 \<Longrightarrow> entry (mem t) a3 j = entry (mem s) (dir_pd (mem s) d) j"
    "\<And>a. page_no a \<notin> page_no ` {a1, a2, a3} \<Longrightarrow> mem t a = mem s a" "only_mem t s3"
proof -
  let ?S = "all_slots (mem s) D"
  have up: "d \<in> K" "dir_pdpt (mem s) d \<in> K" "dir_pd (mem s) d \<in> K"
    using d by (auto simp: K_def all_tables_def dir_tables_def)
  have "distinct [d, dir_pdpt (mem s) d, dir_pd (mem s) d]"
    using spaces_okD(3) [OF ok d] by (simp add: dir_shape_def dir_tables_def)
  then have ne: "distinct [a1, a2, a3, d, dir_pdpt (mem s) d, dir_pd (mem s) d]"
    using dist disj up unfolding K_def by auto
  have pgK: "paged u" if "u \<in> {a1, a2, a3} \<union> K" for u using slot_inv_paged [OF inv] that unfolding K_def .
  note ls = cow_link_spec [OF pgK pgK pgK pgK pgK pgK ne, where s = s3, folded t_def, unfolded m3]
  have en: "entry (mem t) u j = (if u = a1 then (if j = 0 then a2 OR rw_flags else entry (mem s) d j)
       else if u = a2 then (if j = 0 then a3 OR rw_flags else entry (mem s) (dir_pdpt (mem s) d) j)
       else if u = a3 then entry (mem s) (dir_pd (mem s) d) j else entry (mem s) u j)" if "u \<in> {a1, a2, a3} \<union> K" "j < 512" for u j
    by (rule ls(1)) (use up that pgK in auto)
  show eK: "entry (mem t) u j = entry (mem s) u j" if "u \<in> K" "j < 512" for u j
    using en [of u j] that disj unfolding K_def by auto
  show "entry (mem t) a1 0 = a2 OR rw_flags" "entry (mem t) a2 0 = a3 OR rw_flags"
    using en [of _ 0] dist by auto
  show "entry (mem t) a3 j = entry (mem s) (dir_pd (mem s) d) j" if "j < 512" for j
    using en [of a3 j] that dist by auto
  show om: "only_mem t s3" by (rule ls(3)) (use up in auto)
  show "mem t a = mem s a" if "page_no a \<notin> page_no ` {a1, a2, a3}" for a
    by (rule ls(2)) (use up that in auto)
  have "slot (mem t) z = slot (mem s3) z" if "z \<in> ?S" for z
    using eK [of "fst z" "snd z"] all_slotsD [OF that] by (simp add: slot_def m3 K_def)
  then show "slot_inv t ({a1, a2, a3} \<union> K) ?S"
    unfolding K_def
    by (intro slot_inv_cong [OF inv]) (use slot_invD(1) [OF inv] in \<open>simp_all add: only_memD [OF om]\<close>)
qed

text \<open>The spaces that were there before: some pages of one of them are shared.\<close>

lemma cow_parent_same [simp]:
  "has (cow_parent p e) PG_PRESENT = has e PG_PRESENT" "cow_parent p e AND PG_ADDR_MASK = e AND PG_ADDR_MASK"
  "frame_of (cow_parent p e) = frame_of e"
  by (auto simp: cow_parent_def shares_def frame_of_def)

lemma cow_child_same [simp]:
  "has (cow_child p e) PG_PRESENT = shares p e" "shares p e \<Longrightarrow> cow_child p e AND PG_ADDR_MASK = e AND PG_ADDR_MASK"
  "shares p e \<Longrightarrow> frame_of (cow_child p e) = frame_of e"
  by (auto simp: cow_child_def frame_of_def)

lemma shared_spaces:
  assumes ok: "spaces_ok s D" and d: "d \<in> D"
    and inv: "slot_inv s' (all_tables (mem s) D) (all_slots (mem s) D)" and up: "same_upper (mem s') (mem s) D"
    and sl: "\<And>d' p. d' \<in> D \<Longrightarrow> p < 1024 \<Longrightarrow> slot (mem s') (user_slot (mem s) d' p) = slot (mem s) (user_slot (mem s) d' p) \<or>
        d' = d \<and> slot (mem s') (user_slot (mem s) d' p) = cow_parent p (slot (mem s) (user_slot (mem s) d' p))"
    and bytes: "\<And>d' p off. d' \<in> D \<Longrightarrow> p < 1024 \<Longrightarrow> off < 4096 \<Longrightarrow> has (slot (mem s) (user_slot (mem s) d' p)) PG_PRESENT \<Longrightarrow>
       mem s' ((slot (mem s) (user_slot (mem s) d' p) AND PG_ADDR_MASK) + of_nat off) =
       mem s ((slot (mem s) (user_slot (mem s) d' p) AND PG_ADDR_MASK) + of_nat off)"
  shows "spaces_ok s' D" "d' \<in> D \<Longrightarrow> p < 1024 \<Longrightarrow> off < 4096 \<Longrightarrow> view s' d' p off = view s d' p off"
proof -
  have us: "user_slot (mem s') d' p' = user_slot (mem s) d' p'" if "d' \<in> D" "p' < 1024" for d' p'
    using same_upper_dirs(4) [OF up that] .
  have same: "has (slot (mem s') (user_slot (mem s') d' p)) PG_PRESENT = has (slot (mem s) (user_slot (mem s) d' p)) PG_PRESENT"
    "frame_of (slot (mem s') (user_slot (mem s') d' p)) = frame_of (slot (mem s) (user_slot (mem s) d' p))"
    if "d' \<in> D" "p < 1024" for d' p
    using sl [OF that] us [OF that] by auto
  have "own_frames (mem s') d'" if "d' \<in> D" for d'
    using spaces_okD(4) [OF ok that] same [OF that] unfolding own_frames_def by simp
  then show "spaces_ok s' D" by (rule spaces_okI [OF ok up inv])
  show "view s' d' p off = view s d' p off" if "d' \<in> D" "p < 1024" "off < 4096"
    unfolding view_def us [OF that(1,2)]
    by (rule seen_cong) (use sl [OF that(1,2)] bytes [OF that] in \<open>auto simp: cow_parent_def shares_def split: if_splits\<close>)
qed

text \<open>The pages of a space are the entries of its two tables.\<close>

lemma user_slot_split: "k < 2 \<Longrightarrow> j < 512 \<Longrightarrow> user_slot m d (k * 512 + j) = (dir_pt m d k, j)"
  by (simp add: user_slot_def)

lemma share_limit_dir:
  assumes ok: "spaces_ok s D" and d: "d \<in> D" and k: "k < 2"
    and lim: "\<And>p. p < 1024 \<Longrightarrow> p div 512 = k \<Longrightarrow> shares p (slot (mem s) (user_slot (mem s) d p)) \<Longrightarrow>
        frame_refcount t (frame_of (slot (mem s) (user_slot (mem s) d p))) < 255"
    and en: "\<And>j. j < 512 \<Longrightarrow> entry (mem t) (dir_pt (mem s) d k) j = entry (mem s) (dir_pt (mem s) d k) j"
  shows "share_limit t (dir_pt (mem s) d k) k"
proof -
  have sl: "slot (mem s) (user_slot (mem s) d (k * 512 + j)) = entry (mem s) (dir_pt (mem s) d k) j" if "j < 512" for j
    using user_slot_split [OF k that] by (simp add: slot_def)
  have lt: "k * 512 + j < 1024" if "j < 512" for j using k that by simp
  have "frame_refcount t (frame_of (entry (mem s) (dir_pt (mem s) d k) j)) < 255"
    if "j < 512" "shares (k * 512 + j) (entry (mem s) (dir_pt (mem s) d k) j)" for j
    using lim [OF lt [OF that(1)]] that sl [OF that(1)] by simp
  moreover have "i = j" if "i < 512" "j < 512" "has (entry (mem s) (dir_pt (mem s) d k) i) PG_PRESENT"
      "has (entry (mem s) (dir_pt (mem s) d k) j) PG_PRESENT"
      "frame_of (entry (mem s) (dir_pt (mem s) d k) i) = frame_of (entry (mem s) (dir_pt (mem s) d k) j)" for i j
  proof -
    have "k * 512 + i = k * 512 + j"
      using own_framesD [OF spaces_okD(4) [OF ok d] lt [OF that(1)] lt [OF that(2)]] that(3-5)
        sl [OF that(1)] sl [OF that(2)] by simp
    then show ?thesis by simp
  qed
  ultimately show ?thesis unfolding share_limit_def using en by simp
qed

lemma ucast_up_down: "(ucast (ucast (c :: u32) :: u64) :: u32) = c"
  by (rule bit_word_eqI) (simp add: bit_ucast_iff)

lemma ucast_up_inj: "(ucast a :: u64) = ucast c \<longleftrightarrow> a = c" for a c :: u32
  by (metis ucast_up_down)

text \<open>A failed clone gives its tables back.\<close>

lemma cleanup_inv:
  fixes s :: "'a paging_st_scheme"
  assumes inv: "slot_inv s ({ucast c1, ucast c2, ucast c3} \<union> C \<union> K) S"
    and S: "\<And>x. x \<in> S \<Longrightarrow> fst x \<in> K" and dist: "distinct [ucast c1, ucast c2, ucast c3 :: u64]"
    and disj: "({ucast c1, ucast c2, ucast c3} \<union> C) \<inter> K = {}" "C \<inter> {ucast c1, ucast c2, ucast c3} = {}"
    and C: "ti = 0 \<and> C = {} \<or> ti = 1 \<and> C = {c} \<and> entry (mem s) (ucast c3) 8 = c OR rw_flags \<and> page_addr c"
  defines "s' \<equiv> cow_cleanup (ucast c3) c1 c2 c3 ti s"
  shows "slot_inv s' K S" "mem s' = mem s" "same_dirs s' s"
    "\<And>f. f \<notin> page_no ` ({ucast c1, ucast c2, ucast c3} \<union> C) \<Longrightarrow> frame_refcount s' f = frame_refcount s f"
proof -
  have start: "USER_PD_START = 8" by (simp add: USER_PD_START_def PAGING_USER_BASE_def)
  define u where "u = (if ti = 0 then s else physmem_free_frame (ucast c) s)"
  have s': "s' = physmem_free_frame c1 (physmem_free_frame c2 (physmem_free_frame c3 u))"
    using C by (auto simp: s'_def cow_cleanup_def u_def start)
  have free: "slot_inv (physmem_free_frame (ucast a) t) (K' - {a}) S \<and>
      frame_refcount (physmem_free_frame (ucast a) t) = (frame_refcount t)(page_no a := 0)"
    if "slot_inv t K' S" "a \<in> K'" "a \<notin> K" for a K' and t :: "'a paging_st_scheme"
    using slot_inv_free_table [OF that(1,2)] S that(3) by blast
  have iu: "slot_inv u ({ucast c1, ucast c2, ucast c3} \<union> K) S \<and>
      (\<forall>f. f \<notin> page_no ` C \<longrightarrow> frame_refcount u f = frame_refcount s f)"
  proof (cases "ti = 0")
    case False
    then have "C = {c}" using C by auto
    moreover have "{ucast c1, ucast c2, ucast c3} \<union> {c} \<union> K - {c} = {ucast c1, ucast c2, ucast c3} \<union> K"
      using disj \<open>C = {c}\<close> by auto
    ultimately show ?thesis using free [OF inv, of c] False disj by (auto simp: u_def)
  qed (use C inv in \<open>auto simp: u_def\<close>)
  have i3: "slot_inv (physmem_free_frame c3 u) ({ucast c1, ucast c2} \<union> K) S \<and>
      frame_refcount (physmem_free_frame c3 u) = (frame_refcount u)(page_no (ucast c3) := 0)"
  proof -
    have "{ucast c1, ucast c2, ucast c3} \<union> K - {ucast c3} = {ucast c1, ucast c2} \<union> K" using dist disj by auto
    then show ?thesis using free [OF conjunct1 [OF iu], of "ucast c3"] disj by (simp add: ucast_up_down)
  qed
  have i2: "slot_inv (physmem_free_frame c2 (physmem_free_frame c3 u)) ({ucast c1} \<union> K) S \<and>
      frame_refcount (physmem_free_frame c2 (physmem_free_frame c3 u)) = (frame_refcount (physmem_free_frame c3 u))(page_no (ucast c2) := 0)"
  proof -
    have "{ucast c1, ucast c2} \<union> K - {ucast c2} = {ucast c1} \<union> K" using dist disj by auto
    then show ?thesis using free [OF conjunct1 [OF i3], of "ucast c2"] disj by (simp add: ucast_up_down)
  qed
  have i1: "slot_inv s' K S \<and> frame_refcount s' = (frame_refcount (physmem_free_frame c2 (physmem_free_frame c3 u)))(page_no (ucast c1) := 0)"
  proof -
    have "{ucast c1} \<union> K - {ucast c1} = K" using disj by auto
    then show ?thesis using free [OF conjunct1 [OF i2], of "ucast c1"] disj by (simp add: ucast_up_down s')
  qed
  show "slot_inv s' K S" "mem s' = mem s" "same_dirs s' s"
    using i1 by (simp_all add: s' u_def same_dirs_def)
  show "frame_refcount s' f = frame_refcount s f" if "f \<notin> page_no ` ({ucast c1, ucast c2, ucast c3} \<union> C)" for f
    using that i1 i2 i3 iu by auto
qed

end
