(* ===== verification/Fork.thy ===== *)
theory Fork
  imports Address_Space
begin

text \<open>
  Cloning an address space. \<open>cloned\<close> describes the state in the middle of
  \<^verbatim>\<open>paging_cow_clone_user_directory\<close>, with the new tables and the pages shared so far, and
  \<open>fork_spec\<close> what the function does as a whole: it gives a new space with the parent's pages, or it
  refuses and every program still sees what it saw.
\<close>

unbundle bit_operations_syntax

section \<open>Tables taken and given back\<close>

text \<open>The tables of a list, none of which has slots any more.\<close>

lemma free_tables:
  fixes s :: "'a paging_st_scheme"
  assumes "slot_inv s K S" "distinct ts" "set ts \<subseteq> K" "\<And>x. x \<in> S \<Longrightarrow> fst x \<notin> set ts"
  defines "t \<equiv> fold (\<lambda>u. physmem_free_frame (ucast u)) ts s"
  shows "slot_inv t (K - set ts) S" "mem t = mem s" "same_dirs t s"
    "\<And>f. frame_refcount t f = (if f \<in> page_no ` set ts then 0 else frame_refcount s f)"
proof -
  have "slot_inv t (K - set ts) S \<and> mem t = mem s \<and> same_dirs t s \<and>
    (\<forall>f. frame_refcount t f = (if f \<in> page_no ` set ts then 0 else frame_refcount s f))"
    using assms(1-4) unfolding t_def
  proof (induction ts arbitrary: s K)
    case (Cons u ts)
    let ?s = "physmem_free_frame (ucast u) s"
    have "u \<in> K" "\<And>x. x \<in> S \<Longrightarrow> fst x \<noteq> u" using Cons.prems(3,4) by auto
    note fr = slot_inv_free_table [OF Cons.prems(1) this]
    have K: "K - {u} - set ts = K - set (u # ts)" by auto
    have "slot_inv (fold (\<lambda>u. physmem_free_frame (ucast u)) ts ?s) (K - {u} - set ts) S \<and>
      mem (fold (\<lambda>u. physmem_free_frame (ucast u)) ts ?s) = mem ?s \<and> same_dirs (fold (\<lambda>u. physmem_free_frame (ucast u)) ts ?s) ?s \<and>
      (\<forall>f. frame_refcount (fold (\<lambda>u. physmem_free_frame (ucast u)) ts ?s) f = (if f \<in> page_no ` set ts then 0 else frame_refcount ?s f))"
      by (rule Cons.IH) (use Cons.prems fr(1) in auto)
    moreover have "same_dirs ?s s" by (simp add: same_dirs_def)
    ultimately show ?case
      unfolding K using Cons.prems(3) fr(2) by (auto simp: fun_upd_def intro: same_dirs_trans)
  qed simp
  then show "slot_inv t (K - set ts) S" "mem t = mem s" "same_dirs t s"
    "\<And>f. frame_refcount t f = (if f \<in> page_no ` set ts then 0 else frame_refcount s f)" by blast+
qed

text \<open>A row of allocations, with what they have in common: the frames they give are new tables, and
  giving them back undoes them.\<close>

fun allocs :: "'a paging_st_scheme \<Rightarrow> u32 list \<Rightarrow> 'a paging_st_scheme \<Rightarrow> bool" where
  "allocs s [] t \<longleftrightarrow> t = s"
| "allocs s (c # cs) t \<longleftrightarrow> (\<exists>u. physmem_alloc_frame s = (c, u) \<and> allocs u cs t)"

definition new_tables :: "u32 list \<Rightarrow> u64 set" where
  "new_tables cs = ucast ` (set cs - {0})"

lemma new_tables_Cons: "new_tables (c # cs) = (if c = 0 then {} else {ucast c}) \<union> new_tables cs"
  by (auto simp: new_tables_def)

lemma allocs_tables:
  fixes s t :: "'a paging_st_scheme"
  assumes "slot_inv s K S" "allocs s cs t"
  shows "slot_inv t (new_tables cs \<union> K) S \<and> mem t = mem s \<and> same_dirs t s \<and> distinct (filter ((\<noteq>) 0) cs) \<and>
    (\<forall>a \<in> new_tables cs. page_addr a \<and> a \<noteq> 0 \<and> frame_refcount s (page_no a) = 0) \<and>
    (\<forall>f. f \<notin> page_no ` new_tables cs \<longrightarrow> frame_refcount t f = frame_refcount s f)"
  using assms
proof (induction s cs t arbitrary: K rule: allocs.induct)
  case (1 s t)
  then show ?case by (simp add: new_tables_def)
next
  case (2 s c cs t)
  then obtain u where u: "physmem_alloc_frame s = (c, u)" "allocs u cs t" by auto
  show ?case
  proof (cases "c = 0")
    case True
    then have "u = s" using alloc_none [OF slot_invD(1) [OF 2(2)]] u(1) by simp
    then show ?thesis using 2(1) [OF 2(2)] u True by (simp add: new_tables_Cons)
  next
    case False
    note nt = slot_inv_new_table [OF 2(2) u(1) False]
    from slot_invD(1) [OF 2(2)] u(1) False have fr: "page_addr (ucast c)" "256 \<le> page_no (ucast c)" "frame_refcount s (page_no (ucast c)) = 0"
      "frame_refcount u = (frame_refcount s)(page_no (ucast c) := 1)" "mem u = mem s" "same_dirs u s" by (rule alloc_fresh; blast)+
    have IH: "slot_inv t (new_tables cs \<union> insert (ucast c) K) S" "mem t = mem u" "same_dirs t u" "distinct (filter ((\<noteq>) 0) cs)"
      "\<And>a. a \<in> new_tables cs \<Longrightarrow> page_addr a \<and> a \<noteq> 0 \<and> frame_refcount u (page_no a) = 0"
      "\<And>f. f \<notin> page_no ` new_tables cs \<Longrightarrow> frame_refcount t f = frame_refcount u f"
      using 2(1) [OF nt(1) u(2)] by blast+
    have ne: "page_no a \<noteq> page_no (ucast c)" if "a \<in> new_tables cs" for a
      using IH(5) [OF that] fr(4) by (auto simp: fun_upd_def split: if_splits)
    then have "c \<notin> set cs" using False by (auto simp: new_tables_def)
    moreover have "new_tables cs \<union> insert (ucast c) K = new_tables (c # cs) \<union> K" using False by (auto simp: new_tables_Cons)
    moreover have "(ucast c :: u64) \<noteq> 0" using fr(2) by (auto simp: page_no_def)
    moreover have "frame_refcount s (page_no a) = 0" if "a \<in> new_tables cs" for a
      using IH(5) [OF that] ne [OF that] by (simp add: fr(4))
    ultimately show ?thesis
      using IH fr False same_dirs_trans [OF IH(3) fr(6)] by (auto simp: new_tables_Cons)
  qed
qed

lemma allocs_freed:
  fixes s t :: "'a paging_st_scheme"
  assumes "slot_inv t (new_tables cs \<union> K) S" "distinct (filter ((\<noteq>) 0) cs)" "new_tables cs \<inter> K = {}" "\<And>x. x \<in> S \<Longrightarrow> fst x \<in> K"
  defines "u \<equiv> fold free_if cs t"
  shows "slot_inv u K S" "mem u = mem t" "same_dirs u t"
    "\<And>f. frame_refcount u f = (if f \<in> page_no ` new_tables cs then 0 else frame_refcount t f)"
proof -
  have "fold free_if cs t = fold (\<lambda>a. physmem_free_frame (ucast a)) (map ucast (filter ((\<noteq>) 0) cs) :: u64 list) t" for cs
    by (induction cs arbitrary: t) (auto simp: free_if_def ucast_up_down)
  then have u: "u = fold (\<lambda>a. physmem_free_frame (ucast a)) (map ucast (filter ((\<noteq>) 0) cs) :: u64 list) t" by (simp add: u_def)
  have set: "set (map ucast (filter ((\<noteq>) 0) cs) :: u64 list) = new_tables cs" by (auto simp: new_tables_def)
  have inj: "inj (ucast :: u32 \<Rightarrow> u64)" by (rule inj_on_inverseI [of _ ucast]) (rule ucast_up_down)
  have dist: "distinct (map ucast (filter ((\<noteq>) 0) cs) :: u64 list)"
    using assms(2) inj_on_subset [OF inj] by (simp add: distinct_map)
  have K: "new_tables cs \<union> K - new_tables cs = K" using assms(3) by auto
  have "fst x \<notin> new_tables cs" if "x \<in> S" for x using assms(3,4) that by blast
  then show "slot_inv u K S" "mem u = mem t" "same_dirs u t"
    "\<And>f. frame_refcount u f = (if f \<in> page_no ` new_tables cs then 0 else frame_refcount t f)"
    using free_tables [OF assms(1) dist] unfolding u set K by auto
qed

text \<open>How many frames are left.\<close>

lemma alloc_frame_count:
  fixes s t :: "'a paging_st_scheme"
  assumes inv: "physmem_inv s" and al: "physmem_alloc_frame s = (a, t)"
  shows "a = 0 \<longleftrightarrow> free_frames s = 0" "free_frames t = free_frames s - 1" "physmem_inv t"
proof -
  show "physmem_inv t" using inv al by (rule physmem_inv_alloc_frame)
  have "(a = 0 \<longleftrightarrow> free_frames s = 0) \<and> free_frames t = free_frames s - 1"
    using inv al
  proof (cases rule: alloc_frame_cases)
    case full
    then show ?thesis using inv by (simp add: physmem_inv_def)
  next
    case (frame f)
    have f: "f < total_frames s" "\<not> frame_is_marked s f" "f < PHYSMEM_MAX_FRAMES"
      using frame(1) inv by (auto simp: mem_free_set physmem_inv_def)
    have "free_frames s \<noteq> 0" using inv frame(1) finite_free_set [of s] by (auto simp: physmem_inv_def)
    moreover have "a \<noteq> 0" using frame(3,4) frame_addr_eq_0 [OF f(3)] by simp
    ultimately show ?thesis using f frame(5) by (simp add: free_frames_mark_frame)
  qed
  then show "a = 0 \<longleftrightarrow> free_frames s = 0" "free_frames t = free_frames s - 1" by blast+
qed

lemma allocs_count:
  fixes s t :: "'a paging_st_scheme"
  assumes "physmem_inv s" "allocs s cs t"
  shows "0 \<notin> set cs \<Longrightarrow> free_frames s = free_frames t + length cs" "0 \<in> set cs \<longleftrightarrow> free_frames s < length cs"
proof -
  have "(0 \<notin> set cs \<longrightarrow> free_frames s = free_frames t + length cs) \<and> (0 \<in> set cs \<longleftrightarrow> free_frames s < length cs)"
    using assms
  proof (induction s cs t rule: allocs.induct)
    case (2 s c cs t)
    then obtain u where u: "physmem_alloc_frame s = (c, u)" "allocs u cs t" by auto
    note n = alloc_frame_count [OF 2(2) u(1)]
    show ?case using 2(1) [OF n(3) u(2)] n(1,2) by auto
  qed simp
  then show "0 \<notin> set cs \<Longrightarrow> free_frames s = free_frames t + length cs" "0 \<in> set cs \<longleftrightarrow> free_frames s < length cs" by blast+
qed

lemma cow_link_free: "free_frames (cow_link a1 a2 a3 d pdpt pd s) = free_frames s"
proof -
  have "free_frames (fold (\<lambda>i s. put_entry dst i (entry (mem s) src i) s) is s) = free_frames s"
    for dst src "is" and s :: "'a paging_st_scheme"
    by (induction "is" arbitrary: s) (simp_all add: put_entry_def)
  then show ?thesis by (simp add: cow_link_def copy_table_def Let_def put_entry_def)
qed

text \<open>A frame without references is neither a table nor a page.\<close>

lemma fresh_frame:
  assumes inv: "slot_inv s K S" and a: "frame_refcount s (page_no a) = 0"
  shows "page_no a \<notin> page_no ` K" "z \<in> S \<Longrightarrow> has (slot (mem s) z) PG_PRESENT \<Longrightarrow> frame_of (slot (mem s) z) \<noteq> page_no a"
proof -
  show "page_no a \<notin> page_no ` K" using a table_frameD(5) [OF slot_invD(5) [OF inv]] by force
  show "z \<in> S \<Longrightarrow> has (slot (mem s) z) PG_PRESENT \<Longrightarrow> frame_of (slot (mem s) z) \<noteq> page_no a"
    using a refs_count_pos [OF inv, of z] by auto
qed

lemma allocs_undone:
  fixes s t :: "'a paging_st_scheme"
  assumes inv: "slot_inv s K S" and al: "allocs s cs t"
  defines "u \<equiv> fold free_if cs t"
  shows "slot_inv u K S" "mem u = mem s" "same_dirs u s" "frame_refcount u = frame_refcount s"
proof -
  have at: "slot_inv t (new_tables cs \<union> K) S" "mem t = mem s" "same_dirs t s" "distinct (filter ((\<noteq>) 0) cs)"
    "\<And>a. a \<in> new_tables cs \<Longrightarrow> frame_refcount s (page_no a) = 0"
    "\<And>f. f \<notin> page_no ` new_tables cs \<Longrightarrow> frame_refcount t f = frame_refcount s f"
    using allocs_tables [OF inv al] by blast+
  have "new_tables cs \<inter> K = {}" using at(5) fresh_frame(1) [OF inv] by blast
  note fr = allocs_freed [OF at(1,4) this slot_invD(3) [OF inv], folded u_def]
  show "slot_inv u K S" "mem u = mem s" using fr(1,2) at(2) by simp_all
  show "same_dirs u s" using fr(3) at(3) by (rule same_dirs_trans)
  show "frame_refcount u = frame_refcount s"
  proof
    fix f show "frame_refcount u f = frame_refcount s f" using fr(4) [of f] at(5,6) by auto
  qed
qed

section \<open>In the middle of a clone\<close>

definition shared_entry :: "bmem \<Rightarrow> u64 \<Rightarrow> nat \<Rightarrow> u64 \<Rightarrow> nat \<Rightarrow> u64" where
  "shared_entry m d n u j =
     (if 0 < n \<and> u = dir_pt m d 0 then cow_parent j (entry m u j)
      else if 1 < n \<and> u = dir_pt m d 1 then cow_parent (512 + j) (entry m u j)
      else entry m u j)"

definition given :: "bmem \<Rightarrow> u64 \<Rightarrow> nat \<Rightarrow> nat set" where
  "given m d n = (\<Union>k \<in> {0..<n}. shared_frames m (dir_pt m d k) k 512)"

definition cloned ::
  "'a paging_st_scheme \<Rightarrow> u64 set \<Rightarrow> u64 \<Rightarrow> 'a paging_st_scheme \<Rightarrow> u64 set \<Rightarrow> (u64 \<times> nat) set \<Rightarrow> nat \<Rightarrow> bool" where
  "cloned s D d t C N n \<longleftrightarrow>
     slot_inv t (C \<union> all_tables (mem s) D) (all_slots (mem s) D \<union> N) \<and> fst ` N \<subseteq> C \<and>
     (\<forall>c \<in> C. page_addr c \<and> c \<noteq> 0 \<and> frame_refcount s (page_no c) = 0 \<and> page_no c \<notin> page_no ` all_tables (mem s) D \<and>
        (\<forall>z \<in> all_slots (mem s) D. has (slot (mem s) z) PG_PRESENT \<longrightarrow> frame_of (slot (mem s) z) \<noteq> page_no c)) \<and>
     (\<forall>u \<in> all_tables (mem s) D. \<forall>j < 512. entry (mem t) u j = shared_entry (mem s) d n u j) \<and>
     (\<forall>a. page_no a \<notin> page_no ` (C \<union> all_tables (mem s) D) \<longrightarrow> mem t a = mem s a) \<and>
     (\<forall>f. f \<notin> page_no ` C \<longrightarrow>
        unat (frame_refcount t f) = unat (frame_refcount s f) + (if f \<in> given (mem s) d n then 1 else 0)) \<and>
     same_dirs t s"

lemma clonedD:
  assumes "cloned s D d t C N n"
  shows "slot_inv t (C \<union> all_tables (mem s) D) (all_slots (mem s) D \<union> N)" "fst ` N \<subseteq> C"
    "\<And>c. c \<in> C \<Longrightarrow> page_addr c" "\<And>c. c \<in> C \<Longrightarrow> c \<noteq> 0" "\<And>c. c \<in> C \<Longrightarrow> page_no c \<notin> page_no ` all_tables (mem s) D"
    "\<And>c z. c \<in> C \<Longrightarrow> z \<in> all_slots (mem s) D \<Longrightarrow> has (slot (mem s) z) PG_PRESENT \<Longrightarrow> frame_of (slot (mem s) z) \<noteq> page_no c"
    "\<And>u j. u \<in> all_tables (mem s) D \<Longrightarrow> j < 512 \<Longrightarrow> entry (mem t) u j = shared_entry (mem s) d n u j"
    "\<And>a. page_no a \<notin> page_no ` (C \<union> all_tables (mem s) D) \<Longrightarrow> mem t a = mem s a"
    "\<And>f. f \<notin> page_no ` C \<Longrightarrow> unat (frame_refcount t f) = unat (frame_refcount s f) + (if f \<in> given (mem s) d n then 1 else 0)"
    "same_dirs t s" "\<And>c. c \<in> C \<Longrightarrow> frame_refcount s (page_no c) = 0"
  using assms unfolding cloned_def by blast+

text \<open>The limit of a fork: no frame of the parent has the largest count.\<close>

definition fork_limit :: "'a paging_st_scheme \<Rightarrow> u64 \<Rightarrow> bool" where
  "fork_limit s d \<longleftrightarrow>
     (\<forall>p < 1024. shares p (slot (mem s) (user_slot (mem s) d p)) \<longrightarrow>
        frame_refcount s (frame_of (slot (mem s) (user_slot (mem s) d p))) < 255)"

lemma dir_pt_cases: "dir_shape m d \<Longrightarrow> dir_pt m d 0 \<noteq> dir_pt m d 1"
  by (simp add: dir_shape_def dir_tables_def)

lemma given_Suc: "given m d (Suc n) = given m d n \<union> shared_frames m (dir_pt m d n) n 512"
  by (auto simp: given_def less_Suc_eq)

text \<open>The frames of the second table are not among those of the first.\<close>

lemma given_new:
  assumes ok: "spaces_ok s D" and d: "d \<in> D" and n: "n < 2" and j: "j < 512"
    and pr: "has (entry (mem s) (dir_pt (mem s) d n) j) PG_PRESENT"
  shows "frame_of (entry (mem s) (dir_pt (mem s) d n) j) \<notin> given (mem s) d n"
proof
  assume "frame_of (entry (mem s) (dir_pt (mem s) d n) j) \<in> given (mem s) d n"
  then obtain k i where k: "k < n" "i < 512" "has (entry (mem s) (dir_pt (mem s) d k) i) PG_PRESENT"
    "frame_of (entry (mem s) (dir_pt (mem s) d n) j) = frame_of (entry (mem s) (dir_pt (mem s) d k) i)"
    by (auto simp: given_def shared_frames_def shares_def)
  have sl: "slot (mem s) (user_slot (mem s) d (k * 512 + i)) = entry (mem s) (dir_pt (mem s) d k) i"
    if "k < 2" "i < 512" for k i using user_slot_split [OF that] by (simp add: slot_def)
  have k2: "k < 2" using k(1) n by simp
  have lt: "n * 512 + j < 1024" "k * 512 + i < 1024" using n j k(2) k2 by simp_all
  note eq = own_framesD [OF spaces_okD(4) [OF ok d] lt, unfolded sl [OF n j] sl [OF k2 k(2)], OF pr k(3,4)]
  have "(n * 512 + j) div 512 = n" "(k * 512 + i) div 512 = k" using j k(2) by simp_all
  with eq show False using k(1) by simp
qed

lemma cloned_round:
  fixes s t :: "'a paging_st_scheme"
  assumes ok: "spaces_ok s D" and d: "d \<in> D" and cl: "cloned s D d t C N n" and n: "n < 2" and lim: "fork_limit s d"
    and a3: "a3 \<in> C" "\<And>i. (a3, i) \<notin> N" and al: "physmem_alloc_frame t = (k, t1)" "k \<noteq> 0"
  defines "c \<equiv> ucast k :: u64"
  defines "u \<equiv> clone_round d (dir_pt (mem s) d n) a3 n c t1"
  shows "cloned s D d u (insert c C) (N \<union> {c} \<times> {0..<512}) (Suc n)" "c \<notin> C"
    "\<And>v j. v \<in> C \<Longrightarrow> j < 512 \<Longrightarrow> entry (mem u) v j = (if v = a3 \<and> j = 8 + n then c OR rw_flags else entry (mem t) v j)"
    "\<And>j. j < 512 \<Longrightarrow> entry (mem u) c j = cow_child (n * 512 + j) (entry (mem s) (dir_pt (mem s) d n) j)"
proof -
  let ?K = "all_tables (mem s) D" and ?S = "all_slots (mem s) D" and ?pt = "dir_pt (mem s) d n"
  note c = clonedD [OF cl]
  have ptK: "?pt \<in> ?K" using dir_pt_in [OF n] d by (auto simp: all_tables_def)
  have disj: "C \<inter> ?K = {}" using c(5) by blast
  have ne: "dir_pt (mem s) d 0 \<noteq> dir_pt (mem s) d 1" using spaces_okD(3) [OF ok d] by (rule dir_pt_cases)
  have en: "entry (mem t) ?pt j = entry (mem s) ?pt j" if "j < 512" for j
    using c(7) [OF ptK that] n ne by (auto simp: shared_entry_def less_2_cases_iff)
  have xS: "(?pt, i) \<in> ?S \<union> N" if "i < 512" for i
    using d that n by (auto simp: all_slots_def user_slots_def less_2_cases_iff)
  have rc: "frame_refcount t (frame_of (slot (mem s) (user_slot (mem s) d p))) = frame_refcount s (frame_of (slot (mem s) (user_slot (mem s) d p)))"
    if p: "p < 1024" "shares p (slot (mem s) (user_slot (mem s) d p))" "p div 512 = n" for p
  proof -
    have pr: "has (slot (mem s) (user_slot (mem s) d p)) PG_PRESENT" using p(2) by (simp add: shares_def)
    moreover have sl: "slot (mem s) (user_slot (mem s) d p) = entry (mem s) ?pt (p mod 512)"
      using p(3) by (simp add: user_slot_def slot_def)
    ultimately have "frame_of (slot (mem s) (user_slot (mem s) d p)) \<notin> given (mem s) d n"
      using given_new [OF ok d n, of "p mod 512"] by simp
    then show ?thesis
      using c(9) [of "frame_of (slot (mem s) (user_slot (mem s) d p))"] c(6) [OF _ slot_in_all [OF d p(1)] pr]
      by (auto simp: word_unat_eq_iff)
  qed
  have sl: "share_limit t ?pt n"
    using lim rc by (intro share_limit_dir [OF ok d n _ en]) (auto simp: fork_limit_def)
  have npd: "a3 \<in> C \<union> ?K" "(a3, i) \<notin> ?S \<union> N" for i
    using a3 disj all_slotsD [of "(a3, i)" "mem s" D] by auto
  note ra = round_step(2-6) [OF c(1) xS npd n sl al, folded c_def]
  note rb = round_step(1,7-10) [OF c(1) xS npd n sl al, where d = d, folded c_def, folded u_def]
  show "c \<notin> C" using ra(1) by blast
  show "entry (mem u) v j = (if v = a3 \<and> j = 8 + n then c OR rw_flags else entry (mem t) v j)" if "v \<in> C" "j < 512" for v j
  proof -
    have "v \<noteq> ?pt" "v \<noteq> c" using that(1) ptK disj ra(1) by auto
    then show ?thesis using rb(2) [of v j] that by simp
  qed
  show "entry (mem u) c j = cow_child (n * 512 + j) (entry (mem s) ?pt j)" if "j < 512" for j
  proof -
    have "c \<noteq> ?pt" "c \<noteq> a3" using ra(1) ptK a3(1) by auto
    then show ?thesis using rb(2) [of c j] that en by simp
  qed
  have eK: "entry (mem u) v j = shared_entry (mem s) d (Suc n) v j" if v: "v \<in> ?K" "j < 512" for v j
  proof -
    have "v \<noteq> a3" "v \<noteq> c" using v(1) a3(1) disj ra(1) by auto
    then have "entry (mem u) v j = (if v = ?pt then cow_parent (n * 512 + j) (entry (mem t) v j) else entry (mem t) v j)"
      using rb(2) [of v j] v by simp
    note eq = this [unfolded c(7) [OF v]]
    have "n = 0 \<or> n = 1" using n by auto
    then show ?thesis unfolding eq using ne by (elim disjE) (simp_all add: shared_entry_def)
  qed
  have cs: "frame_refcount s (page_no c) = 0"
  proof -
    have "frame_refcount t (page_no c) = 0" using slot_invD(1) [OF c(1)] al unfolding c_def by (rule alloc_fresh)
    then show ?thesis using c(9) [of "page_no c"] ra(3) by (simp add: unat_eq_0 image_Un)
  qed
  have sf: "shared_frames (mem t) ?pt n 512 = shared_frames (mem s) ?pt n 512"
    unfolding shared_frames_def by (auto simp: en) (metis en)
  have cnt: "unat (frame_refcount u f) = unat (frame_refcount s f) + (if f \<in> given (mem s) d (Suc n) then 1 else 0)"
    if f: "f \<notin> page_no ` insert c C" for f
  proof -
    have "f \<in> given (mem s) d n \<Longrightarrow> f \<notin> shared_frames (mem s) ?pt n 512"
      using given_new [OF ok d n] by (auto simp: shared_frames_def shares_def)
    then show ?thesis using rb(4) [of f] c(9) [of f] f by (auto simp: sf given_Suc)
  qed
  have fresh: "frame_of (slot (mem s) z) \<noteq> page_no c" if "z \<in> ?S" "has (slot (mem s) z) PG_PRESENT" for z
  proof -
    have "has (slot (mem t) z) PG_PRESENT \<and> frame_of (slot (mem t) z) = frame_of (slot (mem s) z)"
      using c(7) [of "fst z" "snd z"] all_slotsD [OF that(1)] that(2) by (auto simp: slot_def shared_entry_def)
    then show ?thesis using ra(5) [of z] that(1) by auto
  qed
  show "cloned s D d u (insert c C) (N \<union> {c} \<times> {0..<512}) (Suc n)"
    unfolding cloned_def
  proof (intro conjI ballI allI impI)
    show "slot_inv u (insert c C \<union> ?K) (?S \<union> (N \<union> {c} \<times> {0..<512}))"
      using rb(1) by (simp add: Un_assoc)
    show "fst ` (N \<union> {c} \<times> {0..<512}) \<subseteq> insert c C" using c(2) by auto
    show "same_dirs u s" using same_dirs_trans [OF rb(5) c(10)] .
    show "page_addr v" "v \<noteq> 0" "page_no v \<notin> page_no ` ?K" "frame_refcount s (page_no v) = 0" if "v \<in> insert c C" for v
      using that ra(2-4) c(3-5,11) cs by blast+
    show "frame_of (slot (mem s) z) \<noteq> page_no v" if "v \<in> insert c C" "z \<in> ?S" "has (slot (mem s) z) PG_PRESENT" for v z
      using that(1) fresh [OF that(2,3)] c(6) [OF _ that(2,3)] by auto
    show "mem u a = mem s a" if "page_no a \<notin> page_no ` (insert c C \<union> ?K)" for a
      using that rb(3) [of a] c(8) [of a] by simp
  qed (fact eK cnt)+
qed

section \<open>The result of a clone\<close>

text \<open>The old spaces, in a state with the memory of a clone and its tables given up.\<close>

lemma cloned_spaces:
  assumes ok: "spaces_ok s D" and d: "d \<in> D" and cl: "cloned s D d t C N n"
    and t': "slot_inv t' (all_tables (mem s) D) (all_slots (mem s) D)" "mem t' = mem t"
  shows "spaces_ok t' D" "same_upper (mem t') (mem s) D"
    "d' \<in> D \<Longrightarrow> p < 1024 \<Longrightarrow> off < 4096 \<Longrightarrow> view t' d' p off = view s d' p off"
    "d' \<in> D \<Longrightarrow> p < 1024 \<Longrightarrow> slot (mem t') (user_slot (mem s) d' p) =
       (if d' = d \<and> p div 512 < n then cow_parent p (slot (mem s) (user_slot (mem s) d' p))
        else slot (mem s) (user_slot (mem s) d' p))"
proof -
  note c = clonedD [OF cl]
  have ne: "dir_pt (mem s) d 0 \<noteq> dir_pt (mem s) d 1" using spaces_okD(3) [OF ok d] by (rule dir_pt_cases)
  have upper: "u \<noteq> dir_pt (mem s) d k" if "e \<in> D" "u \<in> {e, dir_pdpt (mem s) e, dir_pd (mem s) e}" "k < 2" for e u k
  proof (cases "e = d")
    case True
    then show ?thesis using that spaces_okD(3) [OF ok d] by (auto simp: dir_shape_def dir_tables_def less_2_cases_iff)
  next
    case False
    have "u \<in> set (dir_tables (mem s) e)" using that(2) by (auto simp: dir_tables_def)
    then show ?thesis using spaces_okD(5) [OF ok that(1) d False] dir_pt_in [OF that(3)] by auto
  qed
  show up: "same_upper (mem t') (mem s) D"
    unfolding same_upper_def t'(2)
  proof (intro ballI allI impI)
    fix e u j assume e: "e \<in> D" "u \<in> {e, dir_pdpt (mem s) e, dir_pd (mem s) e}" and j: "j < (512 :: nat)"
    have "entry (mem t) u j = shared_entry (mem s) d n u j" using upper_in_all [OF e] j by (intro c(7))
    then show "entry (mem t) u j = entry (mem s) u j"
      using upper [OF e, of 0] upper [OF e, of 1] by (simp add: shared_entry_def)
  qed
  have sl: "slot (mem t') (user_slot (mem s) d' p) =
      (if d' = d \<and> p div 512 < n then cow_parent p (slot (mem s) (user_slot (mem s) d' p))
       else slot (mem s) (user_slot (mem s) d' p))" if "d' \<in> D" "p < 1024" for d' p
  proof -
    have eq: "slot (mem t') (user_slot (mem s) d' p) = shared_entry (mem s) d n (dir_pt (mem s) d' (p div 512)) (p mod 512)"
      unfolding t'(2) slot_def user_slot_def fst_conv snd_conv
      using that by (intro c(7) table_in_all [OF that(1)] dir_pt_in) auto
    have p2: "p div 512 < 2" using page_div_cases [OF that(2)] by auto
    have "d' \<noteq> d \<Longrightarrow> dir_pt (mem s) d' (p div 512) \<noteq> dir_pt (mem s) d k" if "k < 2" for k
      using spaces_okD(5) [OF ok \<open>d' \<in> D\<close> d] dir_pt_in [OF that] dir_pt_in [OF p2] by (metis disjoint_iff)
    then have "d' \<noteq> d \<Longrightarrow> slot (mem t') (user_slot (mem s) d' p) = slot (mem s) (user_slot (mem s) d' p)"
      unfolding eq by (simp add: shared_entry_def slot_def user_slot_def)
    moreover have "p div 512 = 1 \<Longrightarrow> 512 + p mod 512 = p" "p div 512 = 0 \<Longrightarrow> p mod 512 = p"
      using div_mult_mod_eq [of p 512] by simp_all
    then have "d' = d \<Longrightarrow> slot (mem t') (user_slot (mem s) d' p) =
      (if p div 512 < n then cow_parent p (slot (mem s) (user_slot (mem s) d' p)) else slot (mem s) (user_slot (mem s) d' p))"
      unfolding eq using page_div_cases [OF that(2)] ne by (auto simp: shared_entry_def slot_def user_slot_def)
    ultimately show ?thesis by (cases "d' = d") simp_all
  qed
  then show "d' \<in> D \<Longrightarrow> p < 1024 \<Longrightarrow> slot (mem t') (user_slot (mem s) d' p) =
       (if d' = d \<and> p div 512 < n then cow_parent p (slot (mem s) (user_slot (mem s) d' p))
        else slot (mem s) (user_slot (mem s) d' p))" .
  have bytes: "mem t' ((slot (mem s) (user_slot (mem s) d' p) AND PG_ADDR_MASK) + of_nat off) =
       mem s ((slot (mem s) (user_slot (mem s) d' p) AND PG_ADDR_MASK) + of_nat off)"
    if "d' \<in> D" "p < 1024" "off < 4096" "has (slot (mem s) (user_slot (mem s) d' p)) PG_PRESENT" for d' p off
    using present_frame(3) [OF ok that(1,2,4)] c(6) [OF _ slot_in_all [OF that(1,2)] that(4)]
      frame_bytes [OF that(3), of "slot (mem s) (user_slot (mem s) d' p)"]
    unfolding t'(2) by (intro c(8)) auto
  have sl': "slot (mem t') (user_slot (mem s) d' p) = slot (mem s) (user_slot (mem s) d' p) \<or>
        d' = d \<and> slot (mem t') (user_slot (mem s) d' p) = cow_parent p (slot (mem s) (user_slot (mem s) d' p))"
    if "d' \<in> D" "p < 1024" for d' p using sl [OF that] by auto
  show "spaces_ok t' D" by (rule shared_spaces(1) [OF ok d t'(1) up sl' bytes])
  show "d' \<in> D \<Longrightarrow> p < 1024 \<Longrightarrow> off < 4096 \<Longrightarrow> view t' d' p off = view s d' p off"
    by (rule shared_spaces(2) [OF ok d t'(1) up sl' bytes])
qed

lemma clone_done:
  fixes s t :: "'a paging_st_scheme"
  assumes ok: "spaces_ok s D" and d: "d \<in> D"
    and cl: "cloned s D d t {a1, a2, a3, b0, b1} ({b0} \<times> {0..<512} \<union> {b1} \<times> {0..<512}) 2"
    and dist: "distinct [a1, a2, a3, b0, b1]"
    and en: "entry (mem t) a1 0 = a2 OR rw_flags" "entry (mem t) a2 0 = a3 OR rw_flags"
      "entry (mem t) a3 8 = b0 OR rw_flags" "entry (mem t) a3 9 = b1 OR rw_flags"
      "\<And>j. j < 512 \<Longrightarrow> entry (mem t) b0 j = cow_child j (entry (mem s) (dir_pt (mem s) d 0) j)"
      "\<And>j. j < 512 \<Longrightarrow> entry (mem t) b1 j = cow_child (512 + j) (entry (mem s) (dir_pt (mem s) d 1) j)"
  shows "a1 \<notin> D" "a1 \<noteq> 0" "spaces_ok t (insert a1 D)"
    "d' \<in> D \<Longrightarrow> p < 1024 \<Longrightarrow> off < 4096 \<Longrightarrow> view t d' p off = view s d' p off"
    "p < 1024 \<Longrightarrow> off < 4096 \<Longrightarrow> view t a1 p off = (if window p then None else view s d p off)"
proof -
  let ?C = "{a1, a2, a3, b0, b1}" and ?K = "all_tables (mem s) D" and ?S = "all_slots (mem s) D"
  note c = clonedD [OF cl]
  have pa: "page_addr a1" "page_addr a2" "page_addr a3" "page_addr b0" "page_addr b1" using c(3) by auto
  have disj: "?C \<inter> ?K = {}" using c(5) by blast
  have "slot_inv t ?K ?S" by (rule slot_inv_subset [OF c(1)]) (use all_slotsD in auto)
  note sp = cloned_spaces [OF ok d cl this refl]
  note up = same_upper_dirs [OF sp(2)]
  show a1: "a1 \<notin> D" "a1 \<noteq> 0" using disj c(4) by (auto simp: all_tables_def dir_tables_def)
  have dirs: "dir_pdpt (mem t) a1 = a2" "dir_pd (mem t) a1 = a3" "dir_pt (mem t) a1 0 = b0" "dir_pt (mem t) a1 1 = b1"
    using en pa by (simp_all add: dir_pdpt_def dir_pd_def dir_pt_def phys_to_virt_def)
  have tabs: "set (dir_tables (mem t) a1) = ?C" unfolding dir_tables_def dirs by simp
  have "0 \<notin> ?C" using c(4) by blast
  then have shape: "dir_shape (mem t) a1"
    unfolding dir_shape_def table_ref_def tabs unfolding dir_tables_def dirs en(1-4)
    using dist pa page_addr_paged [OF pa(1)] by (simp only: rw_entry) simp
  have K: "all_tables (mem t) (insert a1 D) = ?C \<union> ?K" "all_slots (mem t) (insert a1 D) = ?S \<union> ({b0} \<times> {0..<512} \<union> {b1} \<times> {0..<512})"
  proof -
    have "all_tables (mem t) (insert a1 D) = set (dir_tables (mem t) a1) \<union> all_tables (mem t) D"
      "all_slots (mem t) (insert a1 D) = all_slots (mem t) D \<union> user_slots (mem t) a1"
      unfolding all_tables_def all_slots_def by auto
    moreover have "user_slots (mem t) a1 = {b0} \<times> {0..<512} \<union> {b1} \<times> {0..<512}"
      unfolding user_slots_def dirs by auto
    ultimately show "all_tables (mem t) (insert a1 D) = ?C \<union> ?K"
      "all_slots (mem t) (insert a1 D) = ?S \<union> ({b0} \<times> {0..<512} \<union> {b1} \<times> {0..<512})"
      unfolding tabs up(5,6) by simp_all
  qed
  have child: "slot (mem t) (user_slot (mem t) a1 p) = cow_child p (slot (mem s) (user_slot (mem s) d p))" if "p < 1024" for p
  proof -
    have "p div 512 = 1 \<Longrightarrow> 512 + p mod 512 = p" "p div 512 = 0 \<Longrightarrow> p mod 512 = p"
      using div_mult_mod_eq [of p 512] by simp_all
    then show ?thesis
      using page_div_cases [OF that] en(5,6) [of "p mod 512"] dirs(3,4)
      unfolding slot_def user_slot_def fst_conv snd_conv by auto
  qed
  have own: "own_frames (mem t) a1"
    unfolding own_frames_def
  proof (intro allI impI)
    fix q r assume qr: "q < 1024" "r < 1024" and pr: "has (slot (mem t) (user_slot (mem t) a1 q)) PG_PRESENT"
        "has (slot (mem t) (user_slot (mem t) a1 r)) PG_PRESENT"
      and eq: "frame_of (slot (mem t) (user_slot (mem t) a1 q)) = frame_of (slot (mem t) (user_slot (mem t) a1 r))"
    then show "q = r"
      unfolding child [OF qr(1)] child [OF qr(2)] cow_child_same
      by (intro own_framesD [OF spaces_okD(4) [OF ok d] qr]) (simp_all add: shares_def)
  qed
  have dj: "set (dir_tables (mem t) a1) \<inter> set (dir_tables (mem t) e) = {}" if "e \<in> D" for e
    using disj that unfolding tabs up(1) [OF that] all_tables_def by blast
  show "spaces_ok t (insert a1 D)"
    unfolding spaces_ok_def K
    using c(1) spaces_okD(1,3-5) [OF sp(1)] shape own dj by (auto simp: Int_commute)
  show "d' \<in> D \<Longrightarrow> p < 1024 \<Longrightarrow> off < 4096 \<Longrightarrow> view t d' p off = view s d' p off" by (rule sp(3))
  show "view t a1 p off = (if window p then None else view s d p off)" if "p < 1024" "off < 4096"
  proof (cases "shares p (slot (mem s) (user_slot (mem s) d p))")
    case True
    have pr: "has (slot (mem t) (user_slot (mem t) d p)) PG_PRESENT" "slot (mem t) (user_slot (mem t) d p) AND PG_ADDR_MASK =
        slot (mem s) (user_slot (mem s) d p) AND PG_ADDR_MASK"
      using sp(4) [OF d that(1)] up(4) [OF d that(1)] True by (auto simp: shares_def)
    then have "view t a1 p off = view t d p off"
      using True child [OF that(1)] unfolding view_def by (intro seen_cong) auto
    then show ?thesis using sp(3) [OF d that] True by (simp add: shares_def)
  next
    case False
    then show ?thesis using child [OF that(1)] by (auto simp: view_def seen_def Let_def shares_def)
  qed
qed

lemma clone_start:
  fixes s :: "'a paging_st_scheme"
  assumes ok: "spaces_ok s D" and d: "d \<in> D"
    and al: "physmem_alloc_frame s = (c1, s1)" "physmem_alloc_frame s1 = (c2, s2)" "physmem_alloc_frame s2 = (c3, s3)"
      "c1 \<noteq> 0" "c2 \<noteq> 0" "c3 \<noteq> 0"
  defines "a1 \<equiv> ucast c1 :: u64" and "a2 \<equiv> ucast c2 :: u64" and "a3 \<equiv> ucast c3 :: u64"
  defines "t \<equiv> cow_link a1 a2 a3 d (dir_pdpt (mem s) d) (dir_pd (mem s) d) s3"
  shows "cloned s D d t {a1, a2, a3} {} 0" "distinct [a1, a2, a3]"
    "entry (mem t) a1 0 = a2 OR rw_flags" "entry (mem t) a2 0 = a3 OR rw_flags"
proof -
  note inv = spaces_okD(2) [OF ok]
  have N: "new_tables [c1, c2, c3] = {a1, a2, a3}" using al(4-6) by (auto simp: new_tables_def a1_def a2_def a3_def)
  have "allocs s [c1, c2, c3] s3" using al(1-3) by simp
  note at = allocs_tables [OF inv this, unfolded N]
  have th: "slot_inv s3 ({a1, a2, a3} \<union> all_tables (mem s) D) (all_slots (mem s) D)" "distinct [a1, a2, a3]"
    "{a1, a2, a3} \<inter> all_tables (mem s) D = {}"
    "\<And>a. a \<in> {a1, a2, a3} \<Longrightarrow> page_addr a \<and> a \<noteq> 0 \<and> frame_refcount s (page_no a) = 0 \<and> page_no a \<notin> page_no ` all_tables (mem s) D"
    "\<And>a z. a \<in> {a1, a2, a3} \<Longrightarrow> z \<in> all_slots (mem s) D \<Longrightarrow> has (slot (mem s) z) PG_PRESENT \<Longrightarrow> frame_of (slot (mem s) z) \<noteq> page_no a"
    "mem s3 = mem s" "\<And>f. f \<notin> page_no ` {a1, a2, a3} \<Longrightarrow> frame_refcount s3 f = frame_refcount s f" "same_dirs s3 s"
  proof -
    show fr: "page_addr a \<and> a \<noteq> 0 \<and> frame_refcount s (page_no a) = 0 \<and> page_no a \<notin> page_no ` all_tables (mem s) D"
      if "a \<in> {a1, a2, a3}" for a using at that fresh_frame(1) [OF inv] by blast
    then show "{a1, a2, a3} \<inter> all_tables (mem s) D = {}" by blast
    show "frame_of (slot (mem s) z) \<noteq> page_no a"
      if "a \<in> {a1, a2, a3}" "z \<in> all_slots (mem s) D" "has (slot (mem s) z) PG_PRESENT" for a z
      using fresh_frame(2) [OF inv _ that(2,3)] fr [OF that(1)] by blast
    show "distinct [a1, a2, a3]" using at al(4-6) by (auto simp: a1_def a2_def a3_def ucast_up_inj)
  qed (use at in blast)+
  note ln = clone_linked [OF ok d th(1,6,2,3), folded t_def]
  show "distinct [a1, a2, a3]" "entry (mem t) a1 0 = a2 OR rw_flags" "entry (mem t) a2 0 = a3 OR rw_flags"
    by (fact th(2) ln(3) ln(4))+
  show "cloned s D d t {a1, a2, a3} {} 0"
    unfolding cloned_def
  proof (intro conjI ballI allI impI)
    show "slot_inv t ({a1, a2, a3} \<union> all_tables (mem s) D) (all_slots (mem s) D \<union> {})" using ln(1) by simp
    show "page_addr c" "c \<noteq> 0" "frame_refcount s (page_no c) = 0" "page_no c \<notin> page_no ` all_tables (mem s) D"
      if "c \<in> {a1, a2, a3}" for c
      using th(4) [OF that] by auto
    show "frame_of (slot (mem s) z) \<noteq> page_no c"
      if "c \<in> {a1, a2, a3}" "z \<in> all_slots (mem s) D" "has (slot (mem s) z) PG_PRESENT" for c z
      by (rule th(5) [OF that])
    show "entry (mem t) u j = shared_entry (mem s) d 0 u j" if "u \<in> all_tables (mem s) D" "j < 512" for u j
      using ln(2) [OF that] by (simp add: shared_entry_def)
    show "mem t a = mem s a" if "page_no a \<notin> page_no ` ({a1, a2, a3} \<union> all_tables (mem s) D)" for a
      by (rule ln(6)) (use that in auto)
    show "unat (frame_refcount t f) = unat (frame_refcount s f) + (if f \<in> given (mem s) d 0 then 1 else 0)"
      if "f \<notin> page_no ` {a1, a2, a3}" for f
      using th(7) [OF that] only_memD(2) [OF ln(7)] by (simp add: given_def)
    show "same_dirs t s" using only_memD(1) [OF ln(7)] th(8) by (rule same_dirs_trans)
  qed simp
qed

section \<open>The system call fork on address spaces\<close>

text \<open>A refused allocation of a page table: the cleanup after the pages shared so far.\<close>

lemma cloned_cleanup:
  fixes s u :: "'a paging_st_scheme"
  assumes cl: "cloned s D d u ({ucast c1, ucast c2, ucast c3} \<union> C) N n"
    and dist: "distinct [ucast c1, ucast c2, ucast c3 :: u64]" "C \<inter> {ucast c1, ucast c2, ucast c3} = {}"
    and C: "n = 0 \<and> C = {} \<or> n = 1 \<and> C = {b} \<and> entry (mem u) (ucast c3) 8 = b OR rw_flags"
  defines "t \<equiv> cow_cleanup (ucast c3) c1 c2 c3 n u"
  shows "slot_inv t (all_tables (mem s) D) (all_slots (mem s) D)" "mem t = mem u" "same_dirs t s"
    "\<And>f. f \<notin> page_no ` ({ucast c1, ucast c2, ucast c3} \<union> C) \<Longrightarrow> frame_refcount t f = frame_refcount u f"
proof -
  note c = clonedD [OF cl]
  have inv: "slot_inv u ({ucast c1, ucast c2, ucast c3} \<union> C \<union> all_tables (mem s) D) (all_slots (mem s) D)"
    by (rule slot_inv_subset [OF c(1)]) (use all_slotsD in auto)
  have S: "fst x \<in> all_tables (mem s) D" if "x \<in> all_slots (mem s) D" for x using all_slotsD [OF that] by simp
  have disj: "({ucast c1, ucast c2, ucast c3} \<union> C) \<inter> all_tables (mem s) D = {}" using c(5) by blast
  have C': "n = 0 \<and> C = {} \<or> n = 1 \<and> C = {b} \<and> entry (mem u) (ucast c3) 8 = b OR rw_flags \<and> page_addr b"
    using C c(3) by auto
  note cu = cleanup_inv [OF inv _ dist(1) disj dist(2) C', folded t_def]
  show "slot_inv t (all_tables (mem s) D) (all_slots (mem s) D)" "mem t = mem u" using cu(1,2) S by blast+
  show "same_dirs t s" using cu(3) [OF S] c(10) by (rule same_dirs_trans)
  show "frame_refcount t f = frame_refcount u f" if "f \<notin> page_no ` ({ucast c1, ucast c2, ucast c3} \<union> C)" for f
    using S that by (rule cu(4))
qed

lemma cloned_none: "spaces_ok s D \<Longrightarrow> cloned s D d s {} {} 0"
  using spaces_okD(2) by (simp add: cloned_def shared_entry_def given_def)

lemma clone_eq:
  assumes shape: "dir_shape (mem s) d" and kern: "kernel_pml4 s \<noteq> 0"
    and al: "physmem_alloc_frame s = (c1, s1)" "physmem_alloc_frame s1 = (c2, s2)" "physmem_alloc_frame s2 = (c3, s3)"
  shows "paging_cow_clone_user_directory d s =
    (if c1 = 0 \<or> c2 = 0 \<or> c3 = 0 then (0, free_if c3 (free_if c2 (free_if c1 s3)))
     else let (ok, t) = cow_clone_tables d (dir_pd (mem s) d) (c1, c2, c3) [0..<USER_PD_COUNT]
                          (cow_link (ucast c1) (ucast c2) (ucast c3) d (dir_pdpt (mem s) d) (dir_pd (mem s) d) s3)
          in (if ok then ucast c1 else 0, t))"
proof -
  have sub: "entry_subtable (entry (mem s) d 0) = dir_pdpt (mem s) d"
    "entry_subtable (entry (mem s) (dir_pdpt (mem s) d) 0) = dir_pd (mem s) d"
    using shape by (simp_all add: dir_shape_def table_ref_def entry_subtable_def dir_pdpt_def dir_pd_def)
  have "d \<noteq> 0" "dir_pdpt (mem s) d \<noteq> 0" "dir_pd (mem s) d \<noteq> 0"
    using shape by (auto simp: dir_shape_def dir_tables_def)
  then show ?thesis
    using kern by (simp add: paging_cow_clone_user_directory_def Let_def sub al del: cow_clone_tables.simps)
qed

text \<open>The loop over the two page tables, from the state with the three upper tables linked.\<close>

lemma clone_tables_run:
  fixes s L :: "'a paging_st_scheme"
  assumes ok: "spaces_ok s D" and d: "d \<in> D" and lim: "fork_limit s d"
    and cl: "cloned s D d L {a1, a2, ucast c3} {} 0"
    and k0: "physmem_alloc_frame L = (k0, t1)"
    and k1: "physmem_alloc_frame (clone_round d (dir_pt (mem s) d 0) (ucast c3) 0 (ucast k0) t1) = (k1, t2)"
  shows "cow_clone_tables d (dir_pd (mem s) d) (c1, c2, c3) [0..<USER_PD_COUNT] L =
     (if k0 = 0 then (False, cow_cleanup (ucast c3) c1 c2 c3 0 t1)
      else if k1 = 0 then (False, cow_cleanup (ucast c3) c1 c2 c3 1 t2)
      else (True, clone_round d (dir_pt (mem s) d 1) (ucast c3) 1 (ucast k1) t2))"
proof (subst cow_clone_tables_eq [of L "dir_pd (mem s) d" d "dir_pt (mem s) d 0" c3 "dir_pt (mem s) d 1"])
  let ?m = "mem s"
  note shape = spaces_okD(3) [OF ok d]
  have pd: "dir_pd ?m d \<in> all_tables ?m D" "dir_pd ?m d \<noteq> dir_pt ?m d 0" "dir_pd ?m d \<noteq> dir_pt ?m d 1"
    using d shape by (auto simp: all_tables_def dir_tables_def dir_shape_def)
  have eL: "entry (mem L) (dir_pd ?m d) j = entry ?m (dir_pd ?m d) j" if "j < 512" for j
    using clonedD(7) [OF cl pd(1) that] by (simp add: shared_entry_def)
  show "table_ref (entry (mem L) (dir_pd ?m d) 8)" using shape eL by (simp add: dir_shape_def)
  show "dir_pt ?m d 0 = phys_to_virt (entry (mem L) (dir_pd ?m d) 8)"
    "dir_pt ?m d 1 = phys_to_virt (entry (mem L) (dir_pd ?m d) 9)" using eL by (simp_all add: dir_pt_def)
  fix a v b w assume a: "physmem_alloc_frame L = (a, v)" "a \<noteq> 0"
  note r0 = cloned_round(1) [where ?a3.0 = "ucast c3", OF ok d cl _ lim _ _ a, simplified]
  then have "entry (mem (clone_round d (dir_pt ?m d 0) (ucast c3) 0 (ucast a) v)) (dir_pd ?m d) 9 = entry ?m (dir_pd ?m d) 9"
    using clonedD(7) [OF r0, of "dir_pd ?m d" 9] pd by (simp add: shared_entry_def)
  then show "table_ref (entry (mem L) (dir_pd ?m d) 9) \<and>
      entry (mem (clone_round d (dir_pt ?m d 0) (ucast c3) 0 (ucast a) v)) (dir_pd ?m d) 9 = entry (mem L) (dir_pd ?m d) 9"
    using shape eL by (simp add: dir_shape_def)
qed (simp_all add: k0 k1)

lemma clone_both_tables:
  fixes s L :: "'a paging_st_scheme"
  assumes ok: "spaces_ok s D" and d: "d \<in> D" and lim: "fork_limit s d"
    and cl: "cloned s D d L {a1, a2, a3} {} 0" "distinct [a1, a2, a3]"
    and L: "entry (mem L) a1 0 = a2 OR rw_flags" "entry (mem L) a2 0 = a3 OR rw_flags"
    and k0: "physmem_alloc_frame L = (k0, t1)" "k0 \<noteq> 0"
    and k1: "physmem_alloc_frame (clone_round d (dir_pt (mem s) d 0) a3 0 (ucast k0) t1) = (k1, t2)" "k1 \<noteq> 0"
  defines "b0 \<equiv> ucast k0 :: u64" and "b1 \<equiv> ucast k1 :: u64"
  defines "t \<equiv> clone_round d (dir_pt (mem s) d 1) a3 1 b1 t2"
  shows "cloned s D d t {a1, a2, a3, b0, b1} ({b0} \<times> {0..<512} \<union> {b1} \<times> {0..<512}) 2" "distinct [a1, a2, a3, b0, b1]"
    "entry (mem t) a1 0 = a2 OR rw_flags" "entry (mem t) a2 0 = a3 OR rw_flags"
    "entry (mem t) a3 8 = b0 OR rw_flags" "entry (mem t) a3 9 = b1 OR rw_flags"
    "\<And>j. j < 512 \<Longrightarrow> entry (mem t) b0 j = cow_child j (entry (mem s) (dir_pt (mem s) d 0) j)"
    "\<And>j. j < 512 \<Longrightarrow> entry (mem t) b1 j = cow_child (512 + j) (entry (mem s) (dir_pt (mem s) d 1) j)"
proof -
  let ?U = "clone_round d (dir_pt (mem s) d 0) a3 0 b0 t1" and ?C = "insert b0 {a1, a2, a3}"
  note r0 = cloned_round [where ?a3.0 = a3, OF ok d cl(1) _ lim _ _ k0, folded b0_def, simplified]
  have N: "(a3, i) \<notin> {b0} \<times> {0..<512}" for i using r0(2) by auto
  note r1 = cloned_round [where ?a3.0 = a3, OF ok d r0(1) _ lim _ N k1 [folded b0_def], folded b1_def]
  have C: "insert b1 ?C = {a1, a2, a3, b0, b1}" and two: "Suc (Suc 0) = 2" by auto
  show "cloned s D d t {a1, a2, a3, b0, b1} ({b0} \<times> {0..<512} \<union> {b1} \<times> {0..<512}) 2"
    using r1(1) unfolding C two t_def by simp
  show "distinct [a1, a2, a3, b0, b1]" using cl(2) r0(2) r1(2) by auto
  have en: "entry (mem t) v j = (if v = a3 \<and> j = 9 then b1 OR rw_flags else entry (mem ?U) v j)" if "v \<in> ?C" "j < 512" for v j
    using r1(3) [of v j] that unfolding t_def by simp
  have en0: "entry (mem ?U) v j = (if v = a3 \<and> j = 8 then b0 OR rw_flags else entry (mem L) v j)" if "v \<in> {a1, a2, a3}" "j < 512" for v j
    using r0(3) [of v j] that by auto
  show "entry (mem t) a1 0 = a2 OR rw_flags" "entry (mem t) a2 0 = a3 OR rw_flags" using en [of _ 0] en0 [of _ 0] L by auto
  show "entry (mem t) a3 8 = b0 OR rw_flags" "entry (mem t) a3 9 = b1 OR rw_flags" using en en0 by auto
  show "entry (mem t) b0 j = cow_child j (entry (mem s) (dir_pt (mem s) d 0) j)" if "j < 512" for j
    using en [of b0 j] r0(2) r0(4) [of j] that by simp
  show "entry (mem t) b1 j = cow_child (512 + j) (entry (mem s) (dir_pt (mem s) d 1) j)" if "j < 512" for j
    using r1(4) [of j] that unfolding t_def by simp
qed

text \<open>No round of the loop takes a frame, and none is given back.\<close>

lemma clone_round_free: "free_frames (clone_round d ppt npd ti c s) = free_frames s"
proof -
  have one: "free_frames (cow_share_page d ppt c ti p s) = free_frames s" for p and s :: "'a paging_st_scheme"
    by (simp add: cow_share_page_def Let_def put_entry_def physmem_ref_frame_def paging_invalidate_page_def)
  have "free_frames (fold (cow_share_page d ppt c ti) ps s) = free_frames s" for ps
    by (induction ps arbitrary: s) (simp_all add: one)
  then show ?thesis by (simp add: clone_round_def put_entry_def)
qed

text \<open>How a clone ends: in the middle, with its tables given back, or complete.\<close>

lemma clone_cases:
  fixes s t :: "'a paging_st_scheme"
  assumes ok: "spaces_ok s D" and d: "d \<in> D" and lim: "fork_limit s d" and kern: "kernel_pml4 s \<noteq> 0"
    and res: "paging_cow_clone_user_directory d s = (c, t)"
  obtains (failed) u C N n where "c = 0" "cloned s D d u C N n"
      "slot_inv t (all_tables (mem s) D) (all_slots (mem s) D)" "mem t = mem u" "same_dirs t s"
      "\<And>f. f \<notin> page_no ` C \<Longrightarrow> frame_refcount t f = frame_refcount u f"
      "free_frames s < 5" "n = (if free_frames s = 4 then 1 else 0)"
  | (complete) a2 a3 b0 b1 where
      "cloned s D d t {c, a2, a3, b0, b1} ({b0} \<times> {0..<512} \<union> {b1} \<times> {0..<512}) 2" "distinct [c, a2, a3, b0, b1]"
      "entry (mem t) c 0 = a2 OR rw_flags" "entry (mem t) a2 0 = a3 OR rw_flags"
      "entry (mem t) a3 8 = b0 OR rw_flags" "entry (mem t) a3 9 = b1 OR rw_flags"
      "\<And>j. j < 512 \<Longrightarrow> entry (mem t) b0 j = cow_child j (entry (mem s) (dir_pt (mem s) d 0) j)"
      "\<And>j. j < 512 \<Longrightarrow> entry (mem t) b1 j = cow_child (512 + j) (entry (mem s) (dir_pt (mem s) d 1) j)" "free_frames s = free_frames t + 5"
proof -
  obtain c1 s1 where al1: "physmem_alloc_frame s = (c1, s1)" by fastforce
  obtain c2 s2 where al2: "physmem_alloc_frame s1 = (c2, s2)" by fastforce
  obtain c3 s3 where al3: "physmem_alloc_frame s2 = (c3, s3)" by fastforce
  note al = al1 al2 al3
  have als: "allocs s [c1, c2, c3] s3" by (simp add: al)
  note cnt = allocs_count [OF spaces_okD(6) [OF ok] als] and eq = clone_eq [OF spaces_okD(3) [OF ok d] kern al, unfolded res]
  show thesis
  proof (cases "c1 = 0 \<or> c2 = 0 \<or> c3 = 0")
    case True
    then have "c = 0" "t = fold free_if [c1, c2, c3] s3" using eq by simp_all
    moreover have "free_frames s < 3" using cnt(2) True by auto
    ultimately show thesis
      using that(1) [OF _ cloned_none [OF ok]] allocs_undone [OF spaces_okD(2) [OF ok] als] by simp
  next
    case False
    let ?a = "ucast c3 :: u64" and ?A = "{ucast c1, ucast c2, ucast c3} :: u64 set"
    let ?L = "cow_link (ucast c1) (ucast c2) ?a d (dir_pdpt (mem s) d) (dir_pd (mem s) d) s3"
    have nz: "c1 \<noteq> 0" "c2 \<noteq> 0" "c3 \<noteq> 0" using False by auto
    note st = clone_start [OF ok d al nz]
    obtain k0 t1 where k0: "physmem_alloc_frame ?L = (k0, t1)" by fastforce
    let ?U = "clone_round d (dir_pt (mem s) d 0) ?a 0 (ucast k0) t1"
    obtain k1 t2 where k1: "physmem_alloc_frame ?U = (k1, t2)" by fastforce
    note tabs = clone_tables_run [OF ok d lim st(1) k0 k1, of c1 c2]
    have fL: "free_frames s = free_frames ?L + 3" using cnt(1) nz by (simp add: cow_link_free)
    note n0 = alloc_frame_count [OF slot_invD(1) [OF clonedD(1) [OF st(1)]] k0]
    show thesis
    proof (cases "k0 = 0")
      case True
      have "t1 = ?L" using alloc_none [OF slot_invD(1) [OF clonedD(1) [OF st(1)]]] k0 True by simp
      moreover have "cloned s D d ?L (?A \<union> {}) {} 0" using st(1) by simp
      note cu = cloned_cleanup [OF this st(2)]
      ultimately show thesis using that(1) [OF _ st(1)] eq False tabs True n0(1) fL by simp
    next
      case k0z: False
      have C: "insert (ucast k0) ?A = ?A \<union> {ucast k0 :: u64}" by auto
      note r0 = cloned_round [where ?a3.0 = "?a", OF ok d st(1) _ lim _ _ k0 k0z, simplified, unfolded C]
      have fU: "free_frames s = free_frames ?U + 4" using n0 k0z fL by (simp add: clone_round_free)
      note n1 = alloc_frame_count [OF slot_invD(1) [OF clonedD(1) [OF r0(1)]] k1]
      show thesis
      proof (cases "k1 = 0")
        case True
        have "t2 = ?U" using alloc_none [OF slot_invD(1) [OF clonedD(1) [OF r0(1)]]] k1 True by simp
        then have ct: "c = 0" "t = cow_cleanup ?a c1 c2 c3 (Suc 0) ?U" using eq False tabs True k0z by simp_all
        have dj: "{ucast k0} \<inter> ?A = {}" using r0(2) by auto
        note cu = cloned_cleanup [OF r0(1) st(2) dj, of "ucast k0", folded ct(2)]
        show thesis by (rule that(1) [OF ct(1) r0(1)]) (use cu r0(3) [of ?a 8] fU n1(1) True in auto)
      next
        case k1z: False
        have ct: "c = ucast c1" "t = clone_round d (dir_pt (mem s) d 1) ?a 1 (ucast k1) t2" using eq False tabs k0z k1z by simp_all
        show thesis
          by (rule that(2); (rule clone_both_tables [OF ok d lim st k0 k0z k1 k1z, folded ct], assumption?)?)
             (use n1(1,2) k1z fU ct(2) in \<open>simp add: clone_round_free\<close>)
      qed
    qed
  qed
qed

text \<open>
  The function as a whole. A clone that succeeds gives a new space with the parent's memory, outside
  the window of shared memory; one that fails gives no space. In both cases every program there was
  sees what it saw before.
\<close>

lemma fork_spec:
  fixes s t :: "'a paging_st_scheme"
  assumes ok: "spaces_ok s D" and d: "d \<in> D" and lim: "fork_limit s d" and kern: "kernel_pml4 s \<noteq> 0"
    and res: "paging_cow_clone_user_directory d s = (c, t)"
  shows "c \<noteq> 0 \<Longrightarrow> c \<notin> D" "spaces_ok t (if c = 0 then D else insert c D)" "same_dirs t s"
    "d' \<in> D \<Longrightarrow> p < 1024 \<Longrightarrow> off < 4096 \<Longrightarrow> view t d' p off = view s d' p off"
    "c \<noteq> 0 \<Longrightarrow> p < 1024 \<Longrightarrow> off < 4096 \<Longrightarrow> view t c p off = (if window p then None else view s d p off)"
proof -
  have "(c \<noteq> 0 \<longrightarrow> c \<notin> D) \<and> spaces_ok t (if c = 0 then D else insert c D) \<and> same_dirs t s \<and>
    (\<forall>d' p off. d' \<in> D \<longrightarrow> p < 1024 \<longrightarrow> off < 4096 \<longrightarrow> view t d' p off = view s d' p off) \<and>
    (\<forall>p off. c \<noteq> 0 \<longrightarrow> p < 1024 \<longrightarrow> off < 4096 \<longrightarrow> view t c p off = (if window p then None else view s d p off))"
    using ok d lim kern res
  proof (cases rule: clone_cases)
    case (failed u C N n)
    then show ?thesis using cloned_spaces(1,3) [OF ok d failed(2-4)] by simp
  next
    case (complete a2 a3 b0 b1)
    then show ?thesis using clone_done [OF ok d complete(1-8)] clonedD(10) [OF complete(1)] by simp
  qed
  then show "c \<noteq> 0 \<Longrightarrow> c \<notin> D" "spaces_ok t (if c = 0 then D else insert c D)" "same_dirs t s"
    "d' \<in> D \<Longrightarrow> p < 1024 \<Longrightarrow> off < 4096 \<Longrightarrow> view t d' p off = view s d' p off"
    "c \<noteq> 0 \<Longrightarrow> p < 1024 \<Longrightarrow> off < 4096 \<Longrightarrow> view t c p off = (if window p then None else view s d p off)"
    by blast+
qed

end
