(* ===== verification/User_Space.thy ===== *)
theory User_Space
  imports Fork
begin

text \<open>
  The beginning and the end of an address space. The end is what \<^verbatim>\<open>clear_task\<close> does with the directory
  of a task: either the pages are given back one by one, for a task that has been cloned, or the
  region of the program as a whole, and then the tables. The beginning is what the functions
  \<^verbatim>\<open>usermode_spawn_*\<close> do: a region of frames, a directory that maps it, and the program in it.
\<close>

unbundle bit_operations_syntax

section \<open>Changes of the counts\<close>

text \<open>Only the counts of the frames that tables and slots use matter.\<close>

lemma slot_inv_counts:
  assumes inv: "slot_inv s K S" and t: "physmem_inv t" "total_frames t = total_frames s"
    and sl: "\<And>x. x \<in> S \<Longrightarrow> slot (mem t) x = slot (mem s) x"
    and K: "\<And>u. u \<in> K \<Longrightarrow> frame_refcount t (page_no u) = frame_refcount s (page_no u)"
    and S: "\<And>x. x \<in> S \<Longrightarrow> has (slot (mem s) x) PG_PRESENT \<Longrightarrow>
      frame_refcount t (frame_of (slot (mem s) x)) = frame_refcount s (frame_of (slot (mem s) x))"
  shows "slot_inv t K S"
proof -
  have r: "refs (mem t) S f = refs (mem s) S f" for f using sl by (auto simp: refs_def)
  have card: "card (refs (mem s) S f) \<le> unat (frame_refcount t f)" for f
  proof (cases "refs (mem s) S f = {}")
    case False
    then obtain x where "x \<in> S" "has (slot (mem s) x) PG_PRESENT" "frame_of (slot (mem s) x) = f" by (auto simp: refs_def)
    then show ?thesis using S slot_invD(9) [OF inv, of f] by metis
  qed simp
  have tab: "table_frame t u" if "u \<in> K" for u using slot_invD(5) [OF inv that] K [OF that] t by (simp add: table_frame_def)
  have fr: "256 \<le> frame_of (slot (mem t) x)" "frame_of (slot (mem t) x) < total_frames t" "frame_of (slot (mem t) x) \<notin> page_no ` K"
    "has (slot (mem t) x) PG_WRITABLE \<Longrightarrow> refs (mem s) S (frame_of (slot (mem t) x)) = {x}"
    if "x \<in> S" "has (slot (mem t) x) PG_PRESENT" for x
    using that(2) slot_invD(6-8,10) [OF inv that(1)] unfolding sl [OF that(1)] t(2) by blast+
  show ?thesis
    unfolding slot_inv_def r
    by (intro conjI ballI allI impI) (simp_all only: card tab fr t(1) slot_invD(2-4) [OF inv] not_False_eq_True)
qed

text \<open>New slots, each with a frame of its own.\<close>

lemma slot_inv_add:
  assumes inv: "slot_inv s K S" and N: "finite N" "\<And>x. x \<in> N \<Longrightarrow> fst x \<in> K \<and> snd x < 512"
    and fr: "\<And>x. x \<in> N \<Longrightarrow> has (slot (mem s) x) PG_PRESENT \<Longrightarrow>
        256 \<le> frame_of (slot (mem s) x) \<and> frame_of (slot (mem s) x) < total_frames s \<and>
        frame_of (slot (mem s) x) \<notin> page_no ` K \<and> frame_refcount s (frame_of (slot (mem s) x)) \<noteq> 0 \<and>
        refs (mem s) S (frame_of (slot (mem s) x)) = {}"
    and inj: "\<And>x y. x \<in> N \<Longrightarrow> y \<in> N \<Longrightarrow> has (slot (mem s) x) PG_PRESENT \<Longrightarrow> has (slot (mem s) y) PG_PRESENT \<Longrightarrow>
        frame_of (slot (mem s) x) = frame_of (slot (mem s) y) \<Longrightarrow> x = y"
  shows "slot_inv s K (S \<union> N)"
proof -
  have new: "refs (mem s) (S \<union> N) (frame_of (slot (mem s) x)) = {x}" if "x \<in> N" "has (slot (mem s) x) PG_PRESENT" for x
  proof -
    have "y = x" if "y \<in> S \<union> N" "has (slot (mem s) y) PG_PRESENT" "frame_of (slot (mem s) y) = frame_of (slot (mem s) x)" for y
    proof (cases "y \<in> N")
      case True
      then show ?thesis using inj [OF True \<open>x \<in> N\<close>] that \<open>has (slot (mem s) x) PG_PRESENT\<close> by blast
    next
      case False
      then have "y \<in> refs (mem s) S (frame_of (slot (mem s) x))" using that by (simp add: refs_def)
      then show ?thesis using fr [OF \<open>x \<in> N\<close>] \<open>has (slot (mem s) x) PG_PRESENT\<close> by simp
    qed
    then show ?thesis using that by (auto simp: refs_def)
  qed
  have old: "refs (mem s) (S \<union> N) f = refs (mem s) S f" if "\<And>x. x \<in> N \<Longrightarrow> has (slot (mem s) x) PG_PRESENT \<Longrightarrow> frame_of (slot (mem s) x) \<noteq> f" for f
    using that by (auto simp: refs_def)
  have card: "card (refs (mem s) (S \<union> N) f) \<le> unat (frame_refcount s f)" for f
  proof (cases "\<exists>x \<in> N. has (slot (mem s) x) PG_PRESENT \<and> frame_of (slot (mem s) x) = f")
    case True
    then obtain x where x: "x \<in> N" "has (slot (mem s) x) PG_PRESENT" "frame_of (slot (mem s) x) = f" by blast
    then have "unat (frame_refcount s f) \<noteq> 0" using fr [OF x(1,2)] by (simp add: unat_eq_0)
    then show ?thesis using new [OF x(1,2)] x(3) by simp
  next
    case False
    then show ?thesis using old [of f] slot_invD(9) [OF inv, of f] by auto
  qed
  have wr: "refs (mem s) (S \<union> N) (frame_of (slot (mem s) x)) = {x}"
    if "x \<in> S \<union> N" "has (slot (mem s) x) PG_PRESENT" "has (slot (mem s) x) PG_WRITABLE" for x
  proof (cases "x \<in> N")
    case False
    then have x: "x \<in> S" using that by blast
    then have "x \<in> refs (mem s) S (frame_of (slot (mem s) x))" using that(2) by (simp add: refs_def)
    then have "frame_of (slot (mem s) y) \<noteq> frame_of (slot (mem s) x)" if "y \<in> N" "has (slot (mem s) y) PG_PRESENT" for y
      using fr [OF that] by auto
    then show ?thesis using old slot_invD(10) [OF inv x that(2,3)] by auto
  qed (use new that(2) in blast)
  show ?thesis
    unfolding slot_inv_def
  proof (intro conjI ballI allI impI)
    show "physmem_inv s" "finite (S \<union> N)" using slot_invD(1,2) [OF inv] N(1) by simp_all
    show "table_frame s u" if "u \<in> K" for u using slot_invD(5) [OF inv that] .
    fix x assume x: "x \<in> S \<union> N"
    then show "fst x \<in> K" "snd x < 512" using slot_invD(3,4) [OF inv] N(2) by blast+
    assume "has (slot (mem s) x) PG_PRESENT"
    then show "256 \<le> frame_of (slot (mem s) x)" "frame_of (slot (mem s) x) < total_frames s" "frame_of (slot (mem s) x) \<notin> page_no ` K"
      using x slot_invD(6-8) [OF inv] fr by blast+
  qed (fact card wr)+
qed

section \<open>Giving tables back\<close>

lemma destroy_eq:
  assumes shape: "dir_shape (mem s) d" and d: "d \<noteq> kernel_pml4 s"
  shows "paging_destroy_user_directory d s = fold (\<lambda>u. physmem_free_frame (ucast u))
    [dir_pt (mem s) d 0, dir_pt (mem s) d 1, dir_pd (mem s) d, dir_pdpt (mem s) d, d] s"
proof -
  have start: "USER_PD_START = 8" by (simp add: USER_PD_START_def PAGING_USER_BASE_def)
  have list: "[0..<USER_PD_COUNT] = [0, 1]" by (simp add: USER_PD_COUNT_def upt_rec)
  have "d \<noteq> 0" using shape by (auto simp: dir_shape_def dir_tables_def)
  then show ?thesis
    using shape d unfolding paging_destroy_user_directory_def free_user_pts_def list
    by (simp add: Let_def start dir_shape_def table_ref_def dir_pdpt_def dir_pd_def dir_pt_def phys_to_virt_def)
qed

section \<open>Giving pages back\<close>

lemma release_page_count:
  assumes inv: "slot_inv s K S" and x: "(t, i) \<in> S"
    and f: "has (entry (mem s) t i) PG_PRESENT \<Longrightarrow> frame_of (entry (mem s) t i) \<noteq> f"
  shows "frame_refcount (release_page t i s) f = frame_refcount s f"
proof (cases "has (entry (mem s) t i) PG_PRESENT")
  case True
  have pr: "has (slot (mem s) (t, i)) PG_PRESENT" using True by (simp add: slot_def)
  have e: "slot (mem s) (t, i) = entry (mem s) t i" by (simp add: slot_def)
  note fr = slot_invD(6,7) [OF inv x pr, unfolded e] refs_count_pos [OF inv x pr, unfolded e]
  note un = unref_frame_page(1) [of "entry (mem s) t i AND PG_ADDR_MASK" s, folded frame_of_def, OF page_addr_masked fr(1,2) slot_invD(1) [OF inv] fr(3)]
  then show ?thesis using True f by (simp add: release_page_def un)
qed (simp add: release_page_def)

lemma release_table:
  fixes s :: "'a paging_st_scheme"
  assumes "slot_inv s K S" "\<And>i. i < 512 \<Longrightarrow> (pt, i) \<in> S" "n \<le> 512"
  defines "t \<equiv> fold (release_page pt) [0..<n] s"
  shows "slot_inv t K S" "same_dirs t s"
    "\<And>u j. u \<in> K \<Longrightarrow> j < 512 \<Longrightarrow> entry (mem t) u j =
       (if u = pt \<and> j < n \<and> has (entry (mem s) u j) PG_PRESENT then 0 else entry (mem s) u j)"
    "\<And>a. page_no a \<noteq> page_no pt \<Longrightarrow> mem t a = mem s a"
    "\<And>f. (\<And>j. j < n \<Longrightarrow> has (entry (mem s) pt j) PG_PRESENT \<Longrightarrow> frame_of (entry (mem s) pt j) \<noteq> f) \<Longrightarrow>
       frame_refcount t f = frame_refcount s f"
proof -
  have "slot_inv t K S \<and> same_dirs t s \<and> (\<forall>u \<in> K. \<forall>j < 512. entry (mem t) u j =
       (if u = pt \<and> j < n \<and> has (entry (mem s) u j) PG_PRESENT then 0 else entry (mem s) u j)) \<and>
     (\<forall>a. page_no a \<noteq> page_no pt \<longrightarrow> mem t a = mem s a) \<and>
     (\<forall>f. (\<forall>j < n. has (entry (mem s) pt j) PG_PRESENT \<longrightarrow> frame_of (entry (mem s) pt j) \<noteq> f) \<longrightarrow>
       frame_refcount t f = frame_refcount s f)"
    using assms(3) unfolding t_def
  proof (induction n)
    case 0
    then show ?case using assms(1) by simp
  next
    case (Suc n)
    let ?t = "fold (release_page pt) [0..<n] s"
    have IH: "slot_inv ?t K S" "same_dirs ?t s" "\<And>u j. u \<in> K \<Longrightarrow> j < 512 \<Longrightarrow> entry (mem ?t) u j =
       (if u = pt \<and> j < n \<and> has (entry (mem s) u j) PG_PRESENT then 0 else entry (mem s) u j)"
      "\<And>a. page_no a \<noteq> page_no pt \<Longrightarrow> mem ?t a = mem s a"
      "\<And>f. \<forall>j < n. has (entry (mem s) pt j) PG_PRESENT \<longrightarrow> frame_of (entry (mem s) pt j) \<noteq> f \<Longrightarrow> frame_refcount ?t f = frame_refcount s f"
      using Suc by auto
    have n: "n < 512" using Suc.prems by simp
    note x = assms(2) [OF n]
    have pt: "pt \<in> K" using slot_invD(3) [OF assms(1) x] by simp
    have eq: "fold (release_page pt) [0..<Suc n] s = release_page pt n ?t" by simp
    note rp = release_page_inv [OF IH(1) x] and rc = release_page_count [OF IH(1) x]
    have en: "entry (mem ?t) pt n = entry (mem s) pt n" using IH(3) [OF pt n] by simp
    have pg: "paged u" if "u \<in> K" for u using slot_inv_paged [OF IH(1) that] .
    show ?case
      unfolding eq
    proof (intro conjI ballI allI impI)
      show "slot_inv (release_page pt n ?t) K S" by (rule rp(1))
      show "same_dirs (release_page pt n ?t) s" using rp(4) IH(2) by (rule same_dirs_trans)
      show "entry (mem (release_page pt n ?t)) u j =
         (if u = pt \<and> j < Suc n \<and> has (entry (mem s) u j) PG_PRESENT then 0 else entry (mem s) u j)" if "u \<in> K" "j < 512" for u j
        unfolding rp(2) [OF pg [OF that(1)] that(2)] en IH(3) [OF that] by (auto simp: less_Suc_eq)
      show "mem (release_page pt n ?t) a = mem s a" if "page_no a \<noteq> page_no pt" for a
        using rp(3) [OF that] IH(4) [OF that] by simp
      show "frame_refcount (release_page pt n ?t) f = frame_refcount s f"
        if "\<forall>j < Suc n. has (entry (mem s) pt j) PG_PRESENT \<longrightarrow> frame_of (entry (mem s) pt j) \<noteq> f" for f
        using rc [of f] IH(5) [of f] that en by simp
    qed
  qed
  then show "slot_inv t K S" "same_dirs t s"
    "\<And>u j. u \<in> K \<Longrightarrow> j < 512 \<Longrightarrow> entry (mem t) u j =
       (if u = pt \<and> j < n \<and> has (entry (mem s) u j) PG_PRESENT then 0 else entry (mem s) u j)"
    "\<And>a. page_no a \<noteq> page_no pt \<Longrightarrow> mem t a = mem s a"
    "\<And>f. (\<And>j. j < n \<Longrightarrow> has (entry (mem s) pt j) PG_PRESENT \<Longrightarrow> frame_of (entry (mem s) pt j) \<noteq> f) \<Longrightarrow>
       frame_refcount t f = frame_refcount s f"
    by blast+
qed

text \<open>All pages of a space.\<close>

lemma release_pages:
  fixes s :: "'a paging_st_scheme"
  assumes ok: "spaces_ok s D" and d: "d \<in> D"
  defines "t \<equiv> paging_release_user_pages d s" and "K \<equiv> all_tables (mem s) D"
  shows "slot_inv t K (all_slots (mem s) D)" "same_dirs t s"
    "\<And>u j. u \<in> K \<Longrightarrow> u \<noteq> dir_pt (mem s) d 0 \<Longrightarrow> u \<noteq> dir_pt (mem s) d 1 \<Longrightarrow> j < 512 \<Longrightarrow> entry (mem t) u j = entry (mem s) u j"
    "\<And>a. page_no a \<notin> page_no ` K \<Longrightarrow> mem t a = mem s a"
    "\<And>f. refs (mem s) (user_slots (mem s) d) f = {} \<Longrightarrow> frame_refcount t f = frame_refcount s f"
proof -
  let ?S = "all_slots (mem s) D" and ?p = "dir_pt (mem s) d"
  let ?r = "\<lambda>ti. fold (release_page (?p ti)) [0..<512]"
  note shape = spaces_okD(3) [OF ok d] and inv = spaces_okD(2) [OF ok, folded K_def]
  have list: "[0..<USER_PD_COUNT] = [0, 1]" by (simp add: USER_PD_COUNT_def upt_rec)
  have S: "(?p k, i) \<in> ?S" if "k < 2" "i < 512" for k i
    using d that by (auto simp: all_slots_def user_slots_def less_2_cases_iff)
  have pK: "?p k \<in> K" if "k < 2" for k using dir_pt_in [OF that] d unfolding K_def all_tables_def by blast
  have ne: "?p 0 \<noteq> ?p 1" using shape by (rule dir_pt_cases)
  note r0 = release_table [OF inv S, of 0 512, simplified]
  note r1 = release_table [OF r0(1) S, of 1 512, simplified]
  have up: "same_upper (mem (?r 0 s)) (mem s) {d}"
    unfolding same_upper_def using r0(3) shape d upper_in_all [OF d, of _ "mem s", folded K_def]
    by (auto simp: dir_shape_def dir_tables_def)
  have sh1: "dir_shape (mem (?r 0 s)) d" "dir_pt (mem (?r 0 s)) d 1 = ?p 1"
    using same_upper_dirs(1,2) [OF up, of d] shape by (simp_all add: dir_tables_def)
  have pts: "user_pt_for d (user_va 0) s = ?p 0" "user_pt_for d (user_va 512) (?r 0 s) = ?p 1"
    using user_pt_for_shape [OF shape] user_pt_for_shape [OF sh1(1)] upage_user_va [of 0] upage_user_va [of 512] sh1(2) by simp_all
  have nz: "d \<noteq> 0" "?p 0 \<noteq> 0" "?p 1 \<noteq> 0" using shape by (auto simp: dir_shape_def dir_tables_def)
  have t: "t = ?r 1 (?r 0 s)"
    unfolding t_def paging_release_user_pages_def list ENTRIES_PER_TABLE_def using nz pts by (simp del: upt_conv_Cons add: Let_def)
  show "slot_inv t K ?S" "same_dirs t s" unfolding t using r1(1,2) r0(2) by (auto intro: same_dirs_trans)
  show "entry (mem t) u j = entry (mem s) u j" if "u \<in> K" "u \<noteq> ?p 0" "u \<noteq> ?p 1" "j < 512" for u j
    unfolding t using r1(3) [of u j] r0(3) [of u j] that by simp
  show "mem t a = mem s a" if "page_no a \<notin> page_no ` K" for a
    unfolding t using r1(4) [of a] r0(4) [of a] that pK [of 0] pK [of 1] by (simp add: image_iff)
  show "frame_refcount t f = frame_refcount s f" if f: "refs (mem s) (user_slots (mem s) d) f = {}" for f
  proof -
    have no: "frame_of (entry (mem s) (?p k) j) \<noteq> f" if "k < 2" "j < 512" "has (entry (mem s) (?p k) j) PG_PRESENT" for k j
    proof -
      have "(?p k, j) \<in> user_slots (mem s) d" using that(1,2) by (auto simp: user_slots_def less_2_cases_iff)
      then show ?thesis using f that(3) unfolding refs_def slot_def by fastforce
    qed
    have e1: "entry (mem (?r 0 s)) (?p 1) j = entry (mem s) (?p 1) j" if "j < 512" for j
      using r0(3) [OF pK that, of 1] ne by simp
    show ?thesis unfolding t using r1(5) [of f] r0(5) [of f] no [of 0] no [of 1] e1 by simp
  qed
qed

section \<open>The end of a space\<close>

text \<open>
  \<^verbatim>\<open>clear_task\<close> and \<^verbatim>\<open>zombify_task\<close>, for a user task with a directory and without
  attached segments of shared memory.
\<close>

definition task_free_space :: "u64 \<Rightarrow> u64 \<Rightarrow> 'a paging_st_scheme \<Rightarrow> 'a paging_st_scheme" where
  "task_free_space user_physical_base page_directory s =
     paging_destroy_user_directory page_directory
       (if user_physical_base \<noteq> 0 then physmem_free_region (ucast user_physical_base) (ucast PAGING_USER_SIZE) s
        else paging_release_user_pages page_directory s)"

text \<open>The spaces that are left, in a state that has kept their tables and pages.\<close>

lemma spaces_left:
  assumes ok: "spaces_ok s D" and D': "D' \<subseteq> D"
    and same: "\<And>u j. u \<in> all_tables (mem s) D' \<Longrightarrow> j < 512 \<Longrightarrow> entry (mem t) u j = entry (mem s) u j"
    and inv: "slot_inv t (all_tables (mem s) D') (all_slots (mem s) D')"
  shows "spaces_ok t D'" "same_upper (mem t) (mem s) D'"
proof -
  have st: "same_tables (mem t) (mem s) D'" using same by (simp add: same_tables_def)
  show "same_upper (mem t) (mem s) D'" using st by (rule same_tables_upper)
  have "slot_inv s (all_tables (mem s) D') (all_slots (mem s) D')"
    using D' all_slotsD [of _ "mem s" D'] by (intro slot_inv_subset [OF spaces_okD(2) [OF ok]]) (auto simp: all_tables_def all_slots_def)
  then have "spaces_ok s D'"
    using finite_subset [OF D'] spaces_okD(1,3-5) [OF ok] D' unfolding spaces_ok_def by (simp add: subset_iff)
  then show "spaces_ok t D'"
    using same_tables_own [OF st] spaces_okD(4) by (intro spaces_okI [OF _ same_tables_upper [OF st] inv]) blast+
qed

lemma destroy_left:
  fixes s t :: "'a paging_st_scheme"
  assumes ok: "spaces_ok s D" and d: "d \<in> D" and up: "same_upper (mem t) (mem s) {d}"
    and inv: "slot_inv t (all_tables (mem s) D) (all_slots (mem s) (D - {d}))"
    and same: "\<And>u j. u \<in> all_tables (mem s) (D - {d}) \<Longrightarrow> j < 512 \<Longrightarrow> entry (mem t) u j = entry (mem s) u j"
  defines "t' \<equiv> paging_destroy_user_directory d t"
  shows "spaces_ok t' (D - {d})" "same_upper (mem t') (mem s) (D - {d})" "mem t' = mem t" "same_dirs t' t"
    "\<And>f. f \<notin> page_no ` all_tables (mem s) D \<Longrightarrow> frame_refcount t' f = frame_refcount t f"
proof -
  let ?K = "all_tables (mem s) D" and ?K' = "all_tables (mem s) (D - {d})" and ?S' = "all_slots (mem s) (D - {d})"
  have tabs: "dir_tables (mem t) d = dir_tables (mem s) d" and shape: "dir_shape (mem t) d"
    using same_upper_dirs(1,2) [OF up, of d] spaces_okD(3) [OF ok d] by simp_all
  have K: "?K' = ?K - set (dir_tables (mem s) d)"
    using spaces_okD(5) [OF ok _ d] d unfolding all_tables_def by fastforce
  have S: "fst x \<in> ?K'" if "x \<in> ?S'" for x using all_slotsD [OF that] by simp
  have "slot_inv t' ?K' ?S' \<and> mem t' = mem t \<and> same_dirs t' t \<and>
      (\<forall>f. f \<notin> page_no ` ?K \<longrightarrow> frame_refcount t' f = frame_refcount t f)"
  proof (cases "d = kernel_pml4 t")
    case True
    then have "t' = t" by (simp add: t'_def paging_destroy_user_directory_def)
    then show ?thesis using slot_inv_subset [OF inv, of ?S' ?K'] S K by auto
  next
    case False
    let ?ts = "[dir_pt (mem t) d 0, dir_pt (mem t) d 1, dir_pd (mem t) d, dir_pdpt (mem t) d, d]"
    have ts: "set ?ts = set (dir_tables (mem s) d)" "distinct ?ts"
      unfolding tabs [symmetric] using shape by (auto simp: dir_tables_def dir_shape_def)
    have "set ?ts \<subseteq> ?K" using ts(1) table_in_all [OF d] by blast
    moreover have "fst x \<notin> set ?ts" if "x \<in> ?S'" for x using S [OF that] K ts(1) by blast
    ultimately have fr: "slot_inv t' (?K - set ?ts) ?S'" "mem t' = mem t" "same_dirs t' t"
      "\<And>f. frame_refcount t' f = (if f \<in> page_no ` set ?ts then 0 else frame_refcount t f)"
      unfolding t'_def destroy_eq [OF shape False] using free_tables [OF inv ts(2)] by blast+
    moreover have "page_no ` set ?ts \<subseteq> page_no ` ?K" using ts(1) table_in_all [OF d] by blast
    ultimately show ?thesis unfolding K ts(1) by auto
  qed
  then have r: "slot_inv t' ?K' ?S'" and m: "mem t' = mem t" and rest: "same_dirs t' t"
    "\<And>f. f \<notin> page_no ` ?K \<Longrightarrow> frame_refcount t' f = frame_refcount t f" by blast+
  show "mem t' = mem t" "same_dirs t' t" "\<And>f. f \<notin> page_no ` ?K \<Longrightarrow> frame_refcount t' f = frame_refcount t f" by (fact m rest)+
  show "spaces_ok t' (D - {d})" "same_upper (mem t') (mem s) (D - {d})"
    using same r by (intro spaces_left [OF ok]; simp add: m)+
qed

text \<open>The region of a program: its frames are held, and only the slots of the program refer to them.\<close>

definition region_frames :: "u64 \<Rightarrow> nat set" where
  "region_frames b = (if b = 0 then {} else {page_no b..<page_no b + 1024})"

definition region_own :: "'a paging_st_scheme \<Rightarrow> u64 set \<Rightarrow> u64 \<Rightarrow> u64 \<Rightarrow> bool" where
  "region_own s D d b \<longleftrightarrow>
     (b \<noteq> 0 \<longrightarrow> page_addr b \<and> 256 \<le> page_no b \<and> page_no b + 1024 \<le> total_frames s) \<and>
     (\<forall>f \<in> region_frames b. frame_refcount s f \<noteq> 0 \<and> f \<notin> page_no ` all_tables (mem s) D \<and>
        refs (mem s) (all_slots (mem s) D) f \<subseteq> user_slots (mem s) d)"

lemma region_ownD:
  assumes "region_own s D d b"
  shows "b \<noteq> 0 \<Longrightarrow> page_addr b" "b \<noteq> 0 \<Longrightarrow> 256 \<le> page_no b" "b \<noteq> 0 \<Longrightarrow> page_no b + 1024 \<le> total_frames s"
    "\<And>f. f \<in> region_frames b \<Longrightarrow> frame_refcount s f \<noteq> 0" "\<And>f. f \<in> region_frames b \<Longrightarrow> f \<notin> page_no ` all_tables (mem s) D"
    "\<And>f. f \<in> region_frames b \<Longrightarrow> refs (mem s) (all_slots (mem s) D) f \<subseteq> user_slots (mem s) d"
  using assms by (auto simp: region_own_def)

lemma fold_unref_other:
  fixes s :: "'a paging_st_scheme"
  assumes "\<And>g. g \<in> set fs \<Longrightarrow> g < PHYSMEM_MAX_FRAMES"
  defines "t \<equiv> fold (\<lambda>frame. physmem_unref_frame (of_nat (frame * 4096))) fs s"
  shows "mem t = mem s" "same_dirs t s" "f \<notin> set fs \<Longrightarrow> frame_refcount t f = frame_refcount s f"
proof -
  have one: "frame_refcount (physmem_unref_frame (of_nat (g * 4096)) s) f = frame_refcount s f"
    if "g < PHYSMEM_MAX_FRAMES" "f \<noteq> g" for g f and s :: "'a paging_st_scheme"
  proof -
    have "unat (of_nat (g * 4096) :: u32) = g * 4096" using that(1) by (rule unat_frame_addr)
    then have d: "unat (of_nat (g * 4096) :: u32) div 4096 = g" by simp
    show ?thesis unfolding physmem_unref_frame_def d using that(2) by (simp add: Let_def)
  qed
  have "mem t = mem s \<and> same_dirs t s \<and> (f \<notin> set fs \<longrightarrow> frame_refcount t f = frame_refcount s f)"
    using assms(1) unfolding t_def
  proof (induction fs arbitrary: s)
    case (Cons g fs)
    have "same_dirs (physmem_unref_frame (of_nat (g * 4096)) s) s" by (simp add: same_dirs_def)
    then show ?case using Cons one [of g f s] by (auto simp del: of_nat_mult intro: same_dirs_trans)
  qed simp
  then show "mem t = mem s" "same_dirs t s" "f \<notin> set fs \<Longrightarrow> frame_refcount t f = frame_refcount s f" by blast+
qed

lemma free_region_other:
  fixes s :: "'a paging_st_scheme"
  assumes inv: "physmem_inv s" and b: "page_addr b" "256 \<le> page_no b" "page_no b + 1024 \<le> total_frames s"
  defines "t \<equiv> physmem_free_region (ucast b) (ucast PAGING_USER_SIZE) s"
  shows "mem t = mem s" "same_dirs t s" "physmem_inv t" "f \<notin> region_frames b \<Longrightarrow> frame_refcount t f = frame_refcount s f"
proof -
  have len: "(ucast PAGING_USER_SIZE :: u32) = 0x400000" by (simp add: PAGING_USER_SIZE_def)
  have tot: "total_frames s < PHYSMEM_MAX_FRAMES" using inv by (simp add: physmem_inv_def)
  have lt: "page_no b < total_frames s" using b(3) by simp
  note u = ucast_page(1) [OF b(1) lt inv]
  have "unat (align_down (ucast b) PHYSMEM_FRAME_SIZE) div 4096 = page_no b"
    using u by (simp add: unat_align_down)
  moreover have "unat (ucast b + 0x400000 :: u32) = page_no b * 4096 + 0x400000"
    using u b(3) tot by (simp add: unat_word_ariths PHYSMEM_MAX_FRAMES_def)
  then have "unat (align_up (ucast b + 0x400000) PHYSMEM_FRAME_SIZE) div 4096 = page_no b + 1024"
    using b(3) tot by (simp add: unat_align_up_small PHYSMEM_MAX_FRAMES_def)
  ultimately have t: "t = fold (\<lambda>frame. physmem_unref_frame (of_nat (frame * 4096))) [page_no b..<page_no b + 1024] s"
    unfolding t_def physmem_free_region_def len using b(3) by (simp add: Let_def del: of_nat_mult)
  have bnd: "g < PHYSMEM_MAX_FRAMES" if "g \<in> set [page_no b..<page_no b + 1024]" for g using that b(3) tot by simp
  have "b \<noteq> 0" using b(2) by (auto simp: page_no_def)
  then show "f \<notin> region_frames b \<Longrightarrow> frame_refcount t f = frame_refcount s f"
    unfolding t using bnd by (intro fold_unref_other(3)) (auto simp: region_frames_def)
  show "mem t = mem s" "same_dirs t s" unfolding t by (rule fold_unref_other, erule bnd)+
  show "physmem_inv t" unfolding t_def using inv by (rule physmem_inv_free_region)
qed

lemma slots_apart:
  assumes ok: "spaces_ok s D" and d: "d \<in> D" "d' \<in> D" "d \<noteq> d'"
  shows "user_slots (mem s) d \<inter> user_slots (mem s) d' = {}"
proof -
  have "fst ` user_slots (mem s) e \<subseteq> set (dir_tables (mem s) e)" for e
    using dir_pt_in [of 0 "mem s" e] dir_pt_in [of 1 "mem s" e] by (auto simp: user_slots_def)
  then show ?thesis using spaces_okD(5) [OF ok d] by fastforce
qed

text \<open>Both ways to end a space leave the others as they are.\<close>

lemma exit_spec:
  fixes s :: "'a paging_st_scheme"
  assumes ok: "spaces_ok s D" and d: "d \<in> D" and own: "region_own s D d b"
  defines "t \<equiv> task_free_space b d s"
  shows "spaces_ok t (D - {d})" "same_upper (mem t) (mem s) (D - {d})" "total_frames t = total_frames s"
    "\<And>d' p off. d' \<in> D - {d} \<Longrightarrow> p < 1024 \<Longrightarrow> off < 4096 \<Longrightarrow> view t d' p off = view s d' p off"
    "\<And>x. x \<in> all_slots (mem s) (D - {d}) \<Longrightarrow> slot (mem t) x = slot (mem s) x"
    "\<And>f. f \<notin> page_no ` all_tables (mem s) D \<Longrightarrow> f \<notin> region_frames b \<Longrightarrow>
       refs (mem s) (user_slots (mem s) d) f = {} \<Longrightarrow> frame_refcount t f = frame_refcount s f"
proof -
  let ?K = "all_tables (mem s) D" and ?S' = "all_slots (mem s) (D - {d})" and ?p = "dir_pt (mem s) d"
  define u where "u = (if b \<noteq> 0 then physmem_free_region (ucast b) (ucast PAGING_USER_SIZE) s else paging_release_user_pages d s)"
  have t: "t = paging_destroy_user_directory d u" by (simp add: t_def task_free_space_def u_def)
  have S: "?S' \<subseteq> all_slots (mem s) D" by (auto simp: all_slots_def)
  have sub: "slot_inv v ?K ?S'" if "slot_inv v ?K (all_slots (mem s) D)" for v :: "'a paging_st_scheme"
    by (rule slot_inv_subset [OF that S]) (use all_slotsD S in auto)
  have pts: "u' \<noteq> ?p k" if "u' \<in> all_tables (mem s) (D - {d})" "k < 2" for u' k
    using that(1) dir_pt_in [OF that(2), of "mem s" d] spaces_okD(5) [OF ok d] unfolding all_tables_def by blast
  have u: "slot_inv u ?K ?S' \<and> same_upper (mem u) (mem s) {d} \<and> same_dirs u s \<and>
     (\<forall>v \<in> ?K. v \<noteq> ?p 0 \<longrightarrow> v \<noteq> ?p 1 \<longrightarrow> (\<forall>j < 512. entry (mem u) v j = entry (mem s) v j)) \<and>
     (\<forall>a. page_no a \<notin> page_no ` ?K \<longrightarrow> mem u a = mem s a) \<and>
     (\<forall>f. f \<notin> region_frames b \<longrightarrow> refs (mem s) (user_slots (mem s) d) f = {} \<longrightarrow> frame_refcount u f = frame_refcount s f)"
  proof (cases "b = 0")
    case True
    note r = release_pages [OF ok d]
    have "same_upper (mem u) (mem s) {d}"
      using r(3) spaces_okD(3) [OF ok d] upper_in_all [OF d, of _ "mem s"] True
      unfolding same_upper_def u_def by (auto simp: dir_shape_def dir_tables_def)
    then show ?thesis using r sub [OF r(1)] True unfolding u_def by simp
  next
    case False
    note r = free_region_other [OF spaces_okD(6) [OF ok] region_ownD(1-3) [OF own False]]
    have fr: "frame_of (slot (mem s) x) \<notin> region_frames b" if "x \<in> ?S'" "has (slot (mem s) x) PG_PRESENT" for x
    proof
      assume "frame_of (slot (mem s) x) \<in> region_frames b"
      moreover have "x \<in> refs (mem s) (all_slots (mem s) D) (frame_of (slot (mem s) x))" using that S by (auto simp: refs_def)
      ultimately have "x \<in> user_slots (mem s) d" using region_ownD(6) [OF own] by blast
      then show False using that(1) slots_apart [OF ok _ d] unfolding all_slots_def by blast
    qed
    have ueq: "u = physmem_free_region (ucast b) (ucast PAGING_USER_SIZE) s" using False by (simp add: u_def)
    have "slot_inv u ?K ?S'"
    proof (rule slot_inv_counts [OF sub [OF spaces_okD(2) [OF ok]]])
      show "physmem_inv u" "total_frames u = total_frames s" unfolding ueq using r(2,3) by (simp_all add: same_dirs_def)
      show "slot (mem u) x = slot (mem s) x" for x unfolding ueq r(1) ..
      show "frame_refcount u (page_no v) = frame_refcount s (page_no v)" if "v \<in> ?K" for v
        unfolding ueq using region_ownD(5) [OF own] that by (intro r(4)) blast
      show "frame_refcount u (frame_of (slot (mem s) x)) = frame_refcount s (frame_of (slot (mem s) x))"
        if "x \<in> ?S'" "has (slot (mem s) x) PG_PRESENT" for x unfolding ueq using fr [OF that] by (rule r(4))
    qed
    then show ?thesis using r(1,2) r(4) False by (simp add: u_def same_upper_def)
  qed
  then have uS: "slot_inv u ?K ?S'" and up: "same_upper (mem u) (mem s) {d}" and sd: "same_dirs u s"
    and en: "\<And>v j. v \<in> ?K \<Longrightarrow> v \<noteq> ?p 0 \<Longrightarrow> v \<noteq> ?p 1 \<Longrightarrow> j < 512 \<Longrightarrow> entry (mem u) v j = entry (mem s) v j"
    and out: "\<And>a. page_no a \<notin> page_no ` ?K \<Longrightarrow> mem u a = mem s a"
    and cnt: "\<And>f. f \<notin> region_frames b \<Longrightarrow> refs (mem s) (user_slots (mem s) d) f = {} \<Longrightarrow> frame_refcount u f = frame_refcount s f"
    by blast+
  have same: "entry (mem u) v j = entry (mem s) v j" if "v \<in> all_tables (mem s) (D - {d})" "j < 512" for v j
    using that pts [OF that(1)] by (intro en) (auto simp: all_tables_def)
  have ds: "spaces_ok t (D - {d})" "same_upper (mem t) (mem s) (D - {d})" "mem t = mem u" "same_dirs t u"
    "\<And>f. f \<notin> page_no ` ?K \<Longrightarrow> frame_refcount t f = frame_refcount u f"
    unfolding t by (rule destroy_left [OF ok d up uS], erule (1) same, assumption?)+
  show "spaces_ok t (D - {d})" "same_upper (mem t) (mem s) (D - {d})" by (fact ds(1) ds(2))+
  show "total_frames t = total_frames s" using ds(4) sd by (simp add: same_dirs_def)
  show "frame_refcount t f = frame_refcount s f" if "f \<notin> page_no ` ?K" "f \<notin> region_frames b" "refs (mem s) (user_slots (mem s) d) f = {}" for f
    using ds(5) [OF that(1)] cnt [OF that(2,3)] by simp
  have st: "same_tables (mem t) (mem s) (D - {d})" using same by (simp add: same_tables_def ds(3))
  show "slot (mem t) x = slot (mem s) x" if "x \<in> ?S'" for x using same_tables_slot [OF st that] .
  show "view t d' p off = view s d' p off" if "d' \<in> D - {d}" "p < 1024" "off < 4096" for d' p off
  proof (rule same_tables_view [OF st that(1,2)])
    assume pr: "has (slot (mem s) (user_slot (mem s) d' p)) PG_PRESENT"
    have d': "d' \<in> D" using that(1) by simp
    then show "mem t ((slot (mem s) (user_slot (mem s) d' p) AND PG_ADDR_MASK) + of_nat off) =
       mem s ((slot (mem s) (user_slot (mem s) d' p) AND PG_ADDR_MASK) + of_nat off)"
      unfolding ds(3) using present_frame(3) [OF ok d' that(2) pr] frame_bytes [OF that(3)] by (intro out) auto
  qed
qed

section \<open>The beginning of a space\<close>

text \<open>
  The memory of a program is written through its physical addresses: the loops \<^verbatim>\<open>zero_memory\<close> and the
  copy of the program in the functions \<^verbatim>\<open>usermode_spawn_*\<close>.
\<close>

definition usermode_zero_memory :: "u64 \<Rightarrow> u32 \<Rightarrow> 'a paging_st_scheme \<Rightarrow> 'a paging_st_scheme" where
  "usermode_zero_memory buffer sz s = s\<lparr>mem := fold (\<lambda>i m. m(buffer + of_nat i := 0)) [0..<unat sz] (mem s)\<rparr>"

definition usermode_copy_code :: "u64 \<Rightarrow> u8 list \<Rightarrow> 'a paging_st_scheme \<Rightarrow> 'a paging_st_scheme" where
  "usermode_copy_code dst src s = s\<lparr>mem := fold (\<lambda>i m. m(dst + of_nat i := src ! i)) [0..<length src] (mem s)\<rparr>"

text \<open>The part that the spawn functions share: the region, the directory and the program. The result is
  the directory with the physical base, or \<open>None\<close>.\<close>

definition usermode_new_space :: "u8 list \<Rightarrow> 'a paging_st_scheme \<Rightarrow> (u64 \<times> u64) option \<times> 'a paging_st_scheme" where
  "usermode_new_space code s =
     (let (base, s) = physmem_alloc_region (ucast PAGING_USER_SIZE) (ucast PAGING_USER_SIZE) s;
          user_physical_base = ucast base
      in if base = 0 then (None, s)
         else
           let (page_directory, s) = paging_create_user_directory user_physical_base s in
           if page_directory = 0 then (None, physmem_free_region base (ucast PAGING_USER_SIZE) s)
           else
             let s = usermode_zero_memory user_physical_base (ucast PAGING_USER_SIZE) s;
                 s = usermode_copy_code user_physical_base code s
             in (Some (page_directory, user_physical_base), s))"

lemma mark_range_paging [simp]:
  "mem (mark_range a n v s) = mem s" "same_dirs (mark_range a n v s) s"
proof -
  have "mem (fold (\<lambda>f. mark_frame f v) fs s) = mem s \<and> same_dirs (fold (\<lambda>f. mark_frame f v) fs s) s" for fs
    by (induction fs arbitrary: s) (simp_all add: same_dirs_def)
  then show "mem (mark_range a n v s) = mem s" "same_dirs (mark_range a n v s) s"
    by (simp_all add: mark_range_def Let_def)
qed

lemma alloc_region_space:
  fixes s :: "'a paging_st_scheme"
  assumes inv: "physmem_inv s" and al: "physmem_alloc_region (ucast PAGING_USER_SIZE) (ucast PAGING_USER_SIZE) s = (a, s1)"
  defines "b \<equiv> ucast a :: u64"
  shows "a = 0 \<Longrightarrow> s1 = s" "mem s1 = mem s" "same_dirs s1 s" "physmem_inv s1"
    "a \<noteq> 0 \<Longrightarrow> page_addr b \<and> 256 \<le> page_no b \<and> page_no b + 1024 \<le> total_frames s"
    "frame_refcount s1 f = (if f \<in> region_frames b then 1 else frame_refcount s f)"
    "f \<in> region_frames b \<Longrightarrow> frame_refcount s f = 0"
proof -
  have len: "(ucast PAGING_USER_SIZE :: u32) = 0x400000" by (simp add: PAGING_USER_SIZE_def)
  have sz: "(0x400000 :: u32) \<noteq> 0" "unat (0x400000 :: u32) \<le> 0xFFFFF000" by simp_all
  show "physmem_inv s1" using inv al by (rule physmem_inv_alloc_region)
  have "(a = 0 \<longrightarrow> s1 = s) \<and> mem s1 = mem s \<and> same_dirs s1 s \<and>
     (a \<noteq> 0 \<longrightarrow> page_addr b \<and> 256 \<le> page_no b \<and> page_no b + 1024 \<le> total_frames s) \<and>
     frame_refcount s1 f = (if f \<in> region_frames b then 1 else frame_refcount s f) \<and>
     (f \<in> region_frames b \<longrightarrow> frame_refcount s f = 0)"
    using inv sz al [unfolded len]
  proof (cases rule: alloc_region_cases)
    case none
    then show ?thesis by (simp add: region_frames_def b_def)
  next
    case (region sf)
    have ua: "unat a = sf * 4096" unfolding region(3) using region(4) by (intro unat_frame_addr) simp
    have pn: "page_no b = sf" unfolding b_def using ua by (rule frame_addr_page_no)
    have nz: "a \<noteq> 0" "b \<noteq> 0" using ua region(5) pn by (auto simp: page_no_def)
    have fits: "sf + 1024 \<le> total_frames s" "\<And>g. sf \<le> g \<Longrightarrow> g < sf + 1024 \<Longrightarrow> \<not> frame_is_marked s g"
      using region(1) by (auto simp: region_fits_def)
    have "page_addr b" unfolding b_def using ua by (intro frame_page_addr) simp
    moreover have "frame_refcount s g = 0" if "sf \<le> g" "g < sf + 1024" for g
    proof -
      have "g < total_frames s" using that(2) fits(1) by simp
      then show ?thesis using fits(2) [OF that] inv unfolding physmem_inv_def by blast
    qed
    moreover have "same_dirs s1 (mark_range a (align_up 0x400000 PHYSMEM_FRAME_SIZE) True s)" using region(7) by (simp add: same_dirs_def)
    then have "same_dirs s1 s" using mark_range_paging(2) by (rule same_dirs_trans)
    ultimately show ?thesis
      using region(5,7) fits(1) nz by (simp add: region_frames_def pn)
  qed
  then show "a = 0 \<Longrightarrow> s1 = s" "mem s1 = mem s" "same_dirs s1 s"
    "a \<noteq> 0 \<Longrightarrow> page_addr b \<and> 256 \<le> page_no b \<and> page_no b + 1024 \<le> total_frames s"
    "frame_refcount s1 f = (if f \<in> region_frames b then 1 else frame_refcount s f)"
    "f \<in> region_frames b \<Longrightarrow> frame_refcount s f = 0" by blast+
qed


end
