(* ===== verification/User_Spawn.thy ===== *)
theory User_Spawn
  imports User_Space
begin

text \<open>
  The directory of a new space. \<^verbatim>\<open>paging_create_user_directory\<close> takes five frames for the tables, copies
  the kernel's part of each and maps the pages of the region, all but the page below the stack.
\<close>

unbundle bit_operations_syntax

section \<open>Filling the tables\<close>

lemma copy_table_frame:
  fixes s :: "'a paging_st_scheme"
  assumes dst: "paged dst"
  shows "paged t \<Longrightarrow> t \<noteq> dst \<Longrightarrow> i < 512 \<Longrightarrow> entry (mem (copy_table dst src s)) t i = entry (mem s) t i"
    "page_no a \<noteq> page_no dst \<Longrightarrow> mem (copy_table dst src s) a = mem s a"
    "only_mem (copy_table dst src s) s"
proof -
  let ?f = "\<lambda>n. fold (\<lambda>i s. put_entry dst i (entry (mem s) src i) s) [0..<n] s"
  have "n \<le> 512 \<Longrightarrow> (\<forall>t i. paged t \<longrightarrow> t \<noteq> dst \<longrightarrow> i < 512 \<longrightarrow> entry (mem (?f n)) t i = entry (mem s) t i) \<and>
      (\<forall>a. page_no a \<noteq> page_no dst \<longrightarrow> mem (?f n) a = mem s a) \<and> only_mem (?f n) s" for n
  proof (induction n)
    case (Suc n)
    then have "only_mem (?f (Suc n)) s" by (auto intro: only_mem_trans [OF only_mem_put])
    with Suc show ?case using dst by (simp add: mem_put_other)
  qed simp
  from this [of 512] show "paged t \<Longrightarrow> t \<noteq> dst \<Longrightarrow> i < 512 \<Longrightarrow> entry (mem (copy_table dst src s)) t i = entry (mem s) t i"
    "page_no a \<noteq> page_no dst \<Longrightarrow> mem (copy_table dst src s) a = mem s a"
    "only_mem (copy_table dst src s) s"
    by (simp_all add: copy_table_def ENTRIES_PER_TABLE_def)
qed

lemma link_user_tables_spec:
  fixes s :: "'a paging_st_scheme" and b0 b1 :: u64
  assumes pg: "paged a1" "paged a2" "paged a3" and ne: "distinct [a1, a2, a3]"
  defines "t \<equiv> link_user_tables a1 a2 a3 b0 b1 s"
  shows "entry (mem t) a1 0 = a2 OR rw_flags" "entry (mem t) a2 0 = a3 OR rw_flags"
    "entry (mem t) a3 8 = b0 OR rw_flags" "entry (mem t) a3 9 = b1 OR rw_flags"
    "paged u \<Longrightarrow> u \<notin> {a1, a2, a3} \<Longrightarrow> j < 512 \<Longrightarrow> entry (mem t) u j = entry (mem s) u j"
    "page_no a \<notin> page_no ` {a1, a2, a3} \<Longrightarrow> mem t a = mem s a" "only_mem t s"
proof -
  have start: "USER_PD_START = 8" by (simp add: USER_PD_START_def PAGING_USER_BASE_def)
  have ne': "a1 \<noteq> a2" "a1 \<noteq> a3" "a2 \<noteq> a3" using ne by auto
  note c1 = copy_table_frame [OF pg(1)] and c2 = copy_table_frame [OF pg(2)] and c3 = copy_table_frame [OF pg(3)]
  note d = t_def link_user_tables_def Let_def flags_assoc start
  show "entry (mem t) a1 0 = a2 OR rw_flags" "entry (mem t) a2 0 = a3 OR rw_flags"
    "entry (mem t) a3 8 = b0 OR rw_flags" "entry (mem t) a3 9 = b1 OR rw_flags"
    unfolding d using pg ne' by (simp_all add: c1(1) c2(1) c3(1))
  show "paged u \<Longrightarrow> u \<notin> {a1, a2, a3} \<Longrightarrow> j < 512 \<Longrightarrow> entry (mem t) u j = entry (mem s) u j"
    unfolding d using pg by (simp add: c1(1) c2(1) c3(1))
  show "page_no a \<notin> page_no ` {a1, a2, a3} \<Longrightarrow> mem t a = mem s a"
    unfolding d using pg by (simp add: c1(2) c2(2) c3(2) mem_put_other)
  show "only_mem t s" unfolding d by (meson c1(3) c2(3) c3(3) only_mem_put only_mem_trans)
qed

text \<open>The page below the stack is not mapped.\<close>

definition guard_page :: "nat \<Rightarrow> bool" where
  "guard_page p \<longleftrightarrow> user_va p = PAGING_USER_STACK_GUARD_BASE"

definition user_entry :: "u64 \<Rightarrow> nat \<Rightarrow> u64" where
  "user_entry base p = (if guard_page p then 0 else (base + of_nat p * PAGING_PAGE_SIZE) OR rw_flags)"

lemma fill_user_pages:
  fixes s :: "'a paging_st_scheme" and base :: u64
  assumes pg: "paged b0" "paged b1" and ne: "b0 \<noteq> b1" and n: "n \<le> 1024"
    and clear: "\<And>j. j < 512 \<Longrightarrow> entry (mem s) b0 j = 0" "\<And>j. j < 512 \<Longrightarrow> entry (mem s) b1 j = 0"
  defines "t \<equiv> fold (fill_user_page b0 b1 base) [0..<n] s"
  shows "j < 512 \<Longrightarrow> entry (mem t) b0 j = (if j < n then user_entry base j else 0)"
    "j < 512 \<Longrightarrow> entry (mem t) b1 j = (if 512 + j < n then user_entry base (512 + j) else 0)"
    "paged u \<Longrightarrow> u \<noteq> b0 \<Longrightarrow> u \<noteq> b1 \<Longrightarrow> j < 512 \<Longrightarrow> entry (mem t) u j = entry (mem s) u j"
    "page_no a \<noteq> page_no b0 \<Longrightarrow> page_no a \<noteq> page_no b1 \<Longrightarrow> mem t a = mem s a" "only_mem t s"
proof -
  have "(\<forall>j < 512. entry (mem t) b0 j = (if j < n then user_entry base j else 0) \<and>
         entry (mem t) b1 j = (if 512 + j < n then user_entry base (512 + j) else 0)) \<and>
      (\<forall>u j. paged u \<longrightarrow> u \<noteq> b0 \<longrightarrow> u \<noteq> b1 \<longrightarrow> j < 512 \<longrightarrow> entry (mem t) u j = entry (mem s) u j) \<and>
      (\<forall>a. page_no a \<noteq> page_no b0 \<longrightarrow> page_no a \<noteq> page_no b1 \<longrightarrow> mem t a = mem s a) \<and> only_mem t s"
    using n unfolding t_def
  proof (induction n)
    case 0
    then show ?case using clear by simp
  next
    case (Suc n)
    let ?t = "fold (fill_user_page b0 b1 base) [0..<n] s"
    have IH: "\<And>j. j < 512 \<Longrightarrow> entry (mem ?t) b0 j = (if j < n then user_entry base j else 0)"
      "\<And>j. j < 512 \<Longrightarrow> entry (mem ?t) b1 j = (if 512 + j < n then user_entry base (512 + j) else 0)"
      "\<And>u j. paged u \<Longrightarrow> u \<noteq> b0 \<Longrightarrow> u \<noteq> b1 \<Longrightarrow> j < 512 \<Longrightarrow> entry (mem ?t) u j = entry (mem s) u j"
      "\<And>a. page_no a \<noteq> page_no b0 \<Longrightarrow> page_no a \<noteq> page_no b1 \<Longrightarrow> mem ?t a = mem s a" "only_mem ?t s"
      using Suc by auto
    have eq: "fill_user_page b0 b1 base n ?t = (if guard_page n then ?t
        else if 512 \<le> n then put_entry b1 (n - 512) (user_entry base n) ?t else put_entry b0 n (user_entry base n) ?t)"
      by (simp add: fill_user_page_def guard_page_def user_entry_def Let_def ENTRIES_PER_TABLE_def flags_assoc)
    have z: "guard_page n \<Longrightarrow> user_entry base n = 0" by (simp add: user_entry_def)
    have fold: "fold (fill_user_page b0 b1 base) [0..<Suc n] s = fill_user_page b0 b1 base n ?t" by simp
    show ?case
      unfolding fold eq using Suc.prems IH pg ne z only_mem_trans [OF only_mem_put IH(5)]
      by (auto simp: mem_put_other less_Suc_eq)
  qed
  then show "j < 512 \<Longrightarrow> entry (mem t) b0 j = (if j < n then user_entry base j else 0)"
    "j < 512 \<Longrightarrow> entry (mem t) b1 j = (if 512 + j < n then user_entry base (512 + j) else 0)"
    "paged u \<Longrightarrow> u \<noteq> b0 \<Longrightarrow> u \<noteq> b1 \<Longrightarrow> j < 512 \<Longrightarrow> entry (mem t) u j = entry (mem s) u j"
    "page_no a \<noteq> page_no b0 \<Longrightarrow> page_no a \<noteq> page_no b1 \<Longrightarrow> mem t a = mem s a" "only_mem t s"
    by blast+
qed

text \<open>The pages of a region.\<close>

lemma region_page:
  assumes "page_addr b" "page_no b + 1024 \<le> 1048576" "p < 1024"
  shows "page_addr (b + of_nat p * PAGING_PAGE_SIZE)" "page_no (b + of_nat p * PAGING_PAGE_SIZE) = page_no b + p"
    "unat (b + of_nat p * PAGING_PAGE_SIZE) = unat b + 4096 * p"
proof -
  have b: "unat b = page_no b * 4096" using page_addr_paged [OF assms(1)] by (auto simp: paged_def page_no_def)
  have eq: "of_nat p * PAGING_PAGE_SIZE = of_nat (4096 * p)" by (simp add: PAGING_PAGE_SIZE_def)
  have p: "unat (of_nat (4096 * p) :: u64) = 4096 * p"
    using assms(3) by (intro unat_of_nat_small) simp
  have lt: "unat b + 4096 * p < 4294967296" unfolding b using assms(2,3) by linarith
  then have "unat b + unat (of_nat (4096 * p) :: u64) < 2 ^ 64" unfolding p by simp
  then show u: "unat (b + of_nat p * PAGING_PAGE_SIZE) = unat b + 4096 * p"
    unfolding eq unat_word_ariths(1) p by simp
  show "page_no (b + of_nat p * PAGING_PAGE_SIZE) = page_no b + p" unfolding page_no_def u by simp
  have "paged (b + of_nat p * PAGING_PAGE_SIZE)" unfolding paged_def u b by simp
  then show "page_addr (b + of_nat p * PAGING_PAGE_SIZE)" using lt unfolding u [symmetric] by (rule paged_page_addr)
qed

section \<open>The function as a whole\<close>

definition made_tables ::
  "u64 \<Rightarrow> u64 \<Rightarrow> u64 \<Rightarrow> u64 \<Rightarrow> u64 \<Rightarrow> u64 \<Rightarrow> 'a paging_st_scheme \<Rightarrow> 'a paging_st_scheme" where
  "made_tables a1 a2 a3 b0 b1 base s =
     fold (fill_user_page b0 b1 base) [0..<1024] (clear_table b1 (clear_table b0 (link_user_tables a1 a2 a3 b0 b1 s)))"

lemma made_tables_spec:
  fixes s :: "'a paging_st_scheme" and base :: u64
  assumes pg: "paged a1" "paged a2" "paged a3" "paged b0" "paged b1" and ne: "distinct [a1, a2, a3, b0, b1]"
  defines "t \<equiv> made_tables a1 a2 a3 b0 b1 base s"
  shows "entry (mem t) a1 0 = a2 OR rw_flags" "entry (mem t) a2 0 = a3 OR rw_flags"
    "entry (mem t) a3 8 = b0 OR rw_flags" "entry (mem t) a3 9 = b1 OR rw_flags"
    "j < 512 \<Longrightarrow> entry (mem t) b0 j = user_entry base j" "j < 512 \<Longrightarrow> entry (mem t) b1 j = user_entry base (512 + j)"
    "paged u \<Longrightarrow> u \<notin> {a1, a2, a3, b0, b1} \<Longrightarrow> j < 512 \<Longrightarrow> entry (mem t) u j = entry (mem s) u j"
    "page_no a \<notin> page_no ` {a1, a2, a3, b0, b1} \<Longrightarrow> mem t a = mem s a" "only_mem t s"
proof -
  let ?l = "link_user_tables a1 a2 a3 b0 b1 s"
  let ?c = "clear_table b1 (clear_table b0 ?l)"
  have ne': "distinct [a1, a2, a3]" "b0 \<noteq> b1" using ne by auto
  note l = link_user_tables_spec [OF pg(1-3) ne'(1), where ?b0.0 = b0 and ?b1.0 = b1 and s = s]
  note c0 = clear_table_spec [OF pg(4)] and c1 = clear_table_spec [OF pg(5)]
  have cl: "entry (mem ?c) b0 j = 0" "entry (mem ?c) b1 j = 0" if "j < 512" for j
    using that pg by (simp_all add: c0(1) c1(1))
  note f = fill_user_pages [OF pg(4,5) ne'(2) order_refl cl, where base = base, folded made_tables_def, folded t_def]
  have keep: "entry (mem ?c) u j = entry (mem ?l) u j" if "paged u" "u \<noteq> b0" "u \<noteq> b1" "j < 512" for u j
    using that by (simp add: c0(1) c1(1))
  show "entry (mem t) a1 0 = a2 OR rw_flags" "entry (mem t) a2 0 = a3 OR rw_flags"
    "entry (mem t) a3 8 = b0 OR rw_flags" "entry (mem t) a3 9 = b1 OR rw_flags"
    using f(3) keep l(1-4) pg ne by simp_all
  show "j < 512 \<Longrightarrow> entry (mem t) b0 j = user_entry base j" "j < 512 \<Longrightarrow> entry (mem t) b1 j = user_entry base (512 + j)"
    using f(1,2) by simp_all
  show "paged u \<Longrightarrow> u \<notin> {a1, a2, a3, b0, b1} \<Longrightarrow> j < 512 \<Longrightarrow> entry (mem t) u j = entry (mem s) u j"
    using f(3) [of u j] keep [of u j] l(5) [of u j] by simp
  show "page_no a \<notin> page_no ` {a1, a2, a3, b0, b1} \<Longrightarrow> mem t a = mem s a"
    using f(4) [of a] l(6) [of a] by (simp add: c0(2) c1(2))
  show "only_mem t s" using f(5) c1(3) c0(3) l(7) by (meson only_mem_trans)
qed

lemma create_cases:
  fixes s t :: "'a paging_st_scheme"
  assumes inv: "slot_inv s K S" and res: "paging_create_user_directory base s = (c, t)"
  obtains (refused) "c = 0" "slot_inv t K S" "mem t = mem s" "same_dirs t s" "frame_refcount t = frame_refcount s"
      "kernel_pml4 s = 0 \<or> kernel_pdpt s = 0 \<or> kernel_pd0 s = 0 \<or> free_frames s < 5"
  | (made) c1 c2 c3 c4 c5 v where "allocs s [c1, c2, c3, c4, c5] v" "0 \<notin> {c1, c2, c3, c4, c5}" "c = ucast c1"
      "t = made_tables (ucast c1) (ucast c2) (ucast c3) (ucast c4) (ucast c5) base v"
proof (cases "kernel_pml4 s = 0 \<or> kernel_pdpt s = 0 \<or> kernel_pd0 s = 0")
  case True
  then have "c = 0" "t = s" using res by (simp_all add: paging_create_user_directory_def)
  then show thesis using refused inv True by auto
next
  case False
  obtain c1 s1 where al1: "physmem_alloc_frame s = (c1, s1)" by fastforce
  obtain c2 s2 where al2: "physmem_alloc_frame s1 = (c2, s2)" by fastforce
  obtain c3 s3 where al3: "physmem_alloc_frame s2 = (c3, s3)" by fastforce
  obtain c4 s4 where al4: "physmem_alloc_frame s3 = (c4, s4)" by fastforce
  obtain c5 s5 where al5: "physmem_alloc_frame s4 = (c5, s5)" by fastforce
  have al: "allocs s [c1, c2, c3, c4, c5] s5" by (simp add: al1 al2 al3 al4 al5)
  have pages: "USER_PAGES = 1024" by (simp add: USER_PAGES_def PAGING_USER_SIZE_def PAGING_PAGE_SIZE_def)
  have eq: "(c, t) = (if 0 \<in> {c1, c2, c3, c4, c5} then (0, fold free_if [c1, c2, c3, c4, c5] s5)
      else (ucast c1, made_tables (ucast c1) (ucast c2) (ucast c3) (ucast c4) (ucast c5) base s5))"
    using res False by (auto simp: paging_create_user_directory_def al1 al2 al3 al4 al5 Let_def pages made_tables_def)
  show thesis
  proof (cases "0 \<in> {c1, c2, c3, c4, c5}")
    case True
    then have ct: "c = 0" "t = fold free_if [c1, c2, c3, c4, c5] s5" using eq by simp_all
    have "free_frames s < 5" using allocs_count(2) [OF slot_invD(1) [OF inv] al] True by auto
    then show thesis using refused [OF ct(1)] allocs_undone [OF inv al, folded ct(2)] by blast
  next
    case nz: False
    then show thesis using made [OF al nz] eq by simp
  qed
qed

lemma guard_page_1022: "p < 1024 \<Longrightarrow> guard_page p \<longleftrightarrow> p = 1022"
  unfolding guard_page_def word_unat_eq_iff user_va_unat
  by (simp add: PAGING_USER_STACK_GUARD_BASE_def PAGING_USER_BASE_def PAGING_USER_SIZE_def PAGING_USER_STACK_SIZE_def PAGING_PAGE_SIZE_def)

text \<open>The shape of a directory that is known by its four links.\<close>

lemma linked_shape:
  assumes "page_addr a1" "page_addr a2" "page_addr a3" "page_addr b0" "page_addr b1"
    and "distinct [a1, a2, a3, b0, b1]" "0 \<notin> {a1, a2, a3, b0, b1}"
    and en: "entry m a1 0 = a2 OR rw_flags" "entry m a2 0 = a3 OR rw_flags" "entry m a3 8 = b0 OR rw_flags" "entry m a3 9 = b1 OR rw_flags"
  shows "dir_tables m a1 = [a1, a2, a3, b0, b1]" "dir_shape m a1" "dir_pt m a1 0 = b0" "dir_pt m a1 1 = b1"
proof -
  show dirs: "dir_pt m a1 0 = b0" "dir_pt m a1 1 = b1" and tabs: "dir_tables m a1 = [a1, a2, a3, b0, b1]"
    using assms(1-5) en by (simp_all add: dir_tables_def dir_pdpt_def dir_pd_def dir_pt_def phys_to_virt_def)
  have up: "dir_pdpt m a1 = a2" "dir_pd m a1 = a3"
    using assms(1-5) en by (simp_all add: dir_pdpt_def dir_pd_def phys_to_virt_def)
  show "dir_shape m a1"
    unfolding dir_shape_def table_ref_def tabs up en using assms(1-7) page_addr_paged [OF assms(1)] by (simp only: rw_entry) simp
qed

lemma new_space:
  fixes s v :: "'a paging_st_scheme" and b :: u64
  assumes ok: "spaces_ok s D" and b: "page_addr b" "256 \<le> page_no b" "page_no b + 1024 \<le> total_frames s"
    and held: "\<And>f. f \<in> region_frames b \<Longrightarrow> frame_refcount s f \<noteq> 0 \<and> f \<notin> page_no ` all_tables (mem s) D \<and>
        refs (mem s) (all_slots (mem s) D) f = {}"
    and al: "allocs s [c1, c2, c3, c4, c5] v" "0 \<notin> {c1, c2, c3, c4, c5}"
  defines "N \<equiv> new_tables [c1, c2, c3, c4, c5]" and "a1 \<equiv> ucast c1 :: u64"
    and "t \<equiv> made_tables (ucast c1) (ucast c2) (ucast c3) (ucast c4) (ucast c5) b v"
  shows "a1 \<notin> D" "a1 \<noteq> 0" "spaces_ok t (insert a1 D)" "same_tables (mem t) (mem s) D" "same_dirs t s"
    "all_tables (mem t) (insert a1 D) = N \<union> all_tables (mem s) D"
    "\<And>p. p < 1024 \<Longrightarrow> slot (mem t) (user_slot (mem t) a1 p) = user_entry b p"
    "\<And>a. page_no a \<notin> page_no ` N \<Longrightarrow> mem t a = mem s a" "\<And>a. a \<in> N \<Longrightarrow> frame_refcount s (page_no a) = 0"
    "\<And>f. f \<notin> page_no ` N \<Longrightarrow> frame_refcount t f = frame_refcount s f" "free_frames s = free_frames t + 5"
proof -
  let ?K = "all_tables (mem s) D" and ?S = "all_slots (mem s) D"
  let ?a2 = "ucast c2 :: u64" and ?a3 = "ucast c3 :: u64" and ?b0 = "ucast c4 :: u64" and ?b1 = "ucast c5 :: u64"
  have N: "N = {a1, ?a2, ?a3, ?b0, ?b1}" using al(2) by (auto simp: N_def a1_def new_tables_def)
  have at: "slot_inv v (N \<union> ?K) ?S" "mem v = mem s" "same_dirs v s" "distinct (filter ((\<noteq>) 0) [c1, c2, c3, c4, c5])"
    "\<And>a. a \<in> N \<Longrightarrow> page_addr a \<and> a \<noteq> 0 \<and> frame_refcount s (page_no a) = 0"
    "\<And>f. f \<notin> page_no ` N \<Longrightarrow> frame_refcount v f = frame_refcount s f"
    using allocs_tables [OF spaces_okD(2) [OF ok] al(1)] unfolding N_def by blast+
  have pa: "page_addr a1" "page_addr ?a2" "page_addr ?a3" "page_addr ?b0" "page_addr ?b1" and nz: "0 \<notin> N"
    using at(5) unfolding N by auto
  have "distinct [c1, c2, c3, c4, c5]" using at(4) al(2) by (auto split: if_splits)
  then have dist: "distinct [a1, ?a2, ?a3, ?b0, ?b1]" by (simp add: a1_def ucast_up_inj)
  note ms = made_tables_spec [OF pa [THEN page_addr_paged] dist, where base = b and s = v, folded t_def [folded a1_def], folded N, unfolded at(2)]
  note om = only_memD [OF ms(9)]
  show "free_frames s = free_frames t + 5"
    using allocs_count(1) [OF spaces_okD(6) [OF ok] al(1)] al(2) ms(9) by (auto simp: only_mem_def)
  have KN: "page_no u \<notin> page_no ` N" if "u \<in> ?K" for u
    using at(5) table_frameD(5) [OF slot_invD(5) [OF spaces_okD(2) [OF ok] that]] by force
  then have dj: "N \<inter> ?K = {}" by blast
  show "a1 \<notin> D" "a1 \<noteq> 0" using dj nz unfolding N all_tables_def dir_tables_def by auto
  show "frame_refcount s (page_no a) = 0" if "a \<in> N" for a using at(5) [OF that] by blast
  show cnt: "frame_refcount t f = frame_refcount s f" if "f \<notin> page_no ` N" for f using at(6) [OF that] by (simp add: om)
  show out: "mem t a = mem s a" if "page_no a \<notin> page_no ` N" for a using ms(8) [OF that] .
  have K: "entry (mem t) u j = entry (mem s) u j" if "u \<in> ?K" "j < 512" for u j
    using that dj slot_inv_paged [OF spaces_okD(2) [OF ok] that(1)] by (intro ms(7)) auto
  then show st: "same_tables (mem t) (mem s) D" by (simp add: same_tables_def)
  show "same_dirs t s" using om(1) at(3) by (rule same_dirs_trans)
  note sh = linked_shape [OF pa dist nz [unfolded N] ms(1-4)]
  have alls: "all_tables (mem t) (insert a1 D) = N \<union> ?K" "all_slots (mem t) (insert a1 D) = ?S \<union> user_slots (mem t) a1"
    using same_upper_dirs(5,6) [OF same_tables_upper [OF st]] sh(1) unfolding N all_tables_def all_slots_def by auto
  then show "all_tables (mem t) (insert a1 D) = N \<union> ?K" by blast
  show sl: "slot (mem t) (user_slot (mem t) a1 p) = user_entry b p" if "p < 1024" for p
  proof -
    have "p div 512 = 1 \<Longrightarrow> 512 + p mod 512 = p" "p div 512 = 0 \<Longrightarrow> p mod 512 = p"
      using div_mult_mod_eq [of p 512] by simp_all
    then show ?thesis
      using page_div_cases [OF that] ms(5,6) [of "p mod 512"] sh(3,4) unfolding slot_def user_slot_def fst_conv snd_conv by auto
  qed
  have tot: "page_no b + 1024 \<le> 1048576" using b(3) spaces_okD(6) [OF ok] by (simp add: physmem_inv_def PHYSMEM_MAX_FRAMES_def)
  note rp = region_page [OF b(1) tot]
  have bnz: "b \<noteq> 0" using b(2) by (auto simp: page_no_def)
  have fr: "frame_of (user_entry b p) = page_no b + p" if "p < 1024" "has (user_entry b p) PG_PRESENT" for p
    using that rp [OF that(1)] by (auto simp: user_entry_def frame_of_def split: if_splits)
  have own: "own_frames (mem t) a1"
    unfolding own_frames_def using sl fr by simp
  have inv: "slot_inv t (N \<union> ?K) (?S \<union> user_slots (mem t) a1)"
  proof (rule slot_inv_add)
    have sS: "slot (mem t) x = slot (mem s) x" if "x \<in> ?S" for x using same_tables_slot [OF st that] .
    show inv: "slot_inv t (N \<union> ?K) ?S"
      by (rule slot_inv_cong [OF at(1)]) (use slot_invD(1) [OF at(1)] sS in \<open>simp_all add: om at(2)\<close>)
    show "finite (user_slots (mem t) a1)" by (simp add: user_slots_def)
    show "fst x \<in> N \<union> ?K \<and> snd x < 512" if "x \<in> user_slots (mem t) a1" for x
      using that sh(3,4) unfolding user_slots_def N by auto
    fix x assume x: "x \<in> user_slots (mem t) a1" "has (slot (mem t) x) PG_PRESENT"
    then obtain p where p: "p < 1024" "x = user_slot (mem t) a1 p" by (auto elim: user_slots_page)
    have f: "frame_of (slot (mem t) x) = page_no b + p" using fr [OF p(1)] x(2) sl [OF p(1)] p(2) by simp
    then have R: "frame_of (slot (mem t) x) \<in> region_frames b" using p(1) bnz by (simp add: region_frames_def)
    note h = held [OF R]
    have nN: "frame_of (slot (mem t) x) \<notin> page_no ` N" using h at(5) by auto
    have "refs (mem t) ?S (frame_of (slot (mem t) x)) = refs (mem s) ?S (frame_of (slot (mem t) x))"
      using sS unfolding refs_def by auto
    then show "256 \<le> frame_of (slot (mem t) x) \<and> frame_of (slot (mem t) x) < total_frames t \<and>
        frame_of (slot (mem t) x) \<notin> page_no ` (N \<union> ?K) \<and> frame_refcount t (frame_of (slot (mem t) x)) \<noteq> 0 \<and>
        refs (mem t) ?S (frame_of (slot (mem t) x)) = {}"
      using h nN cnt [OF nN] b(2,3) p(1) f om(1) at(3) by (auto simp: same_dirs_def image_Un)
  next
    fix x y assume "x \<in> user_slots (mem t) a1" "y \<in> user_slots (mem t) a1" "has (slot (mem t) x) PG_PRESENT"
      "has (slot (mem t) y) PG_PRESENT" "frame_of (slot (mem t) x) = frame_of (slot (mem t) y)"
    then show "x = y" using own_framesD [OF own] by (elim user_slots_page) auto
  qed
  have dt: "set (dir_tables (mem t) a1) \<inter> set (dir_tables (mem t) e) = {}" if "e \<in> D" for e
    using dj that same_upper_dirs(1) [OF same_tables_upper [OF st] that] unfolding sh(1) N all_tables_def by auto
  show "spaces_ok t (insert a1 D)"
    unfolding spaces_ok_def alls
    using inv sh(2) own dt spaces_okD(1,3-5) [OF ok] same_upper_dirs(1,2) [OF same_tables_upper [OF st]] same_tables_own [OF st]
    by (auto simp: Int_commute)
qed

section \<open>The memory of a new program\<close>

lemma entry_cong:
  assumes "paged t" "i < 512" "\<And>a. page_no a = page_no t \<Longrightarrow> m' a = m a"
  shows "entry m' t i = entry m t i"
  unfolding entry_def
proof (rule load64_cong)
  fix j :: nat assume "j < 8"
  then have "page_no (t + of_nat (8 * i + j)) = page_no t" using assms(1,2) by (intro page_no_in_page) simp_all
  moreover have "t + of_nat (8 * i + j) = t + 8 * of_nat i + of_nat j" by (simp add: add.assoc)
  ultimately show "m' (t + 8 * of_nat i + of_nat j) = m (t + 8 * of_nat i + of_nat j)" using assms(3) by (simp only:)
qed

definition code_byte :: "u8 list \<Rightarrow> nat \<Rightarrow> u8" where
  "code_byte code i = (if i < length code then code ! i else 0)"

lemma written:
  assumes "length code \<le> 0x400000"
  shows "mem (usermode_copy_code b code (usermode_zero_memory b (ucast PAGING_USER_SIZE) s)) a =
    (if unat (a - b) < 0x400000 then code_byte code (unat (a - b)) else mem s a)"
proof -
  have "unat (ucast PAGING_USER_SIZE :: u32) = 0x400000" by (simp add: PAGING_USER_SIZE_def)
  then show ?thesis
    using assms by (simp add: usermode_copy_code_def usermode_zero_memory_def fold_write_bytes code_byte_def)
qed

lemma in_region:
  assumes "page_addr b" "page_no b + 1024 \<le> 1048576"
  shows "unat (a - b) < 0x400000 \<longleftrightarrow> page_no b \<le> page_no a \<and> page_no a < page_no b + 1024"
    "p < 1024 \<Longrightarrow> off < 4096 \<Longrightarrow> unat ((b + of_nat p * PAGING_PAGE_SIZE) + of_nat off - b) = 4096 * p + off"
proof -
  have b: "unat b = 4096 * page_no b" using page_addr_paged [OF assms(1)] by (auto simp: paged_def page_no_def)
  have lt: "page_no b < 1048576" using assms(2) by simp
  show "unat (a - b) < 0x400000 \<longleftrightarrow> page_no b \<le> page_no a \<and> page_no a < page_no b + 1024"
  proof (cases "unat b \<le> unat a")
    case True
    then have "unat (a - b) = unat a - 4096 * page_no b" by (simp add: unat_sub_word64 b)
    moreover have "unat a = 4096 * page_no a + unat a mod 4096" by (simp add: page_no_def)
    moreover have "unat a mod 4096 < 4096" by simp
    ultimately show ?thesis using True b by linarith
  next
    case False
    then have "unat (a - b) = unat a + 2 ^ 64 - 4096 * page_no b" by (simp add: unat_sub_word64 b)
    then have "\<not> unat (a - b) < 0x400000" using lt by simp
    moreover have "page_no a < page_no b" using False b unfolding page_no_def by linarith
    ultimately show ?thesis by simp
  qed
  show "unat ((b + of_nat p * PAGING_PAGE_SIZE) + of_nat off - b) = 4096 * p + off" if "p < 1024" "off < 4096"
  proof -
    have "(b + of_nat p * PAGING_PAGE_SIZE) + of_nat off - b = of_nat (4096 * p + off)" by (simp add: PAGING_PAGE_SIZE_def)
    then show ?thesis using that by (simp only:) (intro unat_of_nat_small, simp)
  qed
qed

lemma region_own_keep:
  assumes own: "region_own s D d b" and tot: "total_frames t = total_frames s"
    and "\<And>f. f \<in> region_frames b \<Longrightarrow> frame_refcount s f \<noteq> 0 \<Longrightarrow> f \<notin> page_no ` all_tables (mem s) D \<Longrightarrow>
      refs (mem s) (all_slots (mem s) D) f \<subseteq> user_slots (mem s) d \<Longrightarrow>
      frame_refcount t f \<noteq> 0 \<and> f \<notin> page_no ` all_tables (mem t) D' \<and> refs (mem t) (all_slots (mem t) D') f \<subseteq> user_slots (mem t) d"
  shows "region_own t D' d b"
  using assms(3) region_ownD [OF own] tot unfolding region_own_def by metis

lemma spaces_ok_counts:
  assumes ok: "spaces_ok s D" and t: "physmem_inv t" "total_frames t = total_frames s" "mem t = mem s"
    and cnt: "\<And>f. frame_refcount s f \<noteq> 0 \<Longrightarrow> frame_refcount t f = frame_refcount s f"
  shows "spaces_ok t D"
proof -
  have inv: "slot_inv t (all_tables (mem s) D) (all_slots (mem s) D)"
  proof (rule slot_inv_counts [OF spaces_okD(2) [OF ok] t(1,2)])
    show "slot (mem t) x = slot (mem s) x" for x unfolding t(3) ..
    show "frame_refcount t (page_no u) = frame_refcount s (page_no u)" if "u \<in> all_tables (mem s) D" for u
      using table_frameD(5) [OF slot_invD(5) [OF spaces_okD(2) [OF ok] that]] by (intro cnt) simp
    show "frame_refcount t (frame_of (slot (mem s) x)) = frame_refcount s (frame_of (slot (mem s) x))"
      if "x \<in> all_slots (mem s) D" "has (slot (mem s) x) PG_PRESENT" for x
      using refs_count_pos [OF spaces_okD(2) [OF ok] that] by (rule cnt)
  qed
  show ?thesis using ok inv unfolding spaces_ok_def t(3) by blast
qed

text \<open>The region is taken: its frames were free, and all else is as before.\<close>

lemma region_taken:
  fixes s s1 :: "'a paging_st_scheme"
  assumes ok: "spaces_ok s D" and al: "physmem_alloc_region (ucast PAGING_USER_SIZE) (ucast PAGING_USER_SIZE) s = (a, s1)"
  shows "spaces_ok s1 D" "mem s1 = mem s" "same_dirs s1 s"
    "\<And>f. f \<in> region_frames (ucast a) \<Longrightarrow> frame_refcount s f = 0"
    "\<And>f. f \<in> region_frames (ucast a) \<Longrightarrow> frame_refcount s1 f \<noteq> 0 \<and> f \<notin> page_no ` all_tables (mem s1) D \<and>
        refs (mem s1) (all_slots (mem s1) D) f = {}"
    "\<And>f. f \<notin> region_frames (ucast a) \<Longrightarrow> frame_refcount s1 f = frame_refcount s f"
    "\<And>f. f \<in> region_frames (ucast a) \<Longrightarrow> frame_refcount s1 f = 1"
proof -
  note rg = alloc_region_space [OF spaces_okD(6) [OF ok] al]
  show m: "mem s1 = mem s" "same_dirs s1 s" by (fact rg(2) rg(3))+
  show z: "frame_refcount s f = 0" if "f \<in> region_frames (ucast a)" for f using rg(7) [OF that] .
  show "spaces_ok s1 D"
    using rg(3,4) rg(6) z by (intro spaces_ok_counts [OF ok _ _ m(1)]) (auto simp: same_dirs_def)
  show "frame_refcount s1 f = frame_refcount s f" if "f \<notin> region_frames (ucast a)" for f using rg(6) [of f] that by simp
  show "frame_refcount s1 f = 1" if "f \<in> region_frames (ucast a)" for f using rg(6) [of f] that by simp
  show "frame_refcount s1 f \<noteq> 0 \<and> f \<notin> page_no ` all_tables (mem s1) D \<and> refs (mem s1) (all_slots (mem s1) D) f = {}"
    if f: "f \<in> region_frames (ucast a)" for f
  proof (intro conjI notI)
    assume "frame_refcount s1 f = 0"
    then show False using rg(6) [of f] f by simp
  next
    assume "f \<in> page_no ` all_tables (mem s1) D"
    then show False using z [OF f] table_frameD(5) [OF slot_invD(5) [OF spaces_okD(2) [OF ok]]] unfolding m by force
  next
    show "refs (mem s1) (all_slots (mem s1) D) f = {}"
      unfolding m using z [OF f] refs_count_pos [OF spaces_okD(2) [OF ok]] by (auto simp: refs_def)
  qed
qed

lemma region_free_count:
  fixes s s1 :: "'a paging_st_scheme"
  assumes inv: "physmem_inv s" and al: "physmem_alloc_region (ucast PAGING_USER_SIZE) (ucast PAGING_USER_SIZE) s = (a, s1)"
  shows "a \<noteq> 0 \<Longrightarrow> free_frames s = free_frames s1 + 1024" "region_fits s 1024 0x400000 sf \<Longrightarrow> a \<noteq> 0"
proof -
  have len: "(ucast PAGING_USER_SIZE :: u32) = 0x400000" by (simp add: PAGING_USER_SIZE_def)
  have sz: "(0x400000 :: u32) \<noteq> 0" "unat (0x400000 :: u32) \<le> 0xFFFFF000" by simp_all
  have inv1: "physmem_inv s1" using inv al by (rule physmem_inv_alloc_region)
  have "(a \<noteq> 0 \<longrightarrow> free_frames s = free_frames s1 + 1024) \<and> (region_fits s 1024 0x400000 sf \<longrightarrow> a \<noteq> 0)"
    using inv sz al [unfolded len]
  proof (cases rule: alloc_region_cases)
    case none
    then show ?thesis by (auto simp: PHYSMEM_FRAME_SIZE_def)
  next
    case (region f)
    have tot: "total_frames s < PHYSMEM_MAX_FRAMES" using inv by (simp add: physmem_inv_def)
    have "free_set s = free_set s1 \<union> {f..<f + 1024}" "free_set s1 \<inter> {f..<f + 1024} = {}"
      using region(1,6,7) tot by (auto simp: free_set_def frame_is_marked_mark_range region_fits_def)
    then have "card (free_set s) = card (free_set s1) + 1024"
      using card_Un_disjoint [of "free_set s1" "{f..<f + 1024}"] finite_free_set [of s1] by simp
    then have "free_frames s = free_frames s1 + 1024" using inv inv1 by (simp add: physmem_inv_def)
    moreover have "a \<noteq> 0" using alloc_region_space(2) region(3,5) frame_addr_eq_0 [of f] region(4) by simp
    ultimately show ?thesis by simp
  qed
  then show "a \<noteq> 0 \<Longrightarrow> free_frames s = free_frames s1 + 1024" "region_fits s 1024 0x400000 sf \<Longrightarrow> a \<noteq> 0" by blast+
qed

lemma spawn_refused:
  fixes s t :: "'a paging_st_scheme"
  assumes ok: "spaces_ok s D" and res: "usermode_new_space code s = (None, t)"
  shows "spaces_ok t D" "mem t = mem s" "same_dirs t s" "\<And>f. frame_refcount s f \<noteq> 0 \<Longrightarrow> frame_refcount t f = frame_refcount s f"
proof -
  obtain a s1 where al: "physmem_alloc_region (ucast PAGING_USER_SIZE) (ucast PAGING_USER_SIZE) s = (a, s1)" by fastforce
  note rg = alloc_region_space [OF spaces_okD(6) [OF ok] al] and rt = region_taken [OF ok al]
  have "mem t = mem s \<and> same_dirs t s \<and> physmem_inv t \<and> (\<forall>f. frame_refcount s f \<noteq> 0 \<longrightarrow> frame_refcount t f = frame_refcount s f)"
  proof (cases "a = 0")
    case True
    then have "t = s" using res rg(1) by (simp add: usermode_new_space_def al)
    then show ?thesis using spaces_okD(6) [OF ok] by simp
  next
    case False
    obtain c u where cr: "paging_create_user_directory (ucast a) s1 = (c, u)" by fastforce
    then have c: "c = 0" and t: "t = physmem_free_region a (ucast PAGING_USER_SIZE) u"
      using res False by (auto simp: usermode_new_space_def al Let_def split: if_splits)
    have "mem u = mem s \<and> same_dirs u s \<and> physmem_inv u \<and> frame_refcount u = frame_refcount s1"
      using spaces_okD(2) [OF rt(1)] cr
    proof (cases rule: create_cases)
      case refused
      then show ?thesis
        using slot_invD(1) [OF refused(2)] rt(2) same_dirs_trans [OF refused(4) rt(3)] by simp
    next
      case (made c1 c2 c3 c4 c5 v)
      then show ?thesis
        using c ucast_up_inj [of c1 0] by simp
    qed
    then have u: "mem u = mem s" "same_dirs u s" "physmem_inv u" "frame_refcount u = frame_refcount s1" by blast+
    have b: "page_addr (ucast a)" "256 \<le> page_no (ucast a)" "page_no (ucast a) + 1024 \<le> total_frames u"
      using rg(5) [OF False] u(2) by (simp_all add: same_dirs_def)
    note fr = free_region_other [OF u(3) b, unfolded ucast_up_down, folded t]
    have "frame_refcount t f = frame_refcount s f" if "frame_refcount s f \<noteq> 0" for f
      using fr(4) [of f] rt(4) [of f] rt(6) [of f] that u(4) by auto
    then show ?thesis using fr(1-3) u(1) same_dirs_trans [OF fr(2) u(2)] by simp
  qed
  then show "mem t = mem s" "same_dirs t s" "\<And>f. frame_refcount s f \<noteq> 0 \<Longrightarrow> frame_refcount t f = frame_refcount s f"
    and "spaces_ok t D"
    using spaces_ok_counts [OF ok, of t] by (auto simp: same_dirs_def)
qed

lemma spawn_made:
  fixes s t :: "'a paging_st_scheme"
  assumes ok: "spaces_ok s D" and len: "length code \<le> 0x400000" and res: "usermode_new_space code s = (Some (c, b), t)"
  shows "c \<notin> D" "spaces_ok t (insert c D)" "total_frames t = total_frames s" "region_own t (insert c D) c b"
    "\<And>f. f \<in> region_frames b \<Longrightarrow> frame_refcount s f = 0"
    "\<And>d p off. d \<in> D \<Longrightarrow> p < 1024 \<Longrightarrow> off < 4096 \<Longrightarrow> view t d p off = view s d p off"
    "\<And>p off. p < 1024 \<Longrightarrow> off < 4096 \<Longrightarrow> view t c p off = (if guard_page p then None else Some (code_byte code (4096 * p + off)))"
    "\<And>d b'. d \<in> D \<Longrightarrow> region_own s D d b' \<Longrightarrow> region_own t (insert c D) d b'"
    "\<And>p. p < 1024 \<Longrightarrow> slot (mem t) (user_slot (mem t) c p) = user_entry b p" "same_tables (mem t) (mem s) D" "page_addr b"
    "page_no b + 1024 \<le> 1048576" "\<And>f. f \<in> region_frames b \<Longrightarrow> frame_refcount t f = 1" "same_dirs t s"
    "free_frames s = free_frames t + 1029" "b \<noteq> 0"
proof -
  obtain a s1 where al: "physmem_alloc_region (ucast PAGING_USER_SIZE) (ucast PAGING_USER_SIZE) s = (a, s1)" by fastforce
  note rg = alloc_region_space [OF spaces_okD(6) [OF ok] al]
  obtain c' u where cr: "paging_create_user_directory (ucast a) s1 = (c', u)" by fastforce
  have "a \<noteq> 0 \<and> c' = c \<and> c \<noteq> 0 \<and> b = ucast a \<and>
      t = usermode_copy_code b code (usermode_zero_memory b (ucast PAGING_USER_SIZE) u)"
    using res by (auto simp: usermode_new_space_def al cr Let_def split: if_splits)
  then have a: "a \<noteq> 0" and c: "c' = c" "c \<noteq> 0" and ba: "b = ucast a"
    and t: "t = usermode_copy_code b code (usermode_zero_memory b (ucast PAGING_USER_SIZE) u)" by blast+
  note rt = region_taken [OF ok al, folded ba]
  have b: "page_addr b" "256 \<le> page_no b" "page_no b + 1024 \<le> total_frames s1" and tot: "page_no b + 1024 \<le> 1048576"
    using rg(5) [OF a] rt(3) spaces_okD(6) [OF ok] unfolding ba by (simp_all add: same_dirs_def physmem_inv_def PHYSMEM_MAX_FRAMES_def)
  show "b \<noteq> 0" using b(2) by (auto simp: page_no_def)
  have R: "f \<in> region_frames b \<longleftrightarrow> page_no b \<le> f \<and> f < page_no b + 1024" for f
    using b(2) by (auto simp: region_frames_def page_no_def)
  obtain N where N: "c \<notin> D" "spaces_ok u (insert c D)" "same_tables (mem u) (mem s1) D" "same_dirs u s1"
    "all_tables (mem u) (insert c D) = N \<union> all_tables (mem s1) D"
    "\<And>p. p < 1024 \<Longrightarrow> slot (mem u) (user_slot (mem u) c p) = user_entry b p"
    "\<And>a. page_no a \<notin> page_no ` N \<Longrightarrow> mem u a = mem s1 a" "\<And>a. a \<in> N \<Longrightarrow> frame_refcount s1 (page_no a) = 0"
    "\<And>f. f \<notin> page_no ` N \<Longrightarrow> frame_refcount u f = frame_refcount s1 f" "free_frames s1 = free_frames u + 5"
    using spaces_okD(2) [OF rt(1)] cr [folded ba]
  proof (cases rule: create_cases)
    case (made c1 c2 c3 c4 c5 v)
    note ns = new_space [OF rt(1) b rt(5) made(1,2), folded made(4)]
    show thesis by (rule that [of "new_tables [c1, c2, c3, c4, c5]"]) (use ns made(3) c in auto)
  qed (use c in simp)
  show "c \<notin> D" by (rule N(1))
  have mt: "mem t x = (if page_no x \<in> region_frames b then code_byte code (unat (x - b)) else mem u x)" for x
    unfolding t written [OF len] in_region(1) [OF b(1) tot] R ..
  have rest: "frame_refcount t = frame_refcount u" "physmem_inv t" "total_frames t = total_frames u" "same_dirs t u" "free_frames t = free_frames u"
    using spaces_okD(6) [OF N(2)] unfolding t usermode_copy_code_def usermode_zero_memory_def
    by (simp_all add: physmem_inv_def free_set_def frame_is_marked_def same_dirs_def)
  show "same_dirs t s" using same_dirs_trans [OF rest(4) same_dirs_trans [OF N(4) rt(3)]] .
  show "free_frames s = free_frames t + 1029" using region_free_count(1) [OF spaces_okD(6) [OF ok] al a] N(10) rest(5) by simp
  show "total_frames t = total_frames s" using rest(3) N(4) rt(3) by (simp add: same_dirs_def)
  have nN: "f \<notin> page_no ` N" if "frame_refcount s1 f \<noteq> 0" for f using N(8) that by auto
  show "frame_refcount t f = 1" if "f \<in> region_frames b" for f using rt(5,7) [OF that] nN [of f] N(9) [of f] rest(1) by simp
  have tR: "page_no v \<notin> region_frames b" if "v \<in> all_tables (mem u) (insert c D)" for v
    using that N(5,8) rt(5) by auto
  have stu: "same_tables (mem t) (mem u) (insert c D)"
    unfolding same_tables_def using tR slot_inv_paged [OF spaces_okD(2) [OF N(2)]] by (auto intro!: entry_cong simp: mt)
  show okt: "spaces_ok t (insert c D)" using rest by (intro spaces_ok_same_tables [OF N(2) stu])
  show "page_addr b" "page_no b + 1024 \<le> 1048576" by (fact b(1) tot)+
  show sts: "same_tables (mem t) (mem s) D"
    using stu N(3) N(5) unfolding same_tables_def rt(2) by auto
  note up = same_upper_dirs [OF same_tables_upper [OF sts]] and upc = same_upper_dirs [OF same_tables_upper [OF stu]]
  show z: "frame_refcount s f = 0" if "f \<in> region_frames b" for f using rt(4) [OF that] .
  have keep: "frame_refcount t f = frame_refcount s f" if "frame_refcount s f \<noteq> 0" for f
    using that z [of f] rt(6) [of f] nN [of f] N(9) [of f] rest(1) by metis
  have all: "all_slots (mem t) (insert c D) = user_slots (mem t) c \<union> all_slots (mem s) D"
    "all_tables (mem t) (insert c D) = N \<union> all_tables (mem s) D"
    using up(6) upc(5) N(5) unfolding all_slots_def rt(2) by auto
  show sl: "slot (mem t) (user_slot (mem t) c p) = user_entry b p" if "p < 1024" for p
    using N(6) [OF that] same_tables_slot [OF stu slot_in_all [of c "insert c D" p "mem u"]] upc(4) [of c p] that by simp
  show "view t c p off = (if guard_page p then None else Some (code_byte code (4096 * p + off)))" if "p < 1024" "off < 4096" for p off
  proof -
    note rp = region_page [OF b(1) tot that(1)]
    have "page_no ((b + of_nat p * PAGING_PAGE_SIZE) + of_nat off) = page_no b + p"
      using page_no_in_page [OF page_addr_paged [OF rp(1)] that(2)] rp(2) by simp
    then have "mem t ((b + of_nat p * PAGING_PAGE_SIZE) + of_nat off) = code_byte code (4096 * p + off)"
      using mt [of "(b + of_nat p * PAGING_PAGE_SIZE) + of_nat off"] in_region(2) [OF b(1) tot that] that(1) by (simp add: R)
    then show ?thesis using sl [OF that(1)] rp(1) by (simp add: view_def seen_def Let_def user_entry_def)
  qed
  have uc: "frame_of (slot (mem t) x) \<in> region_frames b" if "x \<in> user_slots (mem t) c" "has (slot (mem t) x) PG_PRESENT" for x
    using that sl region_page(1,2) [OF b(1) tot]
    by (elim user_slots_page) (auto simp: user_entry_def R frame_of_def split: if_splits)
  have old: "refs (mem t) (all_slots (mem s) D) f = refs (mem s) (all_slots (mem s) D) f" for f
    using same_tables_slot [OF sts] unfolding refs_def by auto
  show "region_own t (insert c D) c b"
    unfolding region_own_def
  proof (intro conjI ballI impI)
    show "page_addr b" "256 \<le> page_no b" "page_no b + 1024 \<le> total_frames t"
      using b N(4) rest(3) by (simp_all add: same_dirs_def)
    fix f assume f: "f \<in> region_frames b"
    note h = rt(5) [OF f, unfolded rt(2)]
    show "frame_refcount t f \<noteq> 0" using h nN [of f] N(9) [of f] rest(1) by simp
    show "f \<notin> page_no ` all_tables (mem t) (insert c D)" using h nN [of f] unfolding all(2) by auto
    show "refs (mem t) (all_slots (mem t) (insert c D)) f \<subseteq> user_slots (mem t) c"
      using h old [of f] unfolding all(1) refs_def by blast
  qed
  show "region_own t (insert c D) d b'" if d: "d \<in> D" and own: "region_own s D d b'" for d b'
  proof (rule region_own_keep [OF own \<open>total_frames t = total_frames s\<close>])
    fix f assume "f \<in> region_frames b'" and f: "frame_refcount s f \<noteq> 0" "f \<notin> page_no ` all_tables (mem s) D"
      "refs (mem s) (all_slots (mem s) D) f \<subseteq> user_slots (mem s) d"
    have "f \<notin> region_frames b" using z f(1) by blast
    then have "refs (mem t) (all_slots (mem t) (insert c D)) f \<subseteq> refs (mem s) (all_slots (mem s) D) f"
      using uc old [of f] unfolding all(1) refs_def by auto
    moreover have "f \<notin> page_no ` N" using N(8) rt(6) [OF \<open>f \<notin> region_frames b\<close>] f(1) by auto
    ultimately show "frame_refcount t f \<noteq> 0 \<and> f \<notin> page_no ` all_tables (mem t) (insert c D) \<and>
        refs (mem t) (all_slots (mem t) (insert c D)) f \<subseteq> user_slots (mem t) d"
      using keep [OF f(1)] f up(3) [OF d] unfolding all(2) by auto
  qed
  show "view t d p off = view s d p off" if "d \<in> D" "p < 1024" "off < 4096" for d p off
  proof (rule same_tables_view [OF sts that(1,2)])
    let ?e = "slot (mem s) (user_slot (mem s) d p)"
    assume pr: "has ?e PG_PRESENT"
    have "frame_refcount s (frame_of ?e) \<noteq> 0" by (rule present_frame(4) [OF ok that(1,2) pr])
    then have "frame_of ?e \<notin> region_frames b" "frame_of ?e \<notin> page_no ` N"
      using z [of "frame_of ?e"] rt(6) [of "frame_of ?e"] nN [of "frame_of ?e"] by metis+
    then show "mem t ((?e AND PG_ADDR_MASK) + of_nat off) = mem s ((?e AND PG_ADDR_MASK) + of_nat off)"
      using frame_bytes [OF that(3), of ?e] N(7) rt(2) by (simp add: mt)
  qed
qed

end
