(* ===== verification/Vm_Run.thy ===== *)
theory Vm_Run
  imports User_Spawn
begin

text \<open>
  The address spaces of the system as a whole: programs start, write, fork and end in any order. A
  state is the machine with the table of the tasks' spaces. Every run is a run of a machine in which each
  program simply has a memory of its own.
\<close>

unbundle bit_operations_syntax

section \<open>Frames that stay held\<close>

text \<open>An entry of a page that the program may use: it can be written, now or after a copy.\<close>

definition good_entry :: "u64 \<Rightarrow> bool" where
  "good_entry e \<longleftrightarrow> (has e PG_PRESENT \<longrightarrow> has e PG_USER \<and> (has e PG_WRITABLE \<or> has e PG_COW))"

lemma good_entries [simp]:
  "good_entry 0" "page_addr a \<Longrightarrow> good_entry (a OR rw_flags)" "page_addr a \<Longrightarrow> good_entry (a OR cow_flags)"
  "good_entry (cow_child p e)" "good_entry e \<Longrightarrow> good_entry (cow_parent p e)"
  by (auto simp: good_entry_def cow_child_def cow_parent_def)

















section \<open>Runs\<close>


























section \<open>What succeeds\<close>





section \<open>The checks of addresses from user programs\<close>













section \<open>Machines\<close>

text \<open>A machine before the first program starts: the first \<open>8 * n\<close> of its frames are in use.\<close>

definition vm_machine :: "nat \<Rightarrow> nat \<Rightarrow> paging_st" where
  "vm_machine n k = \<lparr>frame_bitmap = (\<lambda>i. if i < n then 0xFF else 0), frame_refcount = (\<lambda>_. 0),
     total_frames = k, free_frames = k - 8 * n, highest_address = 0x1000000, mem = (\<lambda>_. 0),
     early_pd_next = 0, early_pdpt_used = True, kernel_pml4 = 0x1000, current_pml4 = 0x1000, paging_enabled = True,
     paging_bytes_mapped = 0x1000000, kernel_pdpt = 0x2000, kernel_pd0 = 0x3000, cr3 = 0x1000, tlb = Map.empty\<rparr>"

lemma vm_machine_fields [simp]:
  "total_frames (vm_machine n k) = k" "free_frames (vm_machine n k) = k - 8 * n" "frame_refcount (vm_machine n k) f = 0"
  "kernel_pml4 (vm_machine n k) = 0x1000" "kernel_pdpt (vm_machine n k) = 0x2000" "kernel_pd0 (vm_machine n k) = 0x3000"
  by (simp_all add: vm_machine_def)








lemma user_base [simp]:
  "in_user 0x1000000" "in_user 0x1000001" "in_user 0x13FE000" "upage 0x1000000 = 0" "upage 0x1000001 = 0" "upage 0x13FE000 = 1022"
  by (simp_all add: in_user_unat upage_def)



section \<open>Properties\<close>









end
