(* ===== verification/Spec2Isabelle.thy ===== *)
theory Spec2Isabelle
  imports Pipe Mqueue Utf8 Parser Net_Stream Vm_Run
begin

text \<open>
  \<^bold>\<open>Verification of parts of the Lyth kernel\<close>

  Lyth is a kernel for x86-64 written in C. The development models its memory allocators, the
  address spaces of its programs, the kernel objects behind file descriptors (pipes and message queues), its string, text and log libraries, the
  parser of its shell, and its network stack from the ring of the card up to the socket table. Paths
  below are relative to \<^verbatim>\<open>src/\<close>.

  \<^bold>\<open>Conventions\<close> (\<open>Lyth_Prelude\<close>). Integers are words of the width of the C type, so sums wrap as they do
  in the code; a C \<^verbatim>\<open>int\<close> that only carries results or small indices is an \<open>int\<close> or a \<open>nat\<close>. A pointer to a
  kernel object in memory is an address of 64 bits, a pointer into a static table is an index, and a
  pointer that may be null is an \<open>option\<close>. The static variables of a file are the fields of a record;
  a component that calls another extends its record, so that
  \<open>physmem\<close>, \<open>slab_st\<close>, \<open>heap_st\<close>, \<open>vfs_st\<close> and then \<open>pipe_st\<close> or \<open>mq_st\<close> form one chain, and
  \<open>net_st\<close>, \<open>ip_st\<close>, \<open>icmp_st\<close>, \<open>udp_st\<close>, \<open>dns_st\<close>, \<open>dhcp_st\<close>, \<open>tcp_st\<close>, \<open>sock_st\<close>, \<open>e1000_st\<close> another. Each C function is
  one function of the model, loops and branches that are long or shared have a definition of their own,
  and what a function writes through a pointer argument is a component of its result.

  \<^bold>\<open>Loops.\<close> A counted loop over a table is \<open>first_idx\<close>, \<open>find\<close>, \<open>map\<close> or \<open>fold\<close>; other loops are recursive
  functions with a termination proof. A loop that the code does not bound (a walk over a linked list, the
  search for the end of a string, a busy wait, the polling of the card) is a partial function whose value
  \<open>None\<close> means that the call does not return; that such calls return is stated where it is claimed. A
  blocking operation is one attempt and a loop over a schedule, the list of what other tasks do between
  two attempts. No fuel is used.

  \<^bold>\<open>Memory.\<close>
  \<^item> \<open>Physmem\<close>: \<^verbatim>\<open>kernel/mem/physmem.c\<close>, the bitmap of frames with reference counts. An invariant ties the
    counter of free frames to the bitmap; it holds in every reachable state, whatever
    the callers do; that a frame with references is in use needs callers that refer only to frames in use. Allocation of a frame and of a
    region is characterised on every branch, the search is the first fit, and releasing gives back exactly
    what was taken. Three theorems show sizes and counts at which the code fails.
  \<^item> \<open>Slab\<close>: \<^verbatim>\<open>kernel/mem/slab.c\<close>, eight caches with lists of pages and free lists inside pages, over
    \<open>Linked_List\<close>. A representation predicate relates the memory to the set of objects handed out; allocation and
    freeing refine insertion into and removal from it.
  \<^item> \<open>Heap\<close>: \<^verbatim>\<open>kernel/mem/heap.c\<close>, first fit over a list of blocks with splitting and merging. The list tiles the
    range of the heap; \<^verbatim>\<open>kmalloc\<close> takes the first block that fits and \<^verbatim>\<open>kfree\<close> after it restores the list.
  \<^item> \<open>Allocator\<close> is the contract of an allocator, a locale with the lemmas of a client; it is interpreted on the
    frames and on the slab allocator.

  \<^bold>\<open>Virtual memory.\<close> The record \<open>paging_st\<close> extends \<open>physmem\<close> by the bytes of physical memory and the static variables of
  \<^verbatim>\<open>kernel/mem/paging.c\<close>; page tables are read from and written to those bytes, and \<open>translate\<close> is the walk of the processor.
  \<^item> \<open>Paging\<close>: the functions of \<^verbatim>\<open>paging.c\<close>: tables, user directories, checks of user addresses, copy on write.
  \<^item> \<open>Page_Slots\<close>: entries of page tables as slots; the invariant that ties them to the reference counts of the frames, and what each
    write of an entry does to it.
  \<^item> \<open>Address_Space\<close>: sets of directories that share no table, and the view of a program on its pages; a store with the page fault
    that resolves a copy on write. \<open>Fork\<close>: \<^verbatim>\<open>paging_cow_clone_user_directory\<close> on every branch.
  \<^item> \<open>User_Space\<close> and \<open>User_Spawn\<close>: the part of \<^verbatim>\<open>kernel/usermode.c\<close> and \<^verbatim>\<open>kernel/task/task.c\<close> that makes the space of a
    program and releases it.
  \<^item> \<open>Vm_Run\<close>: runs of the whole system. Every run refines a machine in which each program has a memory of its own; stores and forks
    succeed while frames are free; the checks of user addresses are characterised.

  \<^bold>\<open>Kernel objects.\<close>
  \<^item> \<open>Vfs_Node\<close>: the structure of a node of \<^verbatim>\<open>include/fs/vfs.h\<close> and its allocation.
  \<^item> \<open>Pipe\<close>: \<^verbatim>\<open>fs/pipe.c\<close>. Under every sequence of reads and writes a pipe is a queue of bytes; a blocking read returns
    under a schedule in which data or the end of the stream arrives; the readiness tests are exact.
  \<^item> \<open>Mqueue\<close>: \<^verbatim>\<open>kernel/mqueue.c\<close>. The table refines a map from identifiers to bounded lists of messages.
  \<^item> \<open>Fifo\<close> is the contract of a bounded queue, interpreted on the ring of a pipe and on that of a message queue.

  \<^bold>\<open>Libraries.\<close> \<open>Kstring\<close>: \<^verbatim>\<open>lib/string.c\<close>, the assembler string instructions by their effect on a memory of bytes;
  \<open>Utf8\<close>: \<^verbatim>\<open>lib/utf8.c\<close>, the decoder inverts the encoding and the search of the glyph table finds the entries that are in
  order; \<open>Klog\<close>: \<^verbatim>\<open>kernel/klog.c\<close>, the log shows the last 64 entries; \<open>Parser\<close>: \<^verbatim>\<open>userland/shell/parser.c\<close>.

  \<^bold>\<open>Network.\<close>
  \<^item> \<open>Net_Base\<close>: \<^verbatim>\<open>include/net/endian.h\<close>, \<^verbatim>\<open>net/netif.c\<close>, \<^verbatim>\<open>net/ethernet.c\<close> (sending) and \<^verbatim>\<open>net/arp.c\<close>.
  \<^item> \<open>Net_Ip\<close>: \<^verbatim>\<open>net/ipv4.c\<close> (checksum, routes, sending). The checksum is computed modulo 65535 and a header that carries
    it verifies.
  \<^item> \<open>Net_Udp\<close>: \<^verbatim>\<open>net/icmp.c\<close> and \<^verbatim>\<open>net/udp.c\<close>; \<open>Net_Dns\<close>: \<^verbatim>\<open>net/dns.c\<close> and \<^verbatim>\<open>net/dhcp.c\<close>; \<open>Net_Tcp\<close>: \<^verbatim>\<open>net/tcp.c\<close>;
    \<open>Net_Socket\<close>: \<^verbatim>\<open>net/socket.c\<close>.
  \<^item> \<open>Net_Stack\<close>: the receive path, from \<^verbatim>\<open>e1000_poll_rx\<close> of \<^verbatim>\<open>drivers/net/e1000.c\<close> through \<^verbatim>\<open>eth_rx\<close>, \<^verbatim>\<open>ipv4_rx\<close> and
    \<^verbatim>\<open>udp_rx\<close>. Sending polls the card while an address is resolved, so every function that sends takes
    \<open>poll\<close> as an argument and is monotone in it; the polling loop is the least fixed point. The device is a function in
    the state that changes the ring before each read, and a clock: the theorems hold for every device.
  \<^item> \<open>Net_Inv\<close>: the invariant of the whole stack. The locale \<open>polled\<close> says what sending keeps if polling keeps it,
    \<open>stack_poll\<close> and \<open>stack_clients\<close> carry the invariant through every layer; they are interpreted on
    the polling loop itself. \<open>net_step\<close> is the relation of all entry points.
  \<^item> \<open>Net_Delivery\<close>: a datagram sent by one host is received by another; \<open>Net_Echo\<close>: an echo request that is never
    answered; \<open>Net_Stream\<close>: the address cache as a list in the order of
    recency, the receive buffer of TCP as a queue, the sizes that UDP accepts.

  \<^bold>\<open>Bounds.\<close> The sizes of tables and buffers are those of the code (1048576 frames, 16 message queues of at most 32 messages, pipes
  of 4096 bytes, 16 UDP and 16 TCP sockets with buffers of 4096 and 8192 bytes, 32 entries of the address cache, 32
  descriptors). A copy past the end of a buffer on the stack of the kernel sets the field \<open>overrun\<close>; what it destroys is
  not modelled.

  \<^bold>\<open>Not modelled\<close>: concurrency below the level of the steps above (interrupts in the middle of an operation, several
  processors, spin locks); the transmit path, the registers and the start of the network card, and all other
  drivers, whose effects are on hardware; the VFS and the file systems, the scheduler
  and system calls; of the address spaces, shared memory, \<^verbatim>\<open>mmap\<close> and the loader of ELF files, which change mappings as well, the
  processor's cache of translations, which the walk does not consult, and what the kernel writes into the frames it takes for itself; the graphical
  interface and the commands of the shell; start-up code and assembler.
\<close>

end
